(* ===== verification/Prelude.thy ===== *)
theory Prelude
  imports Main "HOL-Library.Word" "HOL-Library.Code_Target_Numeral"
begin

section \<open>Prelude: strings, exceptions and the shared automation\<close>

text \<open>
  What every component of the development shares: JavaScript strings as lists of UTF-16 code
  units, exceptions as values, the state-and-exception combinators the translated function
  bodies are written with, and a few generic list lemmas.
\<close>

subsection \<open>Strings\<close>

text \<open>
  A JavaScript string is a sequence of 16-bit code units, surrogates included, whether or not
  they are paired.  \<open>js\<close> turns an Isabelle string literal into such a sequence.
\<close>

type_synonym unit16 = "16 word"
type_synonym jstr = "unit16 list"

definition js :: "string \<Rightarrow> jstr" where
  "js s = map of_char s"

lemma unat_of_char_unit16: "unat (of_char c :: unit16) = of_char c"
proof -
  have "of_char c < (65536 :: nat)"
    using nat_of_char_less_256 [of c] by linarith
  moreover have "unat (of_char c :: unit16) = unat (of_nat (of_char c) :: unit16)"
    by (simp only: of_nat_of_char)
  ultimately show ?thesis by (simp add: unat_of_nat)
qed

lemma of_char_unit16_inj: "inj (of_char :: char \<Rightarrow> unit16)"
proof (rule injI)
  fix c d :: char
  assume "(of_char c :: unit16) = of_char d"
  then have "(of_char c :: nat) = of_char d" by (metis unat_of_char_unit16)
  then show "c = d" by simp
qed

lemma js_eq_iff [simp]: "js s = js t \<longleftrightarrow> s = t"
  by (simp add: js_def of_char_unit16_inj)

lemma js_Nil [simp]: "js [] = []" and js_Nil_iff [simp]: "js s = [] \<longleftrightarrow> s = []"
  and Nil_js_iff [simp]: "[] = js s \<longleftrightarrow> s = []"
  by (auto simp: js_def)

lemma length_js [simp]: "length (js s) = length s"
  by (simp add: js_def)

lemma js_append: "js (s @ t) = js s @ js t"
  by (simp add: js_def)

text \<open>\<open>join_with sep xs\<close> is \<open>xs.join(sep)\<close>.\<close>

fun join_with :: "'a list \<Rightarrow> 'a list list \<Rightarrow> 'a list" where
  "join_with sep [] = []"
| "join_with sep [x] = x"
| "join_with sep (x # y # ys) = x @ sep @ join_with sep (y # ys)"

lemma join_with_Cons: "ys \<noteq> [] \<Longrightarrow> join_with sep (x # ys) = x @ sep @ join_with sep ys"
  by (cases ys) auto

subsection \<open>Exceptions\<close>

text \<open>
  The values the code and the browser interfaces it calls can throw: the engine's
  \<open>SyntaxError\<close>, \<open>TypeError\<close>, \<open>RangeError\<close>, \<open>ReferenceError\<close> and \<open>URIError\<close>, and a \<open>DOMException\<close> by name.
\<close>

datatype exn = SyntaxError | TypeError | RangeError | ReferenceError | URIError | DOMException string

subsection \<open>State and exceptions\<close>

text \<open>
  A statement runs in a state and ends either normally, with a value, or with an exception;
  in both cases the state it leaves is kept: a throw does not undo what was done before it.
\<close>

type_synonym ('s, 'a) prog = "'s \<Rightarrow> (exn + 'a) \<times> 's"

named_theorems prog_simps \<open>unfolding the state-and-exception combinators\<close>

definition ret :: "'a \<Rightarrow> ('s, 'a) prog" where
  "ret x = (\<lambda>s. (Inr x, s))"

definition throw :: "exn \<Rightarrow> ('s, 'a) prog" where
  "throw e = (\<lambda>s. (Inl e, s))"

definition bnd :: "('s, 'a) prog \<Rightarrow> ('a \<Rightarrow> ('s, 'b) prog) \<Rightarrow> ('s, 'b) prog" where
  "bnd m f = (\<lambda>s. case m s of (Inl e, t) \<Rightarrow> (Inl e, t) | (Inr x, t) \<Rightarrow> f x t)"

definition seq :: "('s, 'a) prog \<Rightarrow> ('s, 'b) prog \<Rightarrow> ('s, 'b) prog" where
  "seq m n = bnd m (\<lambda>_. n)"

definition gets :: "('s \<Rightarrow> 'a) \<Rightarrow> ('s, 'a) prog" where
  "gets f = (\<lambda>s. (Inr (f s), s))"

definition modify :: "('s \<Rightarrow> 's) \<Rightarrow> ('s, unit) prog" where
  "modify f = (\<lambda>s. (Inr (), f s))"

text \<open>\<open>try_catch m h\<close> is \<open>try { m } catch (e) { h }\<close>.\<close>

definition try_catch :: "('s, 'a) prog \<Rightarrow> (exn \<Rightarrow> ('s, 'a) prog) \<Rightarrow> ('s, 'a) prog" where
  "try_catch m h = (\<lambda>s. case m s of (Inl e, t) \<Rightarrow> h e t | (Inr x, t) \<Rightarrow> (Inr x, t))"

text \<open>\<open>for_each xs body\<close> is a \<open>for\<close> loop whose body runs once for each element of \<open>xs\<close>.\<close>

fun for_each :: "'a list \<Rightarrow> ('a \<Rightarrow> ('s, unit) prog) \<Rightarrow> ('s, unit) prog" where
  "for_each [] body = ret ()"
| "for_each (x # xs) body = seq (body x) (for_each xs body)"

lemmas [prog_simps] =
  ret_def throw_def bnd_def seq_def gets_def modify_def try_catch_def

lemma bnd_Inr: "m s = (Inr x, t) \<Longrightarrow> bnd m f s = f x t"
  by (simp add: bnd_def)

lemma bnd_Inl: "m s = (Inl e, t) \<Longrightarrow> bnd m f s = (Inl e, t)"
  by (simp add: bnd_def)

lemma seq_Inr: "m s = (Inr x, t) \<Longrightarrow> seq m n s = n t"
  by (simp add: seq_def bnd_def)

lemma seq_Inl: "m s = (Inl e, t) \<Longrightarrow> seq m n s = (Inl e, t)"
  by (simp add: seq_def bnd_def)

lemmas prog_steps = bnd_Inr bnd_Inl seq_Inr seq_Inl

lemma bnd_ret [simp]: "bnd (ret x) f = f x"
  and seq_ret [simp]: "seq (ret x) n = n"
  and bnd_throw [simp]: "bnd (throw e) f = throw e"
  and seq_throw [simp]: "seq (throw e) n = throw e"
  and bnd_gets [simp]: "bnd (gets g) f = (\<lambda>s. f (g s) s)"
  and seq_modify [simp]: "seq (modify h) n = (\<lambda>s. n (h s))"
  by (simp_all add: prog_simps fun_eq_iff)

text \<open>An invariant of every iteration is an invariant of the loop.\<close>

lemma for_each_invariant:
  assumes step: "\<And>x s. x \<in> set xs \<Longrightarrow> I s \<Longrightarrow> \<exists>t. body x s = (Inr (), t) \<and> I t"
    and start: "I s"
  shows "\<exists>t. for_each xs body s = (Inr (), t) \<and> I t"
  using assms
proof (induction xs arbitrary: s)
  case Nil
  then show ?case by (simp add: ret_def)
next
  case (Cons x xs)
  from Cons.prems obtain u where u: "body x s = (Inr (), u)" "I u"
    by (meson list.set_intros(1))
  with Cons.IH [of u] Cons.prems(1) obtain t where "for_each xs body u = (Inr (), t)" "I t"
    by (meson list.set_intros(2))
  with u show ?case by (simp add: seq_Inr)
qed

subsection \<open>Lists\<close>

lemma takeWhile_all [simp]: "\<forall>x \<in> set xs. P x \<Longrightarrow> takeWhile P xs = xs"
  and dropWhile_all [simp]: "\<forall>x \<in> set xs. P x \<Longrightarrow> dropWhile P xs = []"
  by simp_all

lemma find_Some_first: "find P xs = Some x \<Longrightarrow> x \<in> set xs \<and> P x"
  by (induction xs) (auto split: if_splits)

lemma find_exists: "x \<in> set xs \<Longrightarrow> P x \<Longrightarrow> \<exists>y. find P xs = Some y"
  by (induction xs) auto

end
