(* ===== verification/Numbers.thy ===== *)
theory Numbers
  imports Prelude "HOL-Library.Log_Nat"
begin

section \<open>Numbers: the doubles of the language and their decimal texts\<close>

text \<open>
  A JavaScript number is an IEEE 754 double.  The code converts between numbers and text in
  four places: the unary plus of the form helpers, \<open>JSON.stringify\<close>, \<open>JSON.parse\<close> and the
  value of a number input.  This theory has the doubles with their exact values, correct
  rounding of a decimal, the shortest decimal that reads back as the number (the language's
  \<open>Number::toString\<close>) and the decimal grammars; the main lemma is that the text of a number
  reads back as the number.
\<close>

subsection \<open>Doubles\<close>

text \<open>
  \<open>Fin neg m e\<close> is \<open>m * 2 ^ e\<close>, negated when \<open>neg\<close>; the mantissa is below \<open>2 ^ 53\<close> and below
  \<open>2 ^ 52\<close> only at the least exponent, so every finite double has one representation, and zero
  has two signs.
\<close>

datatype jnum = NaN | Inf bool | Fin bool nat int

fun wf_num :: "jnum \<Rightarrow> bool" where
  "wf_num (Fin neg m e) \<longleftrightarrow>
     m < 2 ^ 53 \<and> -1074 \<le> e \<and> e \<le> 971 \<and> (m < 2 ^ 52 \<longrightarrow> e = -1074)"
| "wf_num _ \<longleftrightarrow> True"

definition zero :: jnum where "zero = Fin False 0 (-1074)"

text \<open>\<open>pow_le b e p q\<close> decides \<open>b ^ e \<le> p / q\<close>; \<open>flog b p q\<close> is the floor of \<open>log b (p / q)\<close>.\<close>

definition pow_le :: "nat \<Rightarrow> int \<Rightarrow> nat \<Rightarrow> nat \<Rightarrow> bool" where
  "pow_le b e p q \<longleftrightarrow> (if 0 \<le> e then b ^ nat e * q \<le> p else q \<le> b ^ nat (- e) * p)"

definition flog :: "nat \<Rightarrow> nat \<Rightarrow> nat \<Rightarrow> int" where
  "flog b p q =
     (let e = int (floorlog b p) - int (floorlog b q) in if pow_le b e p q then e else e - 1)"

text \<open>\<open>scale b e p q\<close> is the fraction \<open>(p / q) / b ^ e\<close>.\<close>

definition scale :: "nat \<Rightarrow> int \<Rightarrow> nat \<Rightarrow> nat \<Rightarrow> nat \<times> nat" where
  "scale b e p q = (if 0 \<le> e then (p, q * b ^ nat e) else (p * b ^ nat (- e), q))"

text \<open>The integer nearest to \<open>p / q\<close>, ties to even.\<close>

definition round_even :: "nat \<Rightarrow> nat \<Rightarrow> nat" where
  "round_even p q =
     (let d = p div q; r = p mod q
      in if 2 * r < q then d else if q < 2 * r then d + 1 else if even d then d else d + 1)"

text \<open>The double nearest to \<open>p / q\<close>, ties to even, overflowing to infinity.\<close>

definition round_num :: "bool \<Rightarrow> nat \<Rightarrow> nat \<Rightarrow> jnum" where
  "round_num neg p q =
     (if p = 0 then Fin neg 0 (-1074)
      else let ex = max (flog 2 p q - 52) (-1074);
               m = (case scale 2 ex p q of (p', q') \<Rightarrow> round_even p' q')
           in if m = 2 ^ 53 then (if 970 < ex then Inf neg else Fin neg (2 ^ 52) (ex + 1))
              else if 971 < ex then Inf neg else Fin neg m ex)"

text \<open>The exact value of a finite double as a fraction.\<close>

definition exact :: "nat \<Rightarrow> int \<Rightarrow> nat \<times> nat" where
  "exact m e = (if 0 \<le> e then (m * 2 ^ nat e, 1) else (m, 2 ^ nat (- e)))"

subsection \<open>Rounding\<close>

lemma pow_le_real:
  assumes "0 < b" "0 < q"
  shows "pow_le b e p q \<longleftrightarrow> real b powi e \<le> real p / real q"
proof (cases "0 \<le> e")
  case True
  then have "real b powi e = real (b ^ nat e)" by (simp add: power_int_def)
  moreover have "b ^ nat e * q \<le> p \<longleftrightarrow> real (b ^ nat e) * real q \<le> real p"
    by (metis of_nat_le_iff of_nat_mult)
  ultimately show ?thesis
    using assms True by (simp add: pow_le_def pos_le_divide_eq)
next
  case False
  define c where "c = real (b ^ nat (- e))"
  have c: "0 < c" using assms by (simp add: c_def)
  have "real b powi e = 1 / c"
    using False by (simp add: c_def power_int_def divide_inverse power_inverse)
  moreover have "q \<le> b ^ nat (- e) * p \<longleftrightarrow> real q \<le> c * real p"
    unfolding c_def by (metis of_nat_le_iff of_nat_mult)
  moreover have "1 / c \<le> real p / real q \<longleftrightarrow> real q \<le> c * real p"
    using c assms by (simp add: field_simps)
  ultimately show ?thesis
    using False by (simp add: pow_le_def)
qed

lemma floorlog_real:
  assumes "1 < b" "0 < p"
  shows "real b powi (int (floorlog b p) - 1) \<le> real p" "real p < real b powi (int (floorlog b p))"
proof -
  have pos: "0 < floorlog b p"
    using assms by (simp add: floorlog_def)
  have B: "b ^ (floorlog b p - 1) \<le> p" "p < b ^ floorlog b p"
    using floorlog_bounds [OF assms(2,1)] by auto
  have "real b powi (int (floorlog b p) - 1) = real (b ^ (floorlog b p - 1))"
    using pos by (simp add: power_int_def nat_diff_distrib)
  with B(1) show "real b powi (int (floorlog b p) - 1) \<le> real p" by (metis of_nat_le_iff)
  have "real b powi (int (floorlog b p)) = real (b ^ floorlog b p)"
    by (simp add: power_int_def)
  with B(2) show "real p < real b powi (int (floorlog b p))" by (metis of_nat_less_iff)
qed

lemma flog_bounds:
  assumes b: "1 < b" and p: "0 < p" and q: "0 < q"
  shows "real b powi flog b p q \<le> real p / real q"
    and "real p / real q < real b powi (flog b p q + 1)"
proof -
  define i j where "i = int (floorlog b p)" and "j = int (floorlog b q)"
  have nz: "real b \<noteq> 0" and bpos: "0 < real b" using b by auto
  have P: "real b powi (i - 1) \<le> real p" "real p < real b powi i"
    using floorlog_real [OF b p] by (simp_all add: i_def)
  have Q: "real b powi (j - 1) \<le> real q" "real q < real b powi j"
    using floorlog_real [OF b q] by (simp_all add: j_def)
  have pw: "0 < real b powi k" for k using bpos by simp
  have lo: "real b powi (i - j - 1) \<le> real p / real q"
  proof -
    have "real b powi ((i - 1) - j) = real b powi (i - 1) / real b powi j"
      by (rule power_int_diff) (use nz in simp)
    also have "\<dots> \<le> real p / real q"
      using P(1) Q(2) q pw [of j] pw [of "i - 1"] by (intro frac_le) auto
    finally show ?thesis by (simp add: algebra_simps)
  qed
  have hi: "real p / real q < real b powi (i - j + 1)"
  proof -
    have "real p / real q < real b powi i / real b powi (j - 1)"
      using P(2) Q(1) q p pw [of "j - 1"] by (intro frac_less) auto
    also have "\<dots> = real b powi (i - (j - 1))"
      by (rule power_int_diff [symmetric]) (use nz in simp)
    also have "i - (j - 1) = i - j + 1" by simp
    finally show ?thesis .
  qed
  have mid: "pow_le b (i - j) p q \<longleftrightarrow> real b powi (i - j) \<le> real p / real q"
    using b q by (intro pow_le_real) auto
  have fl: "flog b p q = (if pow_le b (i - j) p q then i - j else i - j - 1)"
    by (simp add: flog_def i_def j_def Let_def)
  show "real b powi flog b p q \<le> real p / real q"
    using lo mid fl by simp
  show "real p / real q < real b powi (flog b p q + 1)"
    using hi mid fl by (auto simp: not_le)
qed

lemma flog_unique:
  assumes b: "1 < b" and p: "0 < p" and q: "0 < q"
    and lo: "real b powi k \<le> real p / real q" and hi: "real p / real q < real b powi (k + 1)"
  shows "flog b p q = k"
proof -
  have b1: "1 < real b" using b by simp
  have "real b powi flog b p q < real b powi (k + 1)"
    using flog_bounds(1) [OF b p q] hi by linarith
  then have "flog b p q < k + 1"
    using b1 by (smt (verit) power_int_increasing)
  moreover have "real b powi k < real b powi (flog b p q + 1)"
    using flog_bounds(2) [OF b p q] lo by linarith
  then have "k < flog b p q + 1"
    using b1 by (smt (verit) power_int_increasing)
  ultimately show ?thesis by simp
qed

lemma flog_mult [simp]:
  assumes "1 < b" "0 < p" "0 < q" "0 < c"
  shows "flog b (c * p) (c * q) = flog b p q"
proof (rule flog_unique)
  have eq: "real (c * p) / real (c * q) = real p / real q" using assms by simp
  show "real b powi flog b p q \<le> real (c * p) / real (c * q)"
    using flog_bounds(1) [OF assms(1,2,3)] by (simp only: eq)
  show "real (c * p) / real (c * q) < real b powi (flog b p q + 1)"
    using flog_bounds(2) [OF assms(1,2,3)] by (simp only: eq)
qed (use assms in auto)

lemma round_even_mult [simp]: "0 < c \<Longrightarrow> round_even (c * p) (c * q) = round_even p q"
proof -
  assume c: "0 < c"
  have "2 * (c * p mod (c * q)) < c * q \<longleftrightarrow> 2 * (p mod q) < q"
    using c by (simp add: mult_mod_right [symmetric] mult.left_commute [of 2])
  moreover have "c * q < 2 * (c * p mod (c * q)) \<longleftrightarrow> q < 2 * (p mod q)"
    using c by (simp add: mult_mod_right [symmetric] mult.left_commute [of 2])
  ultimately show ?thesis using c by (simp add: round_even_def Let_def)
qed

lemma round_even_exact [simp]: "0 < q \<Longrightarrow> round_even (m * q) q = m"
  by (simp add: round_even_def Let_def)

lemma scale_mult: "scale b e (c * p) (c * q) = (case scale b e p q of (p', q') \<Rightarrow> (c * p', c * q'))"
  by (simp add: scale_def ac_simps)

lemma round_num_mult: "0 < c \<Longrightarrow> 0 < q \<Longrightarrow> round_num neg (c * p) (c * q) = round_num neg p q"
  by (cases "scale 2 (max (flog 2 p q - 52) (- 1074)) p q")
    (auto simp: round_num_def scale_mult Let_def)

text \<open>Rounding depends on the value of the fraction only.\<close>

lemma round_num_ratio:
  assumes "p * q' = p' * q" "0 < q" "0 < q'"
  shows "round_num neg p q = round_num neg p' q'"
proof -
  have "round_num neg p q = round_num neg (q' * p) (q' * q)"
    using assms by (simp add: round_num_mult)
  also have "\<dots> = round_num neg (q * p') (q * q')"
    using assms(1) by (simp add: ac_simps)
  also have "\<dots> = round_num neg p' q'"
    using assms by (simp add: round_num_mult)
  finally show ?thesis .
qed

text \<open>A double rounds to itself.\<close>

lemma exact_real:
  assumes "exact m e = (p, q)"
  shows "real p / real q = real m * 2 powi e"
proof (cases "0 \<le> e")
  case True
  with assms have "p = m * 2 ^ nat e" "q = 1" by (auto simp: exact_def)
  with True show ?thesis by (simp add: power_int_def)
next
  case False
  then obtain k where k: "e = - int k" by (metis nonneg_int_cases nle_le neg_0_le_iff_le minus_minus)
  with False assms have "p = m" "q = 2 ^ k" by (auto simp: exact_def)
  with k show ?thesis by (simp add: power_int_minus divide_inverse)
qed

lemma exact_pos: "exact m e = (p, q) \<Longrightarrow> 0 < q \<and> (0 < m \<longrightarrow> 0 < p)"
  by (auto simp: exact_def split: if_splits)

lemma exact_scale: "exact m e = (p, q) \<Longrightarrow> (case scale 2 e p q of (p', q') \<Rightarrow> round_even p' q') = m"
  by (auto simp: exact_def scale_def split: if_splits)

lemma flog_exact:
  assumes ex: "exact m e = (p, q)" and lo: "2 ^ k \<le> m" and hi: "m < 2 ^ Suc k"
  shows "flog 2 p q = e + int k"
proof (rule flog_unique)
  have m: "0 < m" using lo by (metis less_le_trans zero_less_numeral zero_less_power)
  show "0 < p" "0 < q" using exact_pos [OF ex] m by auto
  have val: "real p / real q = real m * 2 powi e" by (rule exact_real [OF ex])
  have "(2 :: real) powi (e + int k) = 2 ^ k * 2 powi e"
    by (simp add: power_int_add)
  also have "(2 :: real) ^ k \<le> real m" using lo by (metis of_nat_le_iff of_nat_numeral of_nat_power)
  then have "2 ^ k * 2 powi e \<le> real m * (2 :: real) powi e" by simp
  finally show "real 2 powi (e + int k) \<le> real p / real q" by (simp add: val)
  have "real m < 2 ^ Suc k" using hi by (metis of_nat_less_iff of_nat_numeral of_nat_power)
  then have "real m * 2 powi e < 2 ^ Suc k * (2 :: real) powi e" by simp
  also have "\<dots> = 2 powi (e + int k + 1)"
    by (simp add: power_int_add)
  finally show "real p / real q < real 2 powi (e + int k + 1)" by (simp add: val)
qed simp

lemma flog_exact_less:
  assumes ex: "exact m e = (p, q)" and m: "0 < m" and hi: "m < 2 ^ k"
  shows "flog 2 p q < e + int k"
proof -
  have P: "0 < p" "0 < q" using exact_pos [OF ex] m by auto
  have "real m < 2 ^ k" using hi by (metis of_nat_less_iff of_nat_numeral of_nat_power)
  then have "real p / real q < 2 ^ k * 2 powi e" by (simp add: exact_real [OF ex])
  also have "\<dots> = 2 powi (e + int k)" by (simp add: power_int_add)
  finally have "2 powi (flog 2 p q) < (2 :: real) powi (e + int k)"
    using flog_bounds(1) [OF _ P, of 2] by simp
  then show ?thesis by (smt (verit) power_int_increasing)
qed

lemma round_num_exact:
  assumes wf: "wf_num (Fin neg m e)" and ex: "exact m e = (p, q)"
  shows "round_num neg p q = Fin neg m e"
proof (cases "m = 0")
  case True
  with wf ex show ?thesis by (auto simp: round_num_def exact_def split: if_splits)
next
  case False
  then have P: "0 < p" "0 < q" using exact_pos [OF ex] by auto
  have "max (flog 2 p q - 52) (- 1074) = e"
  proof (cases "m < 2 ^ 52")
    case True
    with wf have "e = -1074" by simp
    with flog_exact_less [OF ex _ True] False show ?thesis by simp
  next
    case big: False
    with wf have "flog 2 p q = e + int 52" by (intro flog_exact [OF ex]) auto
    with wf show ?thesis by simp
  qed
  with wf P exact_scale [OF ex] show ?thesis
    by (auto simp: round_num_def Let_def)
qed

subsection \<open>Rounding yields a double\<close>

lemma scale_real:
  assumes "0 < b" "scale b e p q = (p', q')" "0 < q"
  shows "0 < q'" "real p' / real q' = (real p / real q) / real b powi e"
proof -
  show q': "0 < q'" using assms by (auto simp: scale_def split: if_splits)
  show "real p' / real q' = (real p / real q) / real b powi e"
  proof (cases "0 \<le> e")
    case True
    with assms show ?thesis by (auto simp: scale_def power_int_def)
  next
    case False
    then obtain j where j: "e = - int j"
      by (metis nonneg_int_cases nle_le neg_0_le_iff_le minus_minus)
    with False assms show ?thesis by (auto simp: scale_def power_int_minus divide_inverse)
  qed
qed

lemma round_even_bounds:
  assumes "0 < q"
  shows "real p / real q < real k \<Longrightarrow> round_even p q \<le> k"
    and "real k \<le> real p / real q \<Longrightarrow> k \<le> round_even p q"
proof -
  assume "real p / real q < real k"
  with assms have "real p < real (k * q)" by (simp add: pos_divide_less_eq)
  then have "p < k * q" by (simp only: of_nat_less_iff)
  then have "p div q < k" by (simp add: less_mult_imp_div_less)
  then show "round_even p q \<le> k" by (auto simp: round_even_def Let_def)
next
  assume "real k \<le> real p / real q"
  with assms have "real (k * q) \<le> real p" by (simp add: pos_le_divide_eq)
  then have "k * q \<le> p" by (simp only: of_nat_le_iff)
  with assms have "k \<le> p div q" by (simp add: less_eq_div_iff_mult_less_eq)
  then show "k \<le> round_even p q" by (auto simp: round_even_def Let_def)
qed

lemma wf_round_num:
  assumes q: "0 < q"
  shows "wf_num (round_num neg p q)"
proof (cases "p = 0")
  case True
  then show ?thesis by (simp add: round_num_def)
next
  case False
  then have p: "0 < p" by simp
  define f where "f = flog 2 p q"
  define ex where "ex = max (f - 52) (-1074)"
  obtain p' q' where sc: "scale 2 ex p q = (p', q')" by fastforce
  have q': "0 < q'" and val: "real p' / real q' = (real p / real q) / 2 powi ex"
    using scale_real [OF _ sc q] by simp_all
  define r where "r = round_even p' q'"
  define M :: nat where "M = 2 ^ 53"
  define H :: nat where "H = 2 ^ 52"
  have "real p / real q < 2 powi (f + 1)"
    using flog_bounds(2) [of 2 p q] p q by (simp add: f_def)
  also have "\<dots> \<le> 2 powi (53 + ex)" by (rule power_int_increasing) (auto simp: ex_def)
  also have "\<dots> = 2 powi 53 * 2 powi ex" by (rule power_int_add) simp
  finally have "real p / real q / 2 powi ex < 2 powi 53" by (subst pos_divide_less_eq) simp_all
  then have "real p' / real q' < 2 powi 53" by (simp only: val)
  then have hi: "r \<le> M"
    unfolding r_def by (intro round_even_bounds(1) [OF q']) (simp add: M_def)
  have lo: "H \<le> r" if "ex \<noteq> -1074"
  proof -
    from that have "f = 52 + ex" by (auto simp: ex_def)
    then have "2 powi (52 + ex) \<le> real p / real q"
      using flog_bounds(1) [of 2 p q] p q by (simp add: f_def)
    moreover have "(2 :: real) powi (52 + ex) = 2 powi 52 * 2 powi ex" by (rule power_int_add) simp
    ultimately have "2 powi 52 \<le> real p / real q / 2 powi ex"
      by (subst pos_le_divide_eq) simp_all
    then have "2 powi 52 \<le> real p' / real q'" by (simp only: val)
    then show ?thesis unfolding r_def by (intro round_even_bounds(2) [OF q']) (simp add: H_def)
  qed
  have "-1074 \<le> ex" by (simp add: ex_def)
  moreover have "round_num neg p q =
      (if r = M then (if 970 < ex then Inf neg else Fin neg H (ex + 1))
       else if 971 < ex then Inf neg else Fin neg r ex)"
    using False unfolding round_num_def Let_def ex_def [symmetric] f_def [symmetric] sc
    by (simp add: r_def M_def H_def)
  moreover have "wf_num (Fin neg m k) \<longleftrightarrow> m < M \<and> -1074 \<le> k \<and> k \<le> 971 \<and> (m < H \<longrightarrow> k = -1074)" for m k
    by (simp add: M_def H_def)
  moreover have "H < M" by (simp add: M_def H_def)
  moreover have "ex = -1074 \<or> H \<le> r" using lo by blast
  ultimately show ?thesis using hi by (auto simp del: wf_num.simps(1))
qed

subsection \<open>Decimals\<close>

text \<open>\<open>dec_round neg s t\<close> is the double nearest to \<open>s * 10 ^ t\<close>.\<close>

definition dec_round :: "bool \<Rightarrow> nat \<Rightarrow> int \<Rightarrow> jnum" where
  "dec_round neg s t =
     (if 0 \<le> t then round_num neg (s * 10 ^ nat t) 1 else round_num neg s (10 ^ nat (- t)))"

definition is_digit :: "unit16 \<Rightarrow> bool" where
  "is_digit c \<longleftrightarrow> 48 \<le> c \<and> c \<le> 57"

definition digit_val :: "unit16 \<Rightarrow> nat" where
  "digit_val c = unat (c - 48)"

definition nat_of :: "jstr \<Rightarrow> nat" where
  "nat_of ds = foldl (\<lambda>n c. 10 * n + digit_val c) 0 ds"

fun dec_digits :: "nat \<Rightarrow> jstr" where
  "dec_digits n = (if n < 10 then [48 + of_nat n] else dec_digits (n div 10) @ [48 + of_nat (n mod 10)])"

declare dec_digits.simps [simp del]

lemma digit_char [simp]: "d < 10 \<Longrightarrow> is_digit (48 + of_nat d)" "d < 10 \<Longrightarrow> digit_val (48 + of_nat d) = d"
proof -
  assume d: "d < 10"
  then have "d \<in> {0, 1, 2, 3, 4, 5, 6, 7, 8, 9}" by auto
  then show "is_digit (48 + of_nat d)" "digit_val (48 + of_nat d) = d"
    by (auto simp: is_digit_def digit_val_def)
qed

lemma nat_of_foldl: "foldl (\<lambda>n c. 10 * n + digit_val c) a ds = a * 10 ^ length ds + nat_of ds"
proof (induction ds arbitrary: a)
  case Nil
  then show ?case by (simp add: nat_of_def)
next
  case (Cons c ds)
  from Cons [of "10 * a + digit_val c"] Cons [of "digit_val c"] show ?case
    by (simp add: nat_of_def algebra_simps)
qed

lemma nat_of_Nil [simp]: "nat_of [] = 0"
  by (simp add: nat_of_def)

lemma nat_of_append: "nat_of (xs @ ys) = nat_of xs * 10 ^ length ys + nat_of ys"
  using nat_of_foldl [of "nat_of xs" ys] by (simp add: nat_of_def)

lemma nat_of_Cons: "nat_of (c # ys) = digit_val c * 10 ^ length ys + nat_of ys"
  using nat_of_append [of "[c]" ys] by (simp add: nat_of_def)

lemma nat_of_zeros [simp]: "nat_of (replicate n 48) = 0"
  by (induction n) (simp_all add: nat_of_Cons digit_val_def)

lemma dec_digits_props:
  shows nat_of_dec_digits [simp]: "nat_of (dec_digits n) = n"
    and dec_digits_digit: "c \<in> set (dec_digits n) \<Longrightarrow> is_digit c"
    and dec_digits_Nil [simp]: "dec_digits n \<noteq> []"
proof (induction n rule: dec_digits.induct)
  case (1 n)
  {
    case 1
    show ?case
      using "1.IH"(1) by (subst dec_digits.simps) (simp add: nat_of_append nat_of_Cons)
  next
    case 2
    then show ?case
      using "1.IH"(2) by (subst (asm) dec_digits.simps) (auto split: if_splits)
  next
    case 3
    show ?case by (subst dec_digits.simps) simp
  }
qed

lemma dec_digits_hd: "0 < n \<Longrightarrow> hd (dec_digits n) \<noteq> 48"
proof (induction n rule: dec_digits.induct)
  case (1 n)
  show ?case
  proof (cases "n < 10")
    case True
    have "(48 + of_nat n :: unit16) \<noteq> 48"
    proof
      assume "(48 + of_nat n :: unit16) = 48"
      then have "digit_val (48 + of_nat n) = digit_val 48" by (rule arg_cong)
      with "1.prems" show False by (simp only: digit_char(2) [OF True]) (simp add: digit_val_def)
    qed
    with True show ?thesis by (subst dec_digits.simps) (simp only: if_True list.sel simp_thms)
  next
    case False
    with "1" show ?thesis by (subst dec_digits.simps) simp
  qed
qed

lemma length_dec_digits: "0 < k \<Longrightarrow> 10 ^ (k - 1) \<le> n \<Longrightarrow> n < 10 ^ k \<Longrightarrow> length (dec_digits n) = k"
proof (induction n arbitrary: k rule: dec_digits.induct)
  case (1 n)
  show ?case
  proof (cases "n < 10")
    case True
    have "k = 1"
    proof (rule ccontr)
      assume "k \<noteq> 1"
      with "1.prems"(1) have "1 \<le> k - 1" by simp
      then have "(10 :: nat) ^ 1 \<le> 10 ^ (k - 1)" by (rule power_increasing) simp
      with "1.prems"(2) True show False by simp
    qed
    with True show ?thesis by (subst dec_digits.simps) simp
  next
    case False
    with "1.prems" obtain j where k: "k = Suc (Suc j)"
      by (cases k; cases "k - 1") auto
    have "10 ^ j \<le> n div 10" "n div 10 < 10 ^ Suc j"
      using "1.prems" by (auto simp: k)
    with "1.IH" [OF False, of "Suc j"] False show ?thesis
      by (subst dec_digits.simps) (simp add: k)
  qed
qed

lemma dec_round_shift: "dec_round neg (s * 10 ^ j) t = dec_round neg s (t + int j)"
proof -
  consider "0 \<le> t" | "t < 0" "0 \<le> t + int j" | "t + int j < 0" by linarith
  then show ?thesis
  proof cases
    case 1
    then show ?thesis
      by (simp add: dec_round_def nat_add_distrib power_add ac_simps)
  next
    case 2
    then have "j = nat (- t) + nat (t + int j)" by simp
    then have j: "(10 :: nat) ^ j = 10 ^ nat (- t) * 10 ^ nat (t + int j)"
      by (metis power_add)
    have "round_num neg (s * 10 ^ j) (10 ^ nat (- t)) = round_num neg (s * 10 ^ nat (t + int j)) 1"
      by (rule round_num_ratio) (simp_all add: j)
    with 2 show ?thesis by (simp add: dec_round_def)
  next
    case 3
    then have "nat (- t) = nat (- (t + int j)) + j" by simp
    then have t: "(10 :: nat) ^ nat (- t) = 10 ^ nat (- (t + int j)) * 10 ^ j"
      by (metis power_add)
    have "round_num neg (s * 10 ^ j) (10 ^ nat (- t)) = round_num neg s (10 ^ nat (- (t + int j)))"
      by (rule round_num_ratio) (simp_all add: t)
    with 3 show ?thesis by (simp add: dec_round_def)
  qed
qed

subsection \<open>The text of a number\<close>

text \<open>
  The language prints the shortest decimal \<open>s * 10 ^ (n - k)\<close>, \<open>s\<close> of \<open>k\<close> digits, that rounds
  to the number, and of these the closest.  The search goes over \<open>k\<close>, trying the two integers
  around \<open>x / 10 ^ (n - k)\<close>, the nearer one first; it stops at the exact decimal expansion of
  the double at the latest (\<open>shortest_ok\<close>).
\<close>

definition candidate :: "nat \<Rightarrow> int \<Rightarrow> int \<Rightarrow> nat \<Rightarrow> nat option" where
  "candidate m e n k =
     (case exact m e of (p, q) \<Rightarrow> case scale 10 (n - int k) p q of (p', q') \<Rightarrow>
       let a = round_even p' q'; b = (if a = p' div q' then a + 1 else p' div q')
       in find (\<lambda>s. 10 ^ (k - 1) \<le> s \<and> s \<le> 10 ^ k
                  \<and> dec_round False s (n - int k) = Fin False m e) [a, b])"

fun first_some :: "('a \<Rightarrow> 'b option) \<Rightarrow> 'a list \<Rightarrow> ('a \<times> 'b) option" where
  "first_some f [] = None"
| "first_some f (x # xs) = (case f x of Some y \<Rightarrow> Some (x, y) | None \<Rightarrow> first_some f xs)"

definition dec_exponent :: "nat \<Rightarrow> int \<Rightarrow> int" where
  "dec_exponent m e = (case exact m e of (p, q) \<Rightarrow> flog 10 p q + 1)"

definition shortest :: "nat \<Rightarrow> int \<Rightarrow> nat \<times> nat \<times> int" where
  "shortest m e =
     (let n = dec_exponent m e
      in case first_some (candidate m e n) [1..<Suc (nat (max n (n - e)))] of
           None \<Rightarrow> (m, 0, 0)
         | Some (k, s) \<Rightarrow> if s = 10 ^ k then (1, 1, n + 1) else (s, k, n))"

definition fmt_digits :: "jstr \<Rightarrow> int \<Rightarrow> jstr" where
  "fmt_digits ds n =
     (let k = int (length ds)
      in if k \<le> n \<and> n \<le> 21 then ds @ replicate (nat (n - k)) 48
         else if 0 < n \<and> n \<le> 21 then take (nat n) ds @ 46 # drop (nat n) ds
         else if -6 < n \<and> n \<le> 0 then 48 # 46 # replicate (nat (- n)) 48 @ ds
         else let es = (if n - 1 < 0 then 45 else 43) # dec_digits (nat \<bar>n - 1\<bar>)
              in if k = 1 then ds @ 101 # es else hd ds # 46 # tl ds @ 101 # es)"

fun num_to_string :: "jnum \<Rightarrow> jstr" where
  "num_to_string NaN = js ''NaN''"
| "num_to_string (Inf neg) = (if neg then 45 # js ''Infinity'' else js ''Infinity'')"
| "num_to_string (Fin neg m e) =
     (if m = 0 then [48]
      else case shortest m e of (s, k, n) \<Rightarrow>
             let t = fmt_digits (dec_digits s) n in if neg then 45 # t else t)"

lemma first_some_Some:
  "first_some f xs = Some (x, y) \<Longrightarrow> x \<in> set xs \<and> f x = Some y"
  by (induction xs) (auto split: option.splits)

lemma first_some_exists: "x \<in> set xs \<Longrightarrow> f x \<noteq> None \<Longrightarrow> \<exists>z. first_some f xs = Some z"
  by (induction xs) (auto split: option.splits)

lemma candidate_Some:
  "candidate m e n k = Some s \<Longrightarrow>
     10 ^ (k - 1) \<le> s \<and> s \<le> 10 ^ k \<and> dec_round False s (n - int k) = Fin False m e"
  by (auto simp: candidate_def Let_def split: prod.splits if_splits)

lemma powi_10_le: "(10 :: real) powi i \<le> real s \<Longrightarrow> 0 \<le> i \<Longrightarrow> 10 ^ nat i \<le> s"
  by (simp add: power_int_def)

lemma powi_10_less: "real s < (10 :: real) powi i \<Longrightarrow> 0 \<le> i \<Longrightarrow> s < 10 ^ nat i"
  by (simp add: power_int_def)

lemma candidateI:
  assumes "exact m e = (p, q)" "scale 10 (n - int k) p q = (p', q')" "s = round_even p' q'"
    and "10 ^ (k - 1) \<le> s" "s \<le> 10 ^ k" "dec_round False s (n - int k) = Fin False m e"
  shows "candidate m e n k \<noteq> None"
  using assms by (simp add: candidate_def Let_def)

lemma dec_exponent_bounds:
  assumes "0 < m"
  shows "10 powi (dec_exponent m e - 1) \<le> real m * 2 powi e"
    and "real m * 2 powi e < 10 powi dec_exponent m e"
proof -
  obtain p q where ex: "exact m e = (p, q)" by fastforce
  with assms have "0 < p" "0 < q" using exact_pos [OF ex] by auto
  then show "10 powi (dec_exponent m e - 1) \<le> real m * 2 powi e"
    and "real m * 2 powi e < 10 powi dec_exponent m e"
    using flog_bounds [of 10 p q] by (simp_all add: dec_exponent_def ex flip: exact_real [OF ex])
qed

lemma neg_int_cases_strict:
  fixes e :: int
  assumes "\<not> 0 \<le> e"
  obtains j where "e = - int j" "0 < j"
  using assms
  by (metis nonneg_int_cases nle_le neg_0_le_iff_le minus_minus neg_less_0_iff_less
      of_nat_0_less_iff linorder_not_le)

lemma dec_exponent_length:
  assumes m: "0 < m"
  shows "1 \<le> max (dec_exponent m e) (dec_exponent m e - e)"
proof (rule ccontr)
  assume "\<not> ?thesis"
  then have "dec_exponent m e \<le> min 0 e" by (auto simp: max_def split: if_splits)
  then have "(10 :: real) powi dec_exponent m e \<le> 10 powi (min 0 e)"
    by (intro power_int_increasing) auto
  also have "\<dots> \<le> 2 powi e"
  proof (cases "0 \<le> e")
    case True
    then show ?thesis by (simp add: min_def power_int_def)
  next
    case False
    then obtain j where j: "e = - int j" by (rule neg_int_cases_strict)
    have "inverse (10 ^ j :: real) \<le> inverse (2 ^ j)"
      by (rule le_imp_inverse_le) (auto intro: power_mono)
    then show ?thesis by (simp add: j min_def power_int_minus)
  qed
  also have "\<dots> \<le> real m * 2 powi e" using m by simp
  finally show False using dec_exponent_bounds(2) [OF m, of e] by simp
qed

text \<open>The digits of the exact decimal expansion of \<open>m * 2 ^ e\<close>.\<close>

definition expansion :: "nat \<Rightarrow> int \<Rightarrow> nat" where
  "expansion m e = (if 0 \<le> e then m * 2 ^ nat e else m * 5 ^ nat (- e))"

lemma expansion_real: "real (expansion m e) = real m * 2 powi e * 10 powi (- min 0 e)"
proof (cases "0 \<le> e")
  case True
  then show ?thesis by (simp add: expansion_def min_def power_int_def)
next
  case False
  then obtain j where j: "e = - int j" "0 < j" by (rule neg_int_cases_strict)
  have "(10 :: real) ^ j = 2 ^ j * 5 ^ j" by (simp flip: power_mult_distrib)
  with j show ?thesis by (simp add: expansion_def min_def power_int_minus)
qed

lemma expansion_round:
  assumes wf: "wf_num (Fin False m e)" and ex: "exact m e = (p, q)"
  shows "dec_round False (expansion m e) (min 0 e) = Fin False m e"
    and "(case scale 10 (min 0 e) p q of (p', q') \<Rightarrow> round_even p' q') = expansion m e"
proof -
  have rnd: "round_num False p q = Fin False m e" by (rule round_num_exact [OF wf ex])
  have "dec_round False (expansion m e) (min 0 e) = Fin False m e \<and>
        (case scale 10 (min 0 e) p q of (p', q') \<Rightarrow> round_even p' q') = expansion m e"
  proof (cases "0 \<le> e")
    case True
    with ex rnd show ?thesis
      by (auto simp: min_def expansion_def dec_round_def scale_def exact_def round_even_def)
  next
    case False
    then obtain j where j: "e = - int j" "0 < j" by (rule neg_int_cases_strict)
    with ex False have pq: "p = m" "q = 2 ^ j" by (auto simp: exact_def)
    have t: "(10 :: nat) ^ j = 2 ^ j * 5 ^ j" by (simp flip: power_mult_distrib)
    have s: "expansion m (- int j) = m * 5 ^ j" using j by (simp add: expansion_def)
    have "round_num False (m * 5 ^ j) (10 ^ j) = round_num False p q"
      by (rule round_num_ratio) (simp_all add: pq t)
    moreover have "round_even (m * 10 ^ j) (2 ^ j) = m * 5 ^ j"
      using round_even_exact [of "2 ^ j" "m * 5 ^ j"] by (simp add: t ac_simps)
    ultimately show ?thesis
      using j rnd by (simp add: s min_def dec_round_def scale_def pq)
  qed
  then show "dec_round False (expansion m e) (min 0 e) = Fin False m e"
    and "(case scale 10 (min 0 e) p q of (p', q') \<Rightarrow> round_even p' q') = expansion m e"
    by simp_all
qed

lemma candidate_expansion:
  assumes wf: "wf_num (Fin False m e)" and m: "0 < m"
  defines "n \<equiv> dec_exponent m e"
  shows "candidate m e n (nat (max n (n - e))) \<noteq> None"
proof -
  obtain p q where ex: "exact m e = (p, q)" by fastforce
  obtain p' q' where sc: "scale 10 (min 0 e) p q = (p', q')" by fastforce
  define k where "k = nat (max n (n - e))"
  have k: "int k = max n (n - e)" "0 < k"
    using dec_exponent_length [OF m, of e] by (auto simp: k_def n_def)
  have nk: "n - int k = min 0 e" by (simp add: k)
  have kn: "int k = n + - min 0 e" using nk by simp
  have "10 powi (n - 1) * 10 powi (- min 0 e) \<le> real (expansion m e)"
    unfolding expansion_real n_def by (rule mult_right_mono [OF dec_exponent_bounds(1) [OF m]]) simp
  then have "10 powi (int k - 1) \<le> real (expansion m e)"
    by (simp flip: power_int_add add: kn algebra_simps)
  from powi_10_le [OF this] k(2) have lo: "10 ^ (k - 1) \<le> expansion m e"
    by (simp add: nat_diff_distrib)
  have "real (expansion m e) < 10 powi n * 10 powi (- min 0 e)"
    unfolding expansion_real n_def
    by (rule mult_strict_right_mono [OF dec_exponent_bounds(2) [OF m]]) simp
  then have "real (expansion m e) < 10 powi (int k)"
    by (simp flip: power_int_add add: kn algebra_simps)
  from powi_10_less [OF this] have hi: "expansion m e \<le> 10 ^ k" by simp
  have s: "expansion m e = round_even p' q'"
    using expansion_round(2) [OF wf ex] by (simp add: sc)
  show ?thesis
    using candidateI [OF ex, of n k p' q' "expansion m e"] sc s lo hi expansion_round(1) [OF wf ex]
    by (simp add: nk flip: k_def)
qed

text \<open>What the printed digits are: they round to the number, and there is no leading zero.\<close>

lemma shortest_ok:
  assumes wf: "wf_num (Fin False m e)" and m: "0 < m" and sh: "shortest m e = (s, k, n)"
  shows "dec_round False s (n - int k) = Fin False m e" "0 < k" "10 ^ (k - 1) \<le> s" "s < 10 ^ k"
proof -
  define N where "N = dec_exponent m e"
  have "nat (max N (N - e)) \<in> set [1..<Suc (nat (max N (N - e)))]"
    using dec_exponent_length [OF m, of e] by (auto simp: N_def)
  with candidate_expansion [OF wf m] obtain k' s'
    where fs: "first_some (candidate m e N) [1..<Suc (nat (max N (N - e)))] = Some (k', s')"
    using first_some_exists by (metis N_def surj_pair)
  from first_some_Some [OF fs] have k': "1 \<le> k'"
    and c: "10 ^ (k' - 1) \<le> s'" "s' \<le> 10 ^ k'" "dec_round False s' (N - int k') = Fin False m e"
    using candidate_Some by auto
  have sh': "(if s' = 10 ^ k' then (1, 1, N + 1) else (s', k', N)) = (s, k, n)"
    using sh fs by (simp add: shortest_def Let_def flip: N_def)
  have "dec_round False s (n - int k) = Fin False m e \<and> 0 < k \<and> 10 ^ (k - 1) \<le> s \<and> s < 10 ^ k"
  proof (cases "s' = 10 ^ k'")
    case True
    with sh' have "s = 1" "k = 1" "n = N + 1" by auto
    with c(3) True dec_round_shift [of False 1 k' "N - int k'"] show ?thesis by simp
  next
    case False
    with sh' c k' show ?thesis by auto
  qed
  then show "dec_round False s (n - int k) = Fin False m e" "0 < k" "10 ^ (k - 1) \<le> s" "s < 10 ^ k"
    by simp_all
qed

subsection \<open>Reading a number\<close>

text \<open>
  \<open>scan_decimal\<close> splits the longest unsigned decimal off a text: its integer digits, its
  fraction digits if there is a point, its exponent if one follows, and the rest.  The three
  grammars of the platform (JSON's, the unary plus' and the one a number input accepts) are
  conditions on these parts.
\<close>

definition scan_exponent :: "jstr \<Rightarrow> int option \<times> jstr" where
  "scan_exponent s =
     (case s of [] \<Rightarrow> (None, s)
      | c # r \<Rightarrow>
          if c = 101 \<or> c = 69
          then let (neg, t) = (case r of [] \<Rightarrow> (False, r)
                               | d # r' \<Rightarrow> if d = 43 then (False, r')
                                           else if d = 45 then (True, r') else (False, r));
                   ds = takeWhile is_digit t
               in if ds = [] then (None, s)
                  else (Some (if neg then - int (nat_of ds) else int (nat_of ds)), dropWhile is_digit t)
          else (None, s))"

definition scan_decimal :: "jstr \<Rightarrow> jstr \<times> jstr option \<times> int option \<times> jstr" where
  "scan_decimal s =
     (let ip = takeWhile is_digit s; s1 = dropWhile is_digit s;
          (fp, s2) = (case s1 of [] \<Rightarrow> (None, s1)
                      | c # r \<Rightarrow> if c = 46 then (Some (takeWhile is_digit r), dropWhile is_digit r)
                                 else (None, s1));
          (ex, s3) = scan_exponent s2
      in (ip, fp, ex, s3))"

definition dec_value :: "bool \<Rightarrow> jstr \<Rightarrow> jstr option \<Rightarrow> int option \<Rightarrow> jnum" where
  "dec_value neg ip fp ex =
     (let fs = (case fp of None \<Rightarrow> [] | Some f \<Rightarrow> f); x = (case ex of None \<Rightarrow> 0 | Some x \<Rightarrow> x)
      in dec_round neg (nat_of (ip @ fs)) (x - int (length fs)))"

definition strip_minus :: "jstr \<Rightarrow> bool \<times> jstr" where
  "strip_minus s = (case s of [] \<Rightarrow> (False, s) | c # r \<Rightarrow> if c = 45 then (True, r) else (False, s))"

text \<open>JSON: no plus sign, no leading zero, digits on both sides of a point.\<close>

definition parse_json_number :: "jstr \<Rightarrow> (jnum \<times> jstr) option" where
  "parse_json_number s =
     (case strip_minus s of (neg, t) \<Rightarrow> case scan_decimal t of (ip, fp, ex, rest) \<Rightarrow>
        if ip = [] \<or> (hd ip = 48 \<and> 1 < length ip) \<or> fp = Some [] then None
        else Some (dec_value neg ip fp ex, rest))"

text \<open>A number input accepts the "valid floating-point numbers" of HTML.\<close>

definition valid_float :: "jstr \<Rightarrow> bool" where
  "valid_float s =
     (case strip_minus s of (neg, t) \<Rightarrow> case scan_decimal t of (ip, fp, ex, rest) \<Rightarrow>
        rest = [] \<and> fp \<noteq> Some [] \<and> (ip \<noteq> [] \<or> fp \<noteq> None))"

text \<open>The unary plus on a string: \<open>StringToNumber\<close>.\<close>

definition is_trimmed :: "unit16 \<Rightarrow> bool" where
  "is_trimmed c \<longleftrightarrow>
     c \<in> {9, 10, 11, 12, 13, 32, 160, 0x1680, 0x2028, 0x2029, 0x202F, 0x205F, 0x3000, 0xFEFF}
     \<or> (0x2000 \<le> c \<and> c \<le> 0x200A)"

definition trim :: "jstr \<Rightarrow> jstr" where
  "trim s = rev (dropWhile is_trimmed (rev (dropWhile is_trimmed s)))"

definition radix_digit :: "unit16 \<Rightarrow> nat" where
  "radix_digit c =
     (if is_digit c then digit_val c else if 97 \<le> c \<and> c \<le> 102 then unat c - 87
      else if 65 \<le> c \<and> c \<le> 70 then unat c - 55 else 99)"

definition parse_radix :: "nat \<Rightarrow> jstr \<Rightarrow> jnum" where
  "parse_radix b s =
     (if s \<noteq> [] \<and> (\<forall>c \<in> set s. radix_digit c < b)
      then round_num False (foldl (\<lambda>n c. b * n + radix_digit c) 0 s) 1 else NaN)"

definition parse_str_decimal :: "bool \<Rightarrow> jstr \<Rightarrow> jnum" where
  "parse_str_decimal neg t =
     (if t = js ''Infinity'' then Inf neg
      else case scan_decimal t of (ip, fp, ex, rest) \<Rightarrow>
        if rest = [] \<and> (ip \<noteq> [] \<or> (fp \<noteq> None \<and> fp \<noteq> Some [])) then dec_value neg ip fp ex else NaN)"

definition string_to_num :: "jstr \<Rightarrow> jnum" where
  "string_to_num s =
     (case trim s of [] \<Rightarrow> zero
      | c # r \<Rightarrow>
          if c = 48 \<and> r \<noteq> [] \<and> hd r \<in> {120, 88} then parse_radix 16 (tl r)
          else if c = 48 \<and> r \<noteq> [] \<and> hd r \<in> {111, 79} then parse_radix 8 (tl r)
          else if c = 48 \<and> r \<noteq> [] \<and> hd r \<in> {98, 66} then parse_radix 2 (tl r)
          else if c = 43 then parse_str_decimal False r
          else if c = 45 then parse_str_decimal True r
          else parse_str_decimal False (c # r))"

subsection \<open>The text of a number reads back as the number\<close>

text \<open>What may follow a number in a text without being taken for a part of it.\<close>

definition ends_number :: "jstr \<Rightarrow> bool" where
  "ends_number r \<longleftrightarrow> (r = [] \<or> (\<not> is_digit (hd r) \<and> hd r \<noteq> 46 \<and> hd r \<noteq> 101 \<and> hd r \<noteq> 69))"

lemma is_digit_consts [simp]:
  "is_digit 48" "\<not> is_digit 46" "\<not> is_digit 101" "\<not> is_digit 69" "\<not> is_digit 43" "\<not> is_digit 45"
  "\<not> is_digit 34" "\<not> is_digit 44" "\<not> is_digit 58" "\<not> is_digit 93" "\<not> is_digit 125"
  "\<not> is_digit 91" "\<not> is_digit 123" "\<not> is_digit 10" "\<not> is_digit 32" "\<not> is_digit 13" "\<not> is_digit 9"
  by (simp_all add: is_digit_def)

lemma takeWhile_digits [simp]:
  "\<forall>c \<in> set ds. is_digit c \<Longrightarrow> takeWhile is_digit (ds @ r) = ds @ takeWhile is_digit r"
  "\<forall>c \<in> set ds. is_digit c \<Longrightarrow> dropWhile is_digit (ds @ r) = dropWhile is_digit r"
  by (induction ds) auto

lemma takeWhile_ends [simp]:
  "ends_number r \<Longrightarrow> takeWhile is_digit r = []" "ends_number r \<Longrightarrow> dropWhile is_digit r = r"
  by (cases r; simp add: ends_number_def)+

lemma scan_exponent_ends [simp]: "ends_number r \<Longrightarrow> scan_exponent r = (None, r)"
  by (cases r) (auto simp: scan_exponent_def ends_number_def)

lemma scan_exponent_text:
  "ends_number r \<Longrightarrow>
     scan_exponent (101 # (if n < 0 then 45 else 43) # dec_digits (nat \<bar>n\<bar>) @ r) = (Some n, r)"
  by (auto simp: scan_exponent_def Let_def dec_digits_digit)

lemma scan_plain:
  assumes "\<forall>c \<in> set ip. is_digit c" "ends_number r"
  shows "scan_decimal (ip @ r) = (ip, None, None, r)"
proof (cases r)
  case Nil
  with assms(1) show ?thesis by (simp add: scan_decimal_def scan_exponent_def)
next
  case (Cons c r')
  with assms have "c \<noteq> 46" "\<not> is_digit c" "scan_exponent r = (None, r)" by (auto simp: ends_number_def)
  with assms Cons show ?thesis by (simp add: scan_decimal_def)
qed

lemma scan_fraction:
  assumes "\<forall>c \<in> set ip. is_digit c" "\<forall>c \<in> set fp. is_digit c"
    and "scan_exponent r = (ex, r')" "r = [] \<or> \<not> is_digit (hd r)"
  shows "scan_decimal (ip @ 46 # fp @ r) = (ip, Some fp, ex, r')"
proof -
  have "takeWhile is_digit r = []" "dropWhile is_digit r = r"
    using assms(4) by (cases r; simp)+
  with assms show ?thesis by (simp add: scan_decimal_def)
qed

lemma scan_integer_exponent:
  assumes "\<forall>c \<in> set ip. is_digit c" "scan_exponent (101 # r) = (ex, r')"
  shows "scan_decimal (ip @ 101 # r) = (ip, None, ex, r')"
  using assms by (simp add: scan_decimal_def)

text \<open>The parts of a formatted number, and that together they denote the number's digits.\<close>

lemma scan_fmt_digits:
  assumes ds: "\<forall>c \<in> set ds. is_digit c" "ds \<noteq> []" "hd ds \<noteq> 48" and r: "ends_number r"
  shows "\<exists>ip fp ex. scan_decimal (fmt_digits ds n @ r) = (ip, fp, ex, r)
           \<and> ip \<noteq> [] \<and> (hd ip = 48 \<longrightarrow> length ip = 1) \<and> fp \<noteq> Some []
           \<and> dec_value neg ip fp ex = dec_round neg (nat_of ds) (n - int (length ds))"
proof -
  define k where "k = int (length ds)"
  have kpos: "1 \<le> k" using ds(2) by (cases ds) (auto simp: k_def)
  consider (int) "k \<le> n" "n \<le> 21" | (point) "0 < n" "n \<le> 21" "n < k"
    | (small) "-6 < n" "n \<le> 0" | (exp) "n \<le> -6 \<or> 21 < n" by linarith
  then show ?thesis
  proof cases
    case int
    let ?ip = "ds @ replicate (nat (n - k)) 48"
    have "fmt_digits ds n @ r = ?ip @ r" using int by (simp add: fmt_digits_def Let_def k_def)
    moreover have "scan_decimal (?ip @ r) = (?ip, None, None, r)"
      using ds r by (intro scan_plain) auto
    moreover have "dec_value neg ?ip None None = dec_round neg (nat_of ds) (n - k)"
      using int dec_round_shift [of neg "nat_of ds" "nat (n - k)" 0]
      by (simp add: dec_value_def nat_of_append)
    ultimately show ?thesis using ds by (auto simp: k_def)
  next
    case point
    let ?ip = "take (nat n) ds" and ?fp = "drop (nat n) ds"
    have "fmt_digits ds n @ r = ?ip @ 46 # ?fp @ r"
      using point by (simp add: fmt_digits_def Let_def k_def)
    moreover have "scan_decimal (?ip @ 46 # ?fp @ r) = (?ip, Some ?fp, None, r)"
      using ds(1) r by (intro scan_fraction) (auto dest: in_set_takeD in_set_dropD simp: ends_number_def)
    moreover have "dec_value neg ?ip (Some ?fp) None = dec_round neg (nat_of ds) (n - k)"
      using point by (simp add: dec_value_def k_def of_nat_diff)
    moreover have "?ip \<noteq> []" "hd ?ip \<noteq> 48" "?fp \<noteq> []" using ds point by (auto simp: k_def)
    ultimately show ?thesis by (auto simp: k_def)
  next
    case small
    let ?fp = "replicate (nat (- n)) 48 @ ds"
    have "fmt_digits ds n @ r = [48] @ 46 # ?fp @ r"
      using small kpos by (simp add: fmt_digits_def Let_def flip: k_def)
    moreover have "scan_decimal ([48] @ 46 # ?fp @ r) = ([48], Some ?fp, None, r)"
      using ds(1) r by (intro scan_fraction) (auto simp: ends_number_def)
    moreover have "dec_value neg [48] (Some ?fp) None = dec_round neg (nat_of ds) (n - k)"
      using small by (simp add: dec_value_def nat_of_Cons nat_of_append digit_val_def k_def)
    ultimately show ?thesis using ds by (auto simp: k_def)
  next
    case exp
    let ?es = "(if n - 1 < 0 then 45 else 43) # dec_digits (nat \<bar>n - 1\<bar>)"
    have e: "scan_exponent (101 # ?es @ r) = (Some (n - 1), r)"
      using scan_exponent_text [OF r, of "n - 1"] by simp
    show ?thesis
    proof (cases "k = 1")
      case True
      then have "fmt_digits ds n @ r = ds @ 101 # ?es @ r"
        using exp by (auto simp: fmt_digits_def Let_def simp flip: k_def)
      moreover have "scan_decimal (ds @ 101 # ?es @ r) = (ds, None, Some (n - 1), r)"
        using ds(1) e by (rule scan_integer_exponent)
      moreover have "dec_value neg ds None (Some (n - 1)) = dec_round neg (nat_of ds) (n - k)"
        using True by (simp add: dec_value_def)
      ultimately show ?thesis using ds by (auto simp: k_def)
    next
      case False
      obtain d t where dt: "ds = d # t" using ds(2) by (cases ds) auto
      with False have t: "t \<noteq> []" by (auto simp: k_def)
      have "fmt_digits ds n @ r = [d] @ 46 # t @ 101 # ?es @ r"
        using exp False kpos t by (auto simp: fmt_digits_def Let_def dt simp flip: k_def)
      moreover have "scan_decimal ([d] @ 46 # t @ 101 # ?es @ r) = ([d], Some t, Some (n - 1), r)"
        using ds(1) e dt by (intro scan_fraction) auto
      moreover have "dec_value neg [d] (Some t) (Some (n - 1)) = dec_round neg (nat_of ds) (n - k)"
        by (simp add: dec_value_def dt k_def diff_diff_eq)
      ultimately show ?thesis using t by (auto simp: k_def)
    qed
  qed
qed

lemma round_num_sign:
  assumes "round_num False p q = Fin False m e"
  shows "round_num neg p q = Fin neg m e"
proof (cases "p = 0")
  case True
  with assms show ?thesis by (simp add: round_num_def)
next
  case False
  define ex where "ex = max (flog 2 p q - 52) (-1074)"
  define r where "r = (case scale 2 ex p q of (p', q') \<Rightarrow> round_even p' q')"
  define M :: nat where "M = 2 ^ 53"
  define H :: nat where "H = 2 ^ 52"
  have eq: "round_num b p q =
      (if r = M then (if 970 < ex then Inf b else Fin b H (ex + 1))
       else if 971 < ex then Inf b else Fin b r ex)" for b
    using False unfolding round_num_def Let_def ex_def [symmetric] r_def [symmetric] M_def H_def by simp
  from assms show ?thesis unfolding eq by (auto split: if_splits)
qed

lemma dec_round_sign: "dec_round False s t = Fin False m e \<Longrightarrow> dec_round neg s t = Fin neg m e"
  by (auto simp: dec_round_def intro: round_num_sign split: if_splits)

text \<open>\<open>unsigned_zero\<close> is what a trip through text does to a number: minus zero loses its sign.\<close>

fun unsigned_zero :: "jnum \<Rightarrow> jnum" where
  "unsigned_zero (Fin neg m e) = (if m = 0 then zero else Fin neg m e)"
| "unsigned_zero x = x"

lemma fmt_digits_chars:
  assumes "\<forall>c \<in> set ds. is_digit c" "ds \<noteq> []"
  shows "fmt_digits ds n \<noteq> [] \<and> is_digit (hd (fmt_digits ds n))
    \<and> set (fmt_digits ds n) \<subseteq> {c. is_digit c} \<union> {43, 45, 46, 101}"
proof -
  obtain d t where dt: "ds = d # t" using assms(2) by (cases ds) auto
  then have d: "is_digit d" "\<forall>c \<in> set t. is_digit c" using assms(1) by auto
  have "\<forall>c \<in> set (take (nat n) ds). is_digit c" "\<forall>c \<in> set (drop (nat n) ds). is_digit c"
    using assms(1) by (auto dest: in_set_takeD in_set_dropD)
  moreover have "0 < n \<Longrightarrow> take (nat n) ds \<noteq> [] \<and> hd (take (nat n) ds) = d"
    by (cases "nat n") (auto simp: dt)
  ultimately show ?thesis
    using d by (auto simp: fmt_digits_def Let_def dt dec_digits_digit)
qed

lemma scan_number_text:
  assumes wf: "wf_num (Fin neg m e)" and m: "m \<noteq> 0" and r: "ends_number r"
  obtains t ip fp ex where "num_to_string (Fin neg m e) = (if neg then 45 # t else t)"
    and "scan_decimal (t @ r) = (ip, fp, ex, r)" "ip \<noteq> []" "hd ip = 48 \<longrightarrow> length ip = 1" "fp \<noteq> Some []"
    and "dec_value neg ip fp ex = Fin neg m e" "t \<noteq> []" "is_digit (hd t)"
    and "set t \<subseteq> {c. is_digit c} \<union> {43, 45, 46, 101}"
proof -
  obtain s k n where sh: "shortest m e = (s, k, n)" by (metis surj_pair)
  have wf': "wf_num (Fin False m e)" using wf by simp
  have m': "0 < m" using m by simp
  note ok = shortest_ok [OF wf' m' sh]
  have len: "length (dec_digits s) = k" using ok(2,3,4) by (rule length_dec_digits)
  have "0 < s" using ok(3) by (metis less_le_trans zero_less_numeral zero_less_power gr0I)
  then have ds: "\<forall>c \<in> set (dec_digits s). is_digit c" "dec_digits s \<noteq> []" "hd (dec_digits s) \<noteq> 48"
    by (auto simp: dec_digits_digit dec_digits_hd)
  define t where "t = fmt_digits (dec_digits s) n"
  obtain ip fp ex where scan: "scan_decimal (t @ r) = (ip, fp, ex, r)" "ip \<noteq> []"
      "hd ip = 48 \<longrightarrow> length ip = 1" "fp \<noteq> Some []"
      "dec_value neg ip fp ex = dec_round neg s (n - int k)"
    using scan_fmt_digits [OF ds r, of n neg] by (auto simp: t_def len)
  have "dec_round neg s (n - int k) = Fin neg m e"
    by (rule dec_round_sign [OF ok(1)])
  moreover have t: "t \<noteq> [] \<and> is_digit (hd t) \<and> set t \<subseteq> {c. is_digit c} \<union> {43, 45, 46, 101}"
    unfolding t_def by (rule fmt_digits_chars [OF ds(1,2)])
  ultimately show ?thesis
    using that [of t ip fp ex] scan m sh by (simp add: t_def)
qed

text \<open>JSON reads the text of a finite number back, whatever follows it.\<close>

lemma parse_json_number_text:
  assumes wf: "wf_num (Fin neg m e)" and r: "ends_number r"
  shows "parse_json_number (num_to_string (Fin neg m e) @ r) = Some (unsigned_zero (Fin neg m e), r)"
proof (cases "m = 0")
  case True
  then show ?thesis
    using scan_plain [of "[48]" r] r
    by (simp add: parse_json_number_def strip_minus_def dec_value_def nat_of_Cons digit_val_def
        dec_round_def round_num_def zero_def)
next
  case False
  from scan_number_text [OF wf False r] obtain t ip fp ex
    where t: "num_to_string (Fin neg m e) = (if neg then 45 # t else t)"
      and scan: "scan_decimal (t @ r) = (ip, fp, ex, r)" "ip \<noteq> []" "hd ip = 48 \<longrightarrow> length ip = 1"
        "fp \<noteq> Some []" "dec_value neg ip fp ex = Fin neg m e"
      and hd: "t \<noteq> []" "is_digit (hd t)" by metis
  have "strip_minus (num_to_string (Fin neg m e) @ r) = (neg, t @ r)"
    using t hd by (cases t) (auto simp: strip_minus_def)
  with scan False show ?thesis by (auto simp: parse_json_number_def)
qed

lemma trim_id: "s \<noteq> [] \<Longrightarrow> \<forall>c \<in> set s. \<not> is_trimmed c \<Longrightarrow> trim s = s"
proof -
  assume s: "s \<noteq> []" "\<forall>c \<in> set s. \<not> is_trimmed c"
  then have "dropWhile is_trimmed s = s" by (cases s) auto
  moreover from s have "dropWhile is_trimmed (rev s) = rev s"
    by (cases "rev s") (auto simp: rev_swap)
  ultimately show ?thesis by (simp add: trim_def)
qed

lemma digit_not_trimmed: "is_digit c \<Longrightarrow> \<not> is_trimmed c"
  by (auto simp: is_digit_def is_trimmed_def word_le_nat_alt)

lemma valid_float_text:
  assumes wf: "wf_num (Fin neg m e)"
  shows "valid_float (num_to_string (Fin neg m e))"
proof (cases "m = 0")
  case True
  then show ?thesis
    using scan_plain [of "[48]" "[]"] by (simp add: valid_float_def strip_minus_def ends_number_def)
next
  case False
  have "ends_number []" by (simp add: ends_number_def)
  from scan_number_text [OF wf False this] obtain t ip fp ex
    where t: "num_to_string (Fin neg m e) = (if neg then 45 # t else t)"
      and scan: "scan_decimal (t @ []) = (ip, fp, ex, [])" "ip \<noteq> []" "fp \<noteq> Some []"
      and hd: "t \<noteq> []" "is_digit (hd t)" by metis
  have "strip_minus (num_to_string (Fin neg m e)) = (neg, t)"
    using t hd by (cases t) (auto simp: strip_minus_def)
  with scan show ?thesis by (simp add: valid_float_def)
qed

lemma number_char_not_trimmed:
  "c \<in> {c. is_digit c} \<union> {43, 45, 46, 101} \<Longrightarrow> \<not> is_trimmed c"
  using digit_not_trimmed by (auto simp: is_trimmed_def word_le_nat_alt)

lemma number_char_not_radix:
  "c \<in> {c. is_digit c} \<union> {43, 45, 46, 101} \<Longrightarrow> c \<notin> {120, 88, 111, 79, 98, 66}"
  by (auto simp: is_digit_def)

text \<open>The unary plus reads the text of any number back.\<close>

lemma string_to_num_text:
  assumes "wf_num x"
  shows "string_to_num (num_to_string x) = unsigned_zero x"
proof (cases x)
  case NaN
  have "string_to_num (js ''NaN'') = NaN" by code_simp
  with NaN show ?thesis by simp
next
  case (Inf neg)
  have "string_to_num (js ''Infinity'') = Inf False" "string_to_num (45 # js ''Infinity'') = Inf True"
    by code_simp+
  with Inf show ?thesis by (cases neg) auto
next
  case (Fin neg m e)
  with assms have wf: "wf_num (Fin neg m e)" by simp
  show ?thesis
  proof (cases "m = 0")
    case True
    have "string_to_num [48] = zero" by code_simp
    with Fin True show ?thesis by simp
  next
    case False
    have "ends_number []" by (simp add: ends_number_def)
    from scan_number_text [OF wf False this] obtain t ip fp ex
      where t: "num_to_string (Fin neg m e) = (if neg then 45 # t else t)"
        and scan: "scan_decimal (t @ []) = (ip, fp, ex, [])" "ip \<noteq> []" "fp \<noteq> Some []"
          "dec_value neg ip fp ex = Fin neg m e"
        and hd: "t \<noteq> []" "is_digit (hd t)" and chars: "set t \<subseteq> {c. is_digit c} \<union> {43, 45, 46, 101}"
      by metis
    have numtext: "num_to_string x = (if neg then 45 # t else t)" by (simp only: Fin t)
    obtain c r where cr: "t = c # r" using hd by (cases t) auto
    have "c \<noteq> 43" "c \<noteq> 45" using hd cr by auto
    moreover have "r \<noteq> [] \<longrightarrow> hd r \<notin> {120, 88, 111, 79, 98, 66}"
      using chars cr number_char_not_radix by (cases r) auto
    moreover have "trim (if neg then 45 # t else t) = (if neg then 45 # t else t)"
      using chars number_char_not_trimmed cr by (intro trim_id) (auto simp: is_trimmed_def)
    moreover have "t \<noteq> js ''Infinity''"
      using hd(2) by (auto simp: js_def is_digit_def)
    ultimately have "string_to_num (if neg then 45 # t else t) = Fin neg m e"
      using scan cr False
      by (cases neg; cases "r = []") (simp_all add: string_to_num_def parse_str_decimal_def)
    with numtext Fin False show ?thesis by simp
  qed
qed

text \<open>Whatever is read is a double.\<close>

lemma wf_dec_round [simp]: "wf_num (dec_round neg s t)"
  by (simp add: dec_round_def wf_round_num)

lemma wf_zero [simp]: "wf_num zero"
  by (simp add: zero_def)

lemma wf_dec_value [simp]: "wf_num (dec_value neg ip fp ex)"
  by (simp add: dec_value_def Let_def)

lemma wf_parse_json_number:
  assumes "parse_json_number s = Some (x, r)"
  shows "wf_num x"
proof -
  obtain neg t where t: "strip_minus s = (neg, t)" by fastforce
  obtain ip fp ex rest where "scan_decimal t = (ip, fp, ex, rest)" by (metis surj_pair)
  with assms t have "x = dec_value neg ip fp ex"
    by (simp add: parse_json_number_def split: if_split_asm)
  then show ?thesis by simp
qed

lemma wf_parse_str_decimal: "wf_num (parse_str_decimal neg t)"
proof -
  obtain ip fp ex rest where "scan_decimal t = (ip, fp, ex, rest)" by (metis surj_pair)
  then show ?thesis by (simp add: parse_str_decimal_def)
qed

lemma wf_parse_radix: "wf_num (parse_radix b s)"
  by (simp add: parse_radix_def wf_round_num)

lemma wf_string_to_num [simp]: "wf_num (string_to_num s)"
proof (cases "trim s")
  case Nil
  then show ?thesis by (simp add: string_to_num_def)
next
  case (Cons c r)
  then show ?thesis
    unfolding string_to_num_def Cons list.case
    by (simp only: wf_parse_radix wf_parse_str_decimal if_split simp_thms)
qed

lemma wf_unsigned_zero [simp]: "wf_num x \<Longrightarrow> wf_num (unsigned_zero x)"
  by (cases x) auto

lemma unsigned_zero_idem [simp]: "unsigned_zero (unsigned_zero x) = unsigned_zero x"
  by (cases x) (auto simp: zero_def)

lemma num_to_string_unsigned_zero [simp]: "num_to_string (unsigned_zero x) = num_to_string x"
proof (cases x)
  case (Fin neg m e)
  then show ?thesis
    by (cases "m = 0") (simp_all only: unsigned_zero.simps if_True if_False, simp add: zero_def)
qed (simp_all only: unsigned_zero.simps)

text \<open>A digit text without a leading zero is the text of its value.\<close>

lemma digit_val_char: "is_digit c \<Longrightarrow> digit_val c < 10 \<and> 48 + of_nat (digit_val c) = c"
proof -
  assume "is_digit c"
  then have "48 \<le> unat c" "unat c \<le> 57" by (auto simp: is_digit_def word_le_nat_alt)
  then obtain d where d: "unat c = 48 + d" "d < 10" by (auto simp: le_iff_add intro: that)
  then have "c = of_nat (48 + d)" by (metis of_nat_unat ucast_id)
  then have "c = 48 + of_nat d" by simp
  with d(2) show ?thesis by simp
qed

lemma nat_of_pos: "ds \<noteq> [] \<Longrightarrow> \<forall>c \<in> set ds. is_digit c \<Longrightarrow> hd ds \<noteq> 48 \<Longrightarrow> 0 < nat_of ds"
proof (cases ds)
  case (Cons c r)
  assume "\<forall>c \<in> set ds. is_digit c" "hd ds \<noteq> 48"
  then have "0 < digit_val c" using Cons digit_val_char [of c] by (cases "digit_val c") auto
  then show ?thesis by (simp add: Cons nat_of_Cons)
qed simp

lemma dec_digits_nat_of:
  "ds \<noteq> [] \<Longrightarrow> \<forall>c \<in> set ds. is_digit c \<Longrightarrow> hd ds = 48 \<longrightarrow> length ds = 1 \<Longrightarrow> dec_digits (nat_of ds) = ds"
proof (induction ds rule: rev_induct)
  case Nil
  then show ?case by simp
next
  case (snoc c xs)
  have c: "digit_val c < 10" "48 + of_nat (digit_val c) = c"
    using snoc.prems digit_val_char [of c] by auto
  show ?case
  proof (cases "xs = []")
    case True
    with c show ?thesis by (subst dec_digits.simps) (simp add: nat_of_Cons)
  next
    case False
    with snoc.prems have hd: "hd xs \<noteq> 48" by auto
    have "0 < nat_of xs" using False snoc.prems hd by (intro nat_of_pos) auto
    moreover have "dec_digits (nat_of xs) = xs" using False snoc hd by auto
    moreover have "nat_of (xs @ [c]) = 10 * nat_of xs + digit_val c"
      by (simp add: nat_of_append nat_of_Cons)
    ultimately show ?thesis using c by (subst dec_digits.simps) simp
  qed
qed

declare num_to_string.simps(3) [simp del]

end
