(* ===== verification/Json.thy ===== *)
theory Json
  imports Numbers
begin

section \<open>JSON: the texts that the code stores, sends and shows\<close>

text \<open>
  \<open>JSON.stringify\<close> and \<open>JSON.parse\<close> of the language on JSON trees: the serializer with and
  without indentation (the code uses both), the property order of objects, the parser over
  UTF-16 code units, and the round trip between them.  The heap objects the code works on are
  turned into trees and back in the theory \<open>Values\<close>.
\<close>

datatype json =
  JNull | JBool bool | JNum jnum | JStr jstr | JArr "json list" | JObj "(jstr \<times> json) list"

subsection \<open>Property tables\<close>

text \<open>
  The own properties of an object, in the order \<open>Object.getOwnPropertyNames\<close> and
  \<open>JSON.stringify\<close> visit them: array-index keys first, ascending, then the others in the order
  of their creation.  Writing an existing property keeps its place.
\<close>

definition is_index_key :: "jstr \<Rightarrow> bool" where
  "is_index_key k \<longleftrightarrow>
     k \<noteq> [] \<and> (\<forall>c \<in> set k. is_digit c) \<and> (hd k = 48 \<longrightarrow> length k = 1) \<and> nat_of k < 2 ^ 32 - 1"

definition key_before :: "jstr \<Rightarrow> jstr \<Rightarrow> bool" where
  "key_before a b \<longleftrightarrow> (if is_index_key b then is_index_key a \<and> nat_of a < nat_of b else a \<noteq> b)"

definition put_prop :: "jstr \<Rightarrow> 'v \<Rightarrow> (jstr \<times> 'v) list \<Rightarrow> (jstr \<times> 'v) list" where
  "put_prop k v ps =
     (if k \<in> fst ` set ps then map (\<lambda>(k', v'). if k' = k then (k, v) else (k', v')) ps
      else if is_index_key k
      then takeWhile (\<lambda>(k', _). key_before k' k) ps @ (k, v) # dropWhile (\<lambda>(k', _). key_before k' k) ps
      else ps @ [(k, v)])"

definition put_all :: "(jstr \<times> 'v) list \<Rightarrow> (jstr \<times> 'v) list \<Rightarrow> (jstr \<times> 'v) list" where
  "put_all ps qs = foldl (\<lambda>t (k, v). put_prop k v t) ps qs"

definition props_ok :: "(jstr \<times> 'v) list \<Rightarrow> bool" where
  "props_ok ps \<longleftrightarrow> distinct (map fst ps) \<and> sorted_wrt key_before (map fst ps)"

lemma map_of_insert_middle:
  "k \<notin> fst ` set xs \<Longrightarrow> map_of (xs @ (k, v) # ys) = (map_of (xs @ ys))(k \<mapsto> v)"
  by (induction xs) (auto simp: fun_eq_iff)

lemma map_of_put_prop [simp]: "map_of (put_prop k v ps) = (map_of ps)(k \<mapsto> v)"
proof (cases "k \<in> fst ` set ps")
  case True
  then have "map_of (map (\<lambda>(k', v'). if k' = k then (k, v) else (k', v')) ps) = (map_of ps)(k \<mapsto> v)"
  proof (induction ps)
    case (Cons p ps)
    show ?case
    proof (cases "k \<in> fst ` set ps")
      case True
      with Cons show ?thesis by (auto simp: fun_eq_iff split: prod.splits)
    next
      case False
      then have "map (\<lambda>(k', v'). if k' = k then (k, v) else (k', v')) ps = ps"
        by (intro map_idI) (auto simp: image_iff)
      with False Cons.prems show ?thesis by (auto simp: fun_eq_iff split: prod.splits)
    qed
  qed simp
  with True show ?thesis by (simp add: put_prop_def)
next
  case False
  then have "k \<notin> fst ` set (takeWhile (\<lambda>(k', _). key_before k' k) ps)"
    by (auto dest: set_takeWhileD)
  then have "map_of (takeWhile (\<lambda>(k', _). key_before k' k) ps @ (k, v) # dropWhile (\<lambda>(k', _). key_before k' k) ps)
      = (map_of ps)(k \<mapsto> v)"
    by (subst map_of_insert_middle) simp_all
  moreover have "map_of (ps @ [(k, v)]) = (map_of ps)(k \<mapsto> v)"
    using False map_of_insert_middle [of k ps v "[]"] by simp
  ultimately show ?thesis using False by (simp add: put_prop_def)
qed

lemma keys_put_prop [simp]: "fst ` set (put_prop k v ps) = insert k (fst ` set ps)"
  by (metis dom_map_of_conv_image_fst map_of_put_prop dom_fun_upd option.distinct(1))

lemma put_prop_append:
  assumes "props_ok (ps @ [(k, v)])"
  shows "put_prop k v ps = ps @ [(k, v)]"
proof (cases "is_index_key k")
  case True
  with assms have "\<forall>p \<in> set ps. case p of (k', _) \<Rightarrow> key_before k' k"
    by (auto simp: props_ok_def sorted_wrt_append)
  then have "takeWhile (\<lambda>(k', _). key_before k' k) ps = ps" "dropWhile (\<lambda>(k', _). key_before k' k) ps = []"
    by simp_all
  with assms show ?thesis by (auto simp: put_prop_def props_ok_def)
next
  case False
  with assms show ?thesis by (auto simp: put_prop_def props_ok_def)
qed

lemma props_ok_butlast: "props_ok (ps @ qs) \<Longrightarrow> props_ok ps"
  by (simp add: props_ok_def sorted_wrt_append)

lemma put_all_id: "props_ok ps \<Longrightarrow> put_all [] ps = ps"
proof (induction ps rule: rev_induct)
  case Nil
  then show ?case by (simp add: put_all_def)
next
  case (snoc p ps)
  obtain k v where p: "p = (k, v)" by fastforce
  have "put_all [] (ps @ [p]) = put_prop k v ps"
    using snoc.IH [OF props_ok_butlast [OF snoc.prems]] by (simp add: put_all_def p)
  also have "\<dots> = ps @ [p]"
    using snoc.prems unfolding p by (rule put_prop_append)
  finally show ?case .
qed

lemma map_fst_put_present:
  "k \<in> fst ` set ps \<Longrightarrow> map fst (put_prop k v ps) = map fst ps"
  by (auto simp: put_prop_def)

lemma index_key_inj: "is_index_key a \<Longrightarrow> is_index_key b \<Longrightarrow> nat_of a = nat_of b \<Longrightarrow> a = b"
  by (metis dec_digits_nat_of is_index_key_def)

lemma not_key_before: "a \<noteq> b \<Longrightarrow> \<not> key_before a b \<Longrightarrow> key_before b a"
  using index_key_inj [of a b]
  by (cases "nat_of a" "nat_of b" rule: linorder_cases) (auto simp: key_before_def split: if_splits)

lemma key_before_trans: "key_before a b \<Longrightarrow> key_before b c \<Longrightarrow> a \<noteq> c \<Longrightarrow> key_before a c"
  by (auto simp: key_before_def split: if_splits)

lemma key_before_irrefl: "is_index_key a \<Longrightarrow> \<not> key_before a a"
  by (simp add: key_before_def)

lemma sorted_insert_key:
  assumes "sorted_wrt key_before ks" "k \<notin> set ks" "is_index_key k"
  shows "sorted_wrt key_before (takeWhile (\<lambda>k'. key_before k' k) ks @ k # dropWhile (\<lambda>k'. key_before k' k) ks)"
  using assms
proof (induction ks)
  case Nil
  then show ?case by simp
next
  case (Cons a ks)
  show ?case
  proof (cases "key_before a k")
    case True
    have "key_before a x" if "x \<in> set (takeWhile (\<lambda>k'. key_before k' k) ks @ k # dropWhile (\<lambda>k'. key_before k' k) ks)" for x
      using that True Cons.prems(1) by (auto dest: set_takeWhileD set_dropWhileD)
    with True Cons show ?thesis by simp
  next
    case False
    then have ka: "key_before k a" using Cons.prems by (intro not_key_before) auto
    have "key_before k x" if "x \<in> set ks" for x
      using key_before_trans [OF ka, of x] that Cons.prems by auto
    with False ka Cons.prems(1) show ?thesis by simp
  qed
qed

lemma map_takeWhile_fst:
  "map fst (takeWhile (\<lambda>(k', _). P k') ps) = takeWhile P (map fst ps)"
  "map fst (dropWhile (\<lambda>(k', _). P k') ps) = dropWhile P (map fst ps)"
  by (induction ps) (auto split: prod.splits)

lemma props_ok_put [simp]:
  assumes "props_ok ps"
  shows "props_ok (put_prop k v ps)"
proof -
  consider (old) "k \<in> fst ` set ps" | (index) "k \<notin> fst ` set ps" "is_index_key k"
    | (new) "k \<notin> fst ` set ps" "\<not> is_index_key k" by blast
  then show ?thesis
  proof cases
    case old
    then have "map fst (put_prop k v ps) = map fst ps" by (auto simp: put_prop_def)
    with assms show ?thesis by (simp add: props_ok_def)
  next
    case index
    let ?ks = "map fst ps"
    let ?t = "takeWhile (\<lambda>k'. key_before k' k) ?ks" and ?d = "dropWhile (\<lambda>k'. key_before k' k) ?ks"
    have keys: "map fst (put_prop k v ps) = ?t @ k # ?d"
      using index by (simp add: put_prop_def map_takeWhile_fst)
    have "distinct ?t" "distinct ?d" "k \<notin> set ?t" "k \<notin> set ?d"
      using assms index by (auto simp: props_ok_def dest: set_takeWhileD set_dropWhileD)
    moreover have "set ?t \<inter> set ?d = {}"
      using assms by (metis distinct_append takeWhile_dropWhile_id props_ok_def)
    moreover have "sorted_wrt key_before (?t @ k # ?d)"
      using assms index by (intro sorted_insert_key) (auto simp: props_ok_def)
    ultimately show ?thesis by (auto simp: props_ok_def keys)
  next
    case new
    then show ?thesis
      using assms by (auto simp: put_prop_def props_ok_def sorted_wrt_append key_before_def)
  qed
qed

lemma props_ok_Nil [simp]: "props_ok []"
  by (simp add: props_ok_def)

lemma props_ok_put_all [simp]: "props_ok ps \<Longrightarrow> props_ok (put_all ps qs)"
  by (induction qs arbitrary: ps) (auto simp: put_all_def)

lemma put_prop_map: "put_prop k (f v) (map (\<lambda>(k, v). (k, f v)) ps) = map (\<lambda>(k, v). (k, f v)) (put_prop k v ps)"
proof -
  have f: "(\<lambda>(k', _). key_before k' k) \<circ> (\<lambda>(k, v). (k, f v)) = (\<lambda>(k', _). key_before k' k)"
    by (auto simp: fun_eq_iff)
  have "fst ` (\<lambda>(k, v). (k, f v)) ` set ps = fst ` set ps" by force
  with f show ?thesis
    by (auto simp: put_prop_def takeWhile_map dropWhile_map)
qed

subsection \<open>The texts of strings\<close>

definition hex_digit :: "nat \<Rightarrow> unit16" where
  "hex_digit n = (if n < 10 then 48 + of_nat n else 87 + of_nat n)"

definition escape_unit :: "unit16 \<Rightarrow> jstr" where
  "escape_unit c =
     [92, 117, hex_digit (unat c div 4096), hex_digit (unat c div 256 mod 16),
      hex_digit (unat c div 16 mod 16), hex_digit (unat c mod 16)]"

definition quote_unit :: "unit16 \<Rightarrow> jstr" where
  "quote_unit c =
     (if c = 8 then [92, 98] else if c = 9 then [92, 116] else if c = 10 then [92, 110]
      else if c = 12 then [92, 102] else if c = 13 then [92, 114] else if c = 34 then [92, 34]
      else if c = 92 then [92, 92] else if c < 32 then escape_unit c else [c])"

definition is_high :: "unit16 \<Rightarrow> bool" where "is_high c \<longleftrightarrow> 0xD800 \<le> c \<and> c \<le> 0xDBFF"
definition is_low :: "unit16 \<Rightarrow> bool" where "is_low c \<longleftrightarrow> 0xDC00 \<le> c \<and> c \<le> 0xDFFF"

text \<open>Paired surrogates stay, a lone one is escaped.\<close>

fun quote_units :: "jstr \<Rightarrow> jstr" where
  "quote_units [] = []"
| "quote_units [c] = (if is_high c \<or> is_low c then escape_unit c else quote_unit c)"
| "quote_units (c # d # cs) =
     (if is_high c \<and> is_low d then c # d # quote_units cs
      else (if is_high c \<or> is_low c then escape_unit c else quote_unit c) @ quote_units (d # cs))"

definition quote_string :: "jstr \<Rightarrow> jstr" where
  "quote_string s = 34 # quote_units s @ [34]"

definition hex_value :: "unit16 \<Rightarrow> nat option" where
  "hex_value c = (if radix_digit c < 16 then Some (radix_digit c) else None)"

definition unescape :: "unit16 \<Rightarrow> unit16 option" where
  "unescape c =
     (if c = 98 then Some 8 else if c = 116 then Some 9 else if c = 110 then Some 10
      else if c = 102 then Some 12 else if c = 114 then Some 13
      else if c = 34 \<or> c = 92 \<or> c = 47 then Some c else None)"

definition unhex :: "unit16 \<Rightarrow> unit16 \<Rightarrow> unit16 \<Rightarrow> unit16 \<Rightarrow> unit16 option" where
  "unhex a b c d =
     (case (hex_value a, hex_value b, hex_value c, hex_value d) of
        (Some w, Some x, Some y, Some z) \<Rightarrow> Some (of_nat (4096 * w + 256 * x + 16 * y + z))
      | _ \<Rightarrow> None)"

text \<open>The contents of a string up to its closing quote, and the rest of the text.\<close>

fun parse_units :: "jstr \<Rightarrow> (jstr \<times> jstr) option" where
  "parse_units (c # r) =
     (if c = 34 then Some ([], r)
      else if c = 92 then
        (case r of
           [] \<Rightarrow> None
         | e # r' \<Rightarrow>
             if e = 117 then
               (case r' of
                  w # x # y # z # r'' \<Rightarrow>
                    (case unhex w x y z of
                       Some u \<Rightarrow> map_option (\<lambda>(s, t). (u # s, t)) (parse_units r'')
                     | None \<Rightarrow> None)
                | _ \<Rightarrow> None)
             else (case unescape e of
                     Some u \<Rightarrow> map_option (\<lambda>(s, t). (u # s, t)) (parse_units r')
                   | None \<Rightarrow> None))
      else if c < 32 then None
      else map_option (\<lambda>(s, t). (c # s, t)) (parse_units r))"
| "parse_units [] = None"

lemma hex_value_all: "\<forall>n \<in> set [0..<16]. hex_value (hex_digit n) = Some n"
  by code_simp

lemma hex_value_digit [simp]: "n < 16 \<Longrightarrow> hex_value (hex_digit n) = Some n"
  using hex_value_all by simp

lemma hex_split: "4096 * (n div 4096) + 256 * (n div 256 mod 16) + 16 * (n div 16 mod 16) + n mod 16 = (n :: nat)"
proof -
  have "n = 16 * (n div 16) + n mod 16" by simp
  moreover have "n div 16 = 16 * (n div 256) + n div 16 mod 16"
    using div_mult2_eq [of n 16 16] by simp
  moreover have "n div 256 = 16 * (n div 4096) + n div 256 mod 16"
    using div_mult2_eq [of n 256 16] by simp
  ultimately show ?thesis by linarith
qed

lemma unhex_escape:
  "unhex (hex_digit (unat c div 4096)) (hex_digit (unat c div 256 mod 16))
     (hex_digit (unat c div 16 mod 16)) (hex_digit (unat c mod 16)) = Some (c :: unit16)"
proof -
  have "unat c < 65536" using unsigned_less [of c] by simp
  then have "unat c div 4096 < 16" by (simp add: less_mult_imp_div_less)
  then show ?thesis
    by (simp add: unhex_def hex_split del: of_nat_add of_nat_mult)
qed

lemma parse_escape_unit:
  "parse_units (escape_unit c @ r) = map_option (\<lambda>(s, t). (c # s, t)) (parse_units r)"
  by (simp add: escape_unit_def unhex_escape)

lemma parse_quote_unit:
  "parse_units (quote_unit c @ r) = map_option (\<lambda>(s, t). (c # s, t)) (parse_units r)"
  by (auto simp: quote_unit_def unescape_def parse_escape_unit)

lemma surrogate_plain: "is_high c \<or> is_low c \<Longrightarrow> c \<noteq> 34 \<and> c \<noteq> 92 \<and> \<not> c < 32"
  by (auto simp: is_high_def is_low_def word_less_nat_alt word_le_nat_alt)

lemma parse_quote_units: "parse_units (quote_units s @ 34 # r) = Some (s, r)"
proof (induction s rule: quote_units.induct)
  case 1
  then show ?case by simp
next
  case (2 c)
  then show ?case by (simp add: parse_escape_unit parse_quote_unit)
next
  case (3 c d cs)
  show ?case
  proof (cases "is_high c \<and> is_low d")
    case True
    with 3 surrogate_plain [of c] surrogate_plain [of d] show ?thesis by simp
  next
    case False
    with 3 show ?thesis by (auto simp: parse_escape_unit parse_quote_unit)
  qed
qed

lemma parse_units_length: "parse_units s = Some (t, r) \<Longrightarrow> length r < length s"
proof (induction s arbitrary: t r rule: parse_units.induct)
  case (1 c s)
  note IH = "1.IH" [simplified, rule_format]
  from "1.prems" show ?case
    by (auto split: if_split_asm list.split_asm option.split_asm dest: IH)
next
  case 2
  then show ?case by simp
qed

subsection \<open>The serializer\<close>

text \<open>
  \<open>gap\<close> is the indentation unit of the third argument of \<open>JSON.stringify\<close>: empty when there
  is none, two blanks for \<open>JSON.stringify(obj, null, 2)\<close>.
\<close>

definition wrap :: "jstr \<Rightarrow> jstr \<Rightarrow> unit16 \<Rightarrow> unit16 \<Rightarrow> jstr list \<Rightarrow> jstr" where
  "wrap gap ind opn cls parts =
     (if parts = [] then [opn, cls]
      else if gap = [] then opn # join_with [44] parts @ [cls]
      else opn # 10 # ind @ gap @ join_with (44 # 10 # ind @ gap) parts @ 10 # ind @ [cls])"

fun ser :: "jstr \<Rightarrow> jstr \<Rightarrow> json \<Rightarrow> jstr"
  and ser_props :: "jstr \<Rightarrow> jstr \<Rightarrow> (jstr \<times> json) list \<Rightarrow> jstr list" where
  "ser gap ind JNull = js ''null''"
| "ser gap ind (JBool b) = (if b then js ''true'' else js ''false'')"
| "ser gap ind (JNum x) = (case x of Fin _ _ _ \<Rightarrow> num_to_string x | _ \<Rightarrow> js ''null'')"
| "ser gap ind (JStr s) = quote_string s"
| "ser gap ind (JArr xs) = wrap gap ind 91 93 (map (ser gap (ind @ gap)) xs)"
| "ser gap ind (JObj ps) = wrap gap ind 123 125 (ser_props gap (ind @ gap) ps)"
| "ser_props gap ind [] = []"
| "ser_props gap ind ((k, v) # ps) =
     (quote_string k @ 58 # (if gap = [] then [] else [32]) @ ser gap ind v) # ser_props gap ind ps"

definition json_text :: "json \<Rightarrow> jstr" where
  "json_text j = ser [] [] j"

definition json_pretty :: "json \<Rightarrow> jstr" where
  "json_pretty j = ser [32, 32] [] j"

subsection \<open>The parser\<close>

definition is_ws :: "unit16 \<Rightarrow> bool" where
  "is_ws c \<longleftrightarrow> c = 9 \<or> c = 10 \<or> c = 13 \<or> c = 32"

definition skip_ws :: "jstr \<Rightarrow> jstr" where
  "skip_ws s = dropWhile is_ws s"

definition strip_prefix :: "'a list \<Rightarrow> 'a list \<Rightarrow> 'a list option" where
  "strip_prefix p s = (if take (length p) s = p then Some (drop (length p) s) else None)"

text \<open>
  Recursive descent.  The first argument bounds the recursion: every call but the one from
  \<open>parse_elems\<close> to \<open>parse_value\<close> has consumed a code unit, so twice the length of the text is
  enough (\<open>parse_fuel\<close> below), and the bound never decides a result.
\<close>

fun parse_value :: "nat \<Rightarrow> jstr \<Rightarrow> (json \<times> jstr) option"
  and parse_elems :: "nat \<Rightarrow> jstr \<Rightarrow> (json list \<times> jstr) option"
  and parse_members :: "nat \<Rightarrow> jstr \<Rightarrow> ((jstr \<times> json) list \<times> jstr) option" where
  "parse_value 0 s = None"
| "parse_value (Suc f) s =
     (case skip_ws s of
        [] \<Rightarrow> None
      | c # r \<Rightarrow>
          if c = 123 then
            (if skip_ws r \<noteq> [] \<and> hd (skip_ws r) = 125 then Some (JObj [], tl (skip_ws r))
             else map_option (\<lambda>(ps, t). (JObj (put_all [] ps), t)) (parse_members f r))
          else if c = 91 then
            (if skip_ws r \<noteq> [] \<and> hd (skip_ws r) = 93 then Some (JArr [], tl (skip_ws r))
             else map_option (\<lambda>(xs, t). (JArr xs, t)) (parse_elems f r))
          else if c = 34 then map_option (\<lambda>(u, t). (JStr u, t)) (parse_units r)
          else if c = 116 then map_option (\<lambda>t. (JBool True, t)) (strip_prefix (js ''true'') (c # r))
          else if c = 102 then map_option (\<lambda>t. (JBool False, t)) (strip_prefix (js ''false'') (c # r))
          else if c = 110 then map_option (\<lambda>t. (JNull, t)) (strip_prefix (js ''null'') (c # r))
          else map_option (\<lambda>(x, t). (JNum x, t)) (parse_json_number (c # r)))"
| "parse_elems 0 s = None"
| "parse_elems (Suc f) s =
     (case parse_value f s of
        None \<Rightarrow> None
      | Some (x, t) \<Rightarrow>
          (case skip_ws t of
             [] \<Rightarrow> None
           | c # r \<Rightarrow>
               if c = 44 then map_option (\<lambda>(xs, u). (x # xs, u)) (parse_elems f r)
               else if c = 93 then Some ([x], r) else None))"
| "parse_members 0 s = None"
| "parse_members (Suc f) s =
     (case skip_ws s of
        [] \<Rightarrow> None
      | q # r \<Rightarrow>
          if q \<noteq> 34 then None
          else (case parse_units r of
                  None \<Rightarrow> None
                | Some (k, t) \<Rightarrow>
                    (case skip_ws t of
                       [] \<Rightarrow> None
                     | c # u \<Rightarrow>
                         if c \<noteq> 58 then None
                         else (case parse_value f u of
                                 None \<Rightarrow> None
                               | Some (v, w) \<Rightarrow>
                                   (case skip_ws w of
                                      [] \<Rightarrow> None
                                    | d # y \<Rightarrow>
                                        if d = 44
                                        then map_option (\<lambda>(ps, z). ((k, v) # ps, z)) (parse_members f y)
                                        else if d = 125 then Some ([(k, v)], y) else None)))))"

definition json_parse :: "jstr \<Rightarrow> json option" where
  "json_parse s =
     (case parse_value (2 * length s + 2) s of
        None \<Rightarrow> None
      | Some (j, r) \<Rightarrow> if skip_ws r = [] then Some j else None)"

text \<open>
  What a trip through text does to a tree: numbers without a JSON text become \<open>null\<close> and minus
  zero loses its sign; nothing else changes.
\<close>

fun via_text :: "json \<Rightarrow> json"
  and via_text_props :: "(jstr \<times> json) list \<Rightarrow> (jstr \<times> json) list" where
  "via_text (JNum x) = (case x of Fin _ _ _ \<Rightarrow> JNum (unsigned_zero x) | _ \<Rightarrow> JNull)"
| "via_text (JArr xs) = JArr (map via_text xs)"
| "via_text (JObj ps) = JObj (via_text_props ps)"
| "via_text j = j"
| "via_text_props [] = []"
| "via_text_props ((k, v) # ps) = (k, via_text v) # via_text_props ps"

text \<open>Trees whose numbers are doubles and whose property lists are in property order.\<close>

fun wf_json :: "json \<Rightarrow> bool"
  and wf_json_props :: "(jstr \<times> json) list \<Rightarrow> bool" where
  "wf_json (JNum x) = wf_num x"
| "wf_json (JArr xs) = (\<forall>x \<in> set xs. wf_json x)"
| "wf_json (JObj ps) = (props_ok ps \<and> wf_json_props ps)"
| "wf_json j = True"
| "wf_json_props [] = True"
| "wf_json_props ((k, v) # ps) = (wf_json v \<and> wf_json_props ps)"

lemma via_text_props_map: "via_text_props ps = map (\<lambda>(k, v). (k, via_text v)) ps"
  by (induction ps) auto

lemma wf_json_props_all: "wf_json_props ps \<longleftrightarrow> (\<forall>(k, v) \<in> set ps. wf_json v)"
  by (induction ps) auto

lemma ser_props_map:
  "ser_props gap ind ps =
     map (\<lambda>(k, v). quote_string k @ 58 # (if gap = [] then [] else [32]) @ ser gap ind v) ps"
  by (induction ps) auto

subsection \<open>The parser reads what the serializer writes\<close>

definition ends_value :: "jstr \<Rightarrow> bool" where
  "ends_value r \<longleftrightarrow> (r = [] \<or> is_ws (hd r) \<or> hd r = 44 \<or> hd r = 93 \<or> hd r = 125)"

definition all_ws :: "jstr \<Rightarrow> bool" where
  "all_ws w \<longleftrightarrow> (\<forall>c \<in> set w. is_ws c)"

lemma is_ws_consts [simp]:
  "is_ws 9" "is_ws 10" "is_ws 13" "is_ws 32" "\<not> is_ws 34" "\<not> is_ws 44" "\<not> is_ws 58" "\<not> is_ws 91"
  "\<not> is_ws 93" "\<not> is_ws 123" "\<not> is_ws 125" "\<not> is_ws 116" "\<not> is_ws 102" "\<not> is_ws 110"
  "\<not> is_ws 45"
  by (simp_all add: is_ws_def)

lemma all_ws_simps [simp]:
  "all_ws []" "all_ws (c # w) \<longleftrightarrow> is_ws c \<and> all_ws w" "all_ws (v @ w) \<longleftrightarrow> all_ws v \<and> all_ws w"
  by (auto simp: all_ws_def)

lemma skip_ws_append [simp]: "all_ws w \<Longrightarrow> skip_ws (w @ s) = skip_ws s"
  by (induction w) (auto simp: skip_ws_def)

lemma skip_ws_all [simp]: "all_ws w \<Longrightarrow> skip_ws w = []"
  using skip_ws_append [of w "[]"] by (simp add: skip_ws_def)

lemma skip_ws_Cons [simp]: "skip_ws (c # s) = (if is_ws c then skip_ws s else c # s)"
  by (simp add: skip_ws_def)

lemma skip_ws_Nil [simp]: "skip_ws [] = []"
  by (simp add: skip_ws_def)

lemma ends_value_Cons [simp]:
  "ends_value (c # r) \<longleftrightarrow> is_ws c \<or> c = 44 \<or> c = 93 \<or> c = 125" "ends_value []"
  by (auto simp: ends_value_def)

lemma ends_value_append [simp]: "all_ws w \<Longrightarrow> ends_value r \<Longrightarrow> ends_value (w @ r)"
  by (cases w) auto

lemma ends_value_number: "ends_value r \<Longrightarrow> ends_number r"
  by (auto simp: ends_value_def ends_number_def is_ws_def)

lemma number_text_hd:
  assumes "wf_num (Fin neg m e)"
  obtains c t where "num_to_string (Fin neg m e) = c # t" "is_digit c \<or> c = 45"
proof (cases "m = 0")
  case True
  then show ?thesis using that [of 48 "[]"] by (simp add: num_to_string.simps)
next
  case False
  have "ends_number []" by (simp add: ends_number_def)
  from scan_number_text [OF assms False this] obtain t where
    t: "num_to_string (Fin neg m e) = (if neg then 45 # t else t)" "t \<noteq> []" "is_digit (hd t)" by metis
  show ?thesis
  proof (cases neg)
    case True
    with t(1) show ?thesis using that [of 45 t] by simp
  next
    case neg: False
    obtain c r where "t = c # r" using t(2) by (cases t) auto
    with t neg show ?thesis using that [of c r] by simp
  qed
qed

lemma digit_or_minus_other:
  "is_digit c \<or> c = 45 \<Longrightarrow>
     \<not> is_ws c \<and> c \<noteq> 123 \<and> c \<noteq> 91 \<and> c \<noteq> 34 \<and> c \<noteq> 116 \<and> c \<noteq> 102 \<and> c \<noteq> 110
     \<and> c \<noteq> 93 \<and> c \<noteq> 125"
  by (auto simp: is_digit_def is_ws_def)

lemma strip_prefix_append [simp]: "strip_prefix p (p @ r) = Some r"
  by (simp add: strip_prefix_def)

lemma js_literals:
  "js ''true'' = 116 # js ''rue''" "js ''false'' = 102 # js ''alse''" "js ''null'' = 110 # js ''ull''"
  by (simp_all add: js_def)

lemma parse_literal:
  assumes "all_ws w" "0 < f"
  shows "parse_value f (w @ js ''true'' @ r) = Some (JBool True, r)"
    and "parse_value f (w @ js ''false'' @ r) = Some (JBool False, r)"
    and "parse_value f (w @ js ''null'' @ r) = Some (JNull, r)"
    and "parse_value f (w @ quote_string u @ r) = Some (JStr u, r)"
  using assms parse_quote_units [of u r] strip_prefix_append [of "js ''true''" r] strip_prefix_append [of "js ''false''" r]
    strip_prefix_append [of "js ''null''" r]
  by (cases f; simp add: js_literals quote_string_def)+

lemma parse_number_value:
  assumes wf: "wf_num (Fin neg m e)" and w: "all_ws w" and r: "ends_value r"
  shows "parse_value (Suc f) (w @ num_to_string (Fin neg m e) @ r) = Some (JNum (unsigned_zero (Fin neg m e)), r)"
proof -
  obtain c t where ct: "num_to_string (Fin neg m e) = c # t" "is_digit c \<or> c = 45"
    using number_text_hd [OF wf] by metis
  note parse_json_number_text [OF wf ends_value_number [OF r]]
  with digit_or_minus_other [OF ct(2)] w show ?thesis
    by (simp add: ct(1) del: unsigned_zero.simps)
qed

lemma parse_elems_join:
  assumes "xs \<noteq> []" "all_ws w" "all_ws w'" "all_ws w''"
    and "\<And>x w f r. x \<in> set xs \<Longrightarrow> all_ws w \<Longrightarrow> ends_value r \<Longrightarrow> length (t x) \<le> f \<Longrightarrow>
           parse_value f (w @ t x @ r) = Some (v x, r)"
    and "length (join_with (44 # w') (map t xs)) < f"
  shows "parse_elems f (w @ join_with (44 # w') (map t xs) @ w'' @ 93 # r) = Some (map v xs, r)"
  using assms
proof (induction xs arbitrary: w f)
  case Nil
  then show ?case by simp
next
  case (Cons x xs)
  obtain g where f: "f = Suc g" using Cons.prems(6) by (cases f) auto
  show ?case
  proof (cases "xs = []")
    case True
    with Cons.prems have "parse_value g (w @ t x @ w'' @ 93 # r) = Some (v x, w'' @ 93 # r)"
      by (auto simp: f)
    with True Cons.prems(4) show ?thesis by (simp add: f)
  next
    case False
    let ?rest = "w' @ join_with (44 # w') (map t xs) @ w'' @ 93 # r"
    have j: "join_with (44 # w') (map t (x # xs)) = t x @ 44 # w' @ join_with (44 # w') (map t xs)"
      using False by (simp add: join_with_Cons)
    from Cons.prems(6) have len: "length (t x) \<le> g" "length (join_with (44 # w') (map t xs)) < g"
      unfolding j f by simp_all
    have "parse_value g (w @ t x @ 44 # ?rest) = Some (v x, 44 # ?rest)"
      using Cons.prems len by (intro Cons.prems(5)) auto
    moreover have "parse_elems g ?rest = Some (map v xs, r)"
      using Cons.prems False len by (intro Cons.IH) auto
    ultimately show ?thesis unfolding j f by simp
  qed
qed

lemma parse_members_join:
  assumes "ps \<noteq> []" "all_ws w" "all_ws w'" "all_ws w''" "all_ws sp"
    and "\<And>k x w f r. (k, x) \<in> set ps \<Longrightarrow> all_ws w \<Longrightarrow> ends_value r \<Longrightarrow> length (t x) \<le> f \<Longrightarrow>
           parse_value f (w @ t x @ r) = Some (v x, r)"
    and "length (join_with (44 # w') (map (\<lambda>(k, x). quote_string k @ 58 # sp @ t x) ps)) < f"
  shows "parse_members f (w @ join_with (44 # w') (map (\<lambda>(k, x). quote_string k @ 58 # sp @ t x) ps)
           @ w'' @ 125 # r) = Some (map (\<lambda>(k, x). (k, v x)) ps, r)"
  using assms
proof (induction ps arbitrary: w f)
  case Nil
  then show ?case by simp
next
  case (Cons p ps)
  obtain k x where p: "p = (k, x)" by fastforce
  obtain g where f: "f = Suc g" using Cons.prems(7) by (cases f) auto
  let ?t = "\<lambda>(k, x). quote_string k @ 58 # sp @ t x"
  have key: "parse_units (quote_units k @ 34 # u) = Some (k, u)" for u
    by (rule parse_quote_units)
  show ?case
  proof (cases "ps = []")
    case True
    with Cons.prems have "parse_value g (sp @ t x @ w'' @ 125 # r) = Some (v x, w'' @ 125 # r)"
      by (auto simp: f p)
    with True Cons.prems(2,4) key show ?thesis by (simp add: f p quote_string_def)
  next
    case False
    let ?rest = "w' @ join_with (44 # w') (map ?t ps) @ w'' @ 125 # r"
    have j: "join_with (44 # w') (map ?t (p # ps)) = quote_string k @ 58 # sp @ t x @ 44 # w' @ join_with (44 # w') (map ?t ps)"
      using False by (simp add: join_with_Cons p)
    from Cons.prems(7) have len: "length (t x) \<le> g" "length (join_with (44 # w') (map ?t ps)) < g"
      unfolding j f by simp_all
    have "parse_value g (sp @ t x @ 44 # ?rest) = Some (v x, 44 # ?rest)"
      using Cons.prems len by (intro Cons.prems(6)) (auto simp: p)
    moreover have "parse_members g ?rest = Some (map (\<lambda>(k, x). (k, v x)) ps, r)"
      using Cons.prems(3,4,5) False len by (intro Cons.IH) (auto intro!: Cons.prems(6))
    ultimately show ?thesis
      using Cons.prems(2) key by (simp only: j) (simp add: f p quote_string_def)
  qed
qed

lemma ser_hd:
  assumes "wf_json j"
  shows "\<exists>c t. ser gap ind j = c # t \<and> \<not> is_ws c \<and> c \<noteq> 93 \<and> c \<noteq> 125"
proof (cases j)
  case (JNum x)
  show ?thesis
  proof (cases x)
    case (Fin neg m e)
    with JNum assms have "wf_num (Fin neg m e)" by simp
    then obtain c t where "num_to_string (Fin neg m e) = c # t" "is_digit c \<or> c = 45"
      by (rule number_text_hd)
    with digit_or_minus_other [of c] show ?thesis by (simp add: JNum Fin)
  qed (use JNum in \<open>auto simp: js_literals\<close>)
qed (auto simp: js_literals quote_string_def wrap_def)

text \<open>The value a serialized tree denotes, anywhere in a text and under any indentation.\<close>

lemma parse_ser:
  "wf_json j \<Longrightarrow> all_ws gap \<Longrightarrow> all_ws ind \<Longrightarrow> all_ws w \<Longrightarrow> ends_value r \<Longrightarrow>
     length (ser gap ind j) \<le> f \<Longrightarrow> parse_value f (w @ ser gap ind j @ r) = Some (via_text j, r)"
proof (induction j arbitrary: ind w r f)
  case (JNum x)
  obtain c t where "ser gap ind (JNum x) = c # t" using ser_hd [OF JNum.prems(1)] by blast
  with JNum.prems(6) obtain g where f: "f = Suc g" by (cases f) auto
  show ?case
  proof (cases x)
    case (Fin neg m e)
    with JNum show ?thesis by (simp add: f parse_number_value del: parse_value.simps unsigned_zero.simps)
  qed (use JNum f in \<open>simp_all add: parse_literal del: parse_value.simps\<close>)
next
  case (JArr xs)
  show ?case
  proof (cases "xs = []")
    case True
    with JArr.prems show ?thesis by (cases f) (simp_all add: wrap_def)
  next
    case False
    define w' where "w' = (if gap = [] then [] else 10 # ind @ gap)"
    define w'' where "w'' = (if gap = [] then [] else 10 # ind)"
    have ws: "all_ws w'" "all_ws w''" using JArr.prems by (auto simp: w'_def w''_def)
    have s: "ser gap ind (JArr xs) = 91 # w' @ join_with (44 # w') (map (ser gap (ind @ gap)) xs) @ w'' @ [93]"
      using False by (simp add: wrap_def w'_def w''_def)
    from JArr.prems(6) obtain g where f: "f = Suc g" unfolding s by (cases f) auto
    define body where "body = w' @ join_with (44 # w') (map (ser gap (ind @ gap)) xs) @ w'' @ 93 # r"
    have len: "length (join_with (44 # w') (map (ser gap (ind @ gap)) xs)) < g"
      using JArr.prems(6) unfolding s f by simp
    have elems: "parse_elems g body = Some (map via_text xs, r)"
      unfolding body_def
      using JArr.prems False ws len by (intro parse_elems_join) (auto intro!: JArr.IH)
    obtain x ys where xs: "xs = x # ys" using False by (cases xs) auto
    then have "wf_json x" using JArr.prems(1) by simp
    then obtain c t where ct: "ser gap (ind @ gap) x = c # t" "\<not> is_ws c" "c \<noteq> 93"
      using ser_hd by blast
    then have "hd (skip_ws body) \<noteq> 93"
      using ws by (cases ys) (simp_all add: body_def xs)
    with elems show ?thesis
      using JArr.prems(4) unfolding s f by (simp flip: body_def)
  qed
next
  case (JObj ps)
  have ok: "props_ok ps" "\<forall>(k, v) \<in> set ps. wf_json v"
    using JObj.prems(1) by (auto simp: wf_json_props_all)
  show ?case
  proof (cases "ps = []")
    case True
    with JObj.prems show ?thesis by (cases f) (simp_all add: wrap_def)
  next
    case False
    define w' where "w' = (if gap = [] then [] else 10 # ind @ gap)"
    define w'' where "w'' = (if gap = [] then [] else 10 # ind)"
    define sp where "sp = (if gap = [] then [] else [32 :: unit16])"
    define t where "t = (\<lambda>(k, v). quote_string k @ 58 # sp @ ser gap (ind @ gap) v)"
    have ws: "all_ws w'" "all_ws w''" "all_ws sp" using JObj.prems by (auto simp: w'_def w''_def sp_def)
    have s: "ser gap ind (JObj ps) = 123 # w' @ join_with (44 # w') (map t ps) @ w'' @ [125]"
      using False by (simp add: ser_props_map wrap_def w'_def w''_def sp_def t_def)
    from JObj.prems(6) obtain g where f: "f = Suc g" unfolding s by (cases f) auto
    define body where "body = w' @ join_with (44 # w') (map t ps) @ w'' @ 125 # r"
    have len: "length (join_with (44 # w') (map t ps)) < g"
      using JObj.prems(6) unfolding s f by simp
    have IH: "parse_value f (w @ ser gap (ind @ gap) v @ r) = Some (via_text v, r)"
      if "(k, v) \<in> set ps" "all_ws w" "ends_value r" "length (ser gap (ind @ gap) v) \<le> f" for k v w f r
      using that ok JObj.prems by (intro JObj.IH [of "(k, v)"]) auto
    have members: "parse_members g body = Some (map (\<lambda>(k, v). (k, via_text v)) ps, r)"
      unfolding body_def t_def
      using False ws len by (intro parse_members_join) (auto simp: t_def intro!: IH)
    obtain p qs where "ps = p # qs" using False by (cases ps) auto
    then have "hd (skip_ws body) \<noteq> 125"
      using ws by (cases qs; cases p) (simp_all add: body_def t_def quote_string_def)
    moreover have "props_ok (map (\<lambda>(k, v). (k, via_text v)) ps)"
      using ok(1) by (simp add: props_ok_def case_prod_beta' comp_def)
    ultimately show ?thesis
      using members JObj.prems(4) unfolding s f
      by (simp add: put_all_id via_text_props_map flip: body_def)
  qed
next
  case (JStr u)
  then have "0 < f" by (simp add: quote_string_def)
  with JStr show ?case by (simp add: parse_literal)
qed (auto simp: parse_literal del: parse_value.simps)

subsection \<open>The recursion bound never decides\<close>

lemma skip_ws_length: "length (skip_ws s) \<le> length s"
  by (simp add: skip_ws_def length_dropWhile_le)

lemma skip_ws_shorter: "skip_ws s = c # r \<Longrightarrow> length r < length s"
  using skip_ws_length [of s] by simp

lemma strip_prefix_shorter: "p \<noteq> [] \<Longrightarrow> strip_prefix p s = Some r \<Longrightarrow> length r < length s"
  by (auto simp: strip_prefix_def split: if_splits) (metis Suc_leI diff_less length_0_conv length_greater_0_conv take_Nil)

lemma scan_exponent_shorter: "length (snd (scan_exponent s)) \<le> length s"
proof -
  have *: "length (dropWhile is_digit t) \<le> length t" for t by (rule length_dropWhile_le)
  show ?thesis
    by (auto simp: scan_exponent_def Let_def split: list.splits intro: le_trans [OF *])
qed

lemma parse_json_number_shorter:
  assumes "parse_json_number s = Some (x, r)"
  shows "length r < length s"
proof -
  obtain neg t where t: "strip_minus s = (neg, t)" by fastforce
  obtain ip fp ex rest where sc: "scan_decimal t = (ip, fp, ex, rest)" by (metis surj_pair)
  with assms t have r: "ip \<noteq> []" "rest = r"
    by (auto simp: parse_json_number_def split: if_split_asm)
  have "length t \<le> length s" using t by (auto simp: strip_minus_def split: list.splits if_splits)
  moreover have "length rest < length t"
  proof -
    have "length t = length (takeWhile is_digit t) + length (dropWhile is_digit t)"
      by (metis length_append takeWhile_dropWhile_id)
    moreover have "ip = takeWhile is_digit t \<and> length rest \<le> length (dropWhile is_digit t)"
    proof -
      define s1 where "s1 = dropWhile is_digit t"
      obtain fp' s2 where s2: "(case s1 of [] \<Rightarrow> (None, s1)
          | c # r \<Rightarrow> if c = 46 then (Some (takeWhile is_digit r), dropWhile is_digit r) else (None, s1))
          = (fp', s2)" by fastforce
      obtain ex' s3 where s3: "scan_exponent s2 = (ex', s3)" by fastforce
      have "length s2 \<le> length s1"
        using s2 length_dropWhile_le by (auto split: list.splits if_splits intro: le_SucI)
      moreover have "length s3 \<le> length s2" using scan_exponent_shorter [of s2] s3 by simp
      moreover have "ip = takeWhile is_digit t" "rest = s3"
        using sc unfolding scan_decimal_def Let_def s1_def [symmetric] s2 by (simp_all add: s3)
      ultimately show ?thesis by (simp add: s1_def)
    qed
    ultimately show ?thesis using r by (cases "takeWhile is_digit t") auto
  qed
  ultimately show ?thesis using r by simp
qed

lemma parse_shorter:
  "parse_value f s = Some (j, r) \<Longrightarrow> length r < length s"
  "parse_elems f s = Some (xs, r) \<Longrightarrow> length r < length s"
  "parse_members f s = Some (ps, r) \<Longrightarrow> length r < length s"
proof (induction f s and f s and f s arbitrary: j r and xs r and ps r
    rule: parse_value_parse_elems_parse_members.induct)
  case (2 f s)
  show ?case
  proof (cases "skip_ws s")
    case Nil
    with "2.prems" show ?thesis by simp
  next
    case (Cons c t)
    have s: "length t < length s" using Cons by (rule skip_ws_shorter)
    have t: "length (skip_ws t) \<le> length t" by (rule skip_ws_length)
    have m: "length u < length t" if "c = 123" "\<not> (skip_ws t \<noteq> [] \<and> hd (skip_ws t) = 125)"
        "parse_members f t = Some (ps, u)" for ps u
      using "2.IH"(1) [OF Cons that(1,2,3)] .
    have e: "length u < length t" if "c = 91" "\<not> (skip_ws t \<noteq> [] \<and> hd (skip_ws t) = 93)"
        "parse_elems f t = Some (xs, u)" for xs u
      using "2.IH"(2) [OF Cons _ that(1,2,3)] that(1) by simp
    have lits: "js ''true'' \<noteq> []" "js ''false'' \<noteq> []" "js ''null'' \<noteq> []" by simp_all
    from "2.prems" s t show ?thesis
      by (auto simp: Cons split: if_split_asm dest!: parse_units_length parse_json_number_shorter
          strip_prefix_shorter [OF lits(1)] strip_prefix_shorter [OF lits(2)] strip_prefix_shorter [OF lits(3)]
          dest: m e)
  qed
next
  case (4 f s)
  then show ?case
    by (auto split: option.splits list.splits if_splits dest!: skip_ws_shorter) (meson less_trans)
next
  case (6 f s)
  then show ?case
    by (auto split: option.splits list.splits if_splits dest!: skip_ws_shorter parse_units_length)
      (meson less_trans)+
qed simp_all

text \<open>More fuel than twice the length changes nothing.\<close>

lemma parse_fuel_step:
  "(2 * length s < f \<longrightarrow> parse_value (Suc f) s = parse_value f s)
   \<and> (2 * length s + 1 < f \<longrightarrow> parse_elems (Suc f) s = parse_elems f s)
   \<and> (2 * length s < f \<longrightarrow> parse_members (Suc f) s = parse_members f s)"
proof (induction f arbitrary: s)
  case 0
  then show ?case by simp
next
  case (Suc f)
  have v: "parse_value (Suc f) t = parse_value f t" if "2 * length t < f" for t
    using Suc.IH that by blast
  have e: "parse_elems (Suc f) t = parse_elems f t" if "2 * length t + 1 < f" for t
    using Suc.IH that by blast
  have m: "parse_members (Suc f) t = parse_members f t" if "2 * length t < f" for t
    using Suc.IH that by blast
  have "parse_value (Suc (Suc f)) s = parse_value (Suc f) s" if len: "2 * length s < Suc f"
  proof (cases "skip_ws s")
    case (Cons c t)
    then have "length t < length s" by (rule skip_ws_shorter)
    with len e m Cons show ?thesis by (simp del: parse_elems.simps parse_members.simps)
  qed simp
  moreover have "parse_elems (Suc (Suc f)) s = parse_elems (Suc f) s" if len: "2 * length s + 1 < Suc f"
  proof -
    have "parse_elems (Suc f) t = parse_elems f t" if "parse_value f s = Some (x, u)" "skip_ws u = c # t" for x u c t
      using parse_shorter(1) [OF that(1)] skip_ws_shorter [OF that(2)] len by (intro e) linarith
    then show ?thesis using v [of s] len
      by (simp del: parse_value.simps split: option.splits list.splits)
  qed
  moreover have "parse_members (Suc (Suc f)) s = parse_members (Suc f) s" if len: "2 * length s < Suc f"
  proof -
    have val: "parse_value (Suc f) u = parse_value f u"
      if "skip_ws s = q # r" "parse_units r = Some (k, t)" "skip_ws t = c # u" for q r k t c u
      using skip_ws_shorter [OF that(1)] parse_units_length [OF that(2)] skip_ws_shorter [OF that(3)] len
      by (intro v) linarith
    have mem: "parse_members (Suc f) y = parse_members f y"
      if "skip_ws s = q # r" "parse_units r = Some (k, t)" "skip_ws t = c # u"
        "parse_value f u = Some (x, w)" "skip_ws w = d # y" for q r k t c u x w d y
      using skip_ws_shorter [OF that(1)] parse_units_length [OF that(2)] skip_ws_shorter [OF that(3)]
        parse_shorter(1) [OF that(4)] skip_ws_shorter [OF that(5)] len
      by (intro m) linarith
    show ?thesis
      by (simp add: val mem del: parse_value.simps parse_members.simps(2)
          add: parse_members.simps(2) [of "Suc f" s] parse_members.simps(2) [of f s]
          split: option.splits list.splits cong: option.case_cong)
  qed
  ultimately show ?case by blast
qed
lemma parse_fuel_enough: "2 * length s < f \<Longrightarrow> parse_value (f + d) s = parse_value f s"
  by (induction d) (simp_all add: parse_fuel_step del: parse_value.simps)

text \<open>What is parsed is well formed: its numbers are doubles, its objects in property order.\<close>

lemma put_prop_values:
  "\<forall>(k, v) \<in> set ps. P v \<Longrightarrow> P v \<Longrightarrow> \<forall>(k, v) \<in> set (put_prop k v ps). P v"
  by (auto simp: put_prop_def dest!: set_takeWhileD set_dropWhileD split: if_split_asm)

lemma put_all_values:
  "\<forall>(k, v) \<in> set ps. P v \<Longrightarrow> \<forall>(k, v) \<in> set qs. P v \<Longrightarrow> \<forall>(k, v) \<in> set (put_all ps qs). P v"
proof (induction qs arbitrary: ps)
  case Nil
  then show ?case by (simp add: put_all_def)
next
  case (Cons q qs)
  obtain k v where q: "q = (k, v)" by fastforce
  have "\<forall>(k, v) \<in> set (put_prop k v ps). P v"
    using Cons.prems by (intro put_prop_values) (auto simp: q)
  with Cons.IH [of "put_prop k v ps"] Cons.prems show ?case by (simp add: put_all_def q)
qed

lemma wf_parse:
  "parse_value f s = Some (j, r) \<Longrightarrow> wf_json j"
  "parse_elems f s = Some (xs, r) \<Longrightarrow> \<forall>x \<in> set xs. wf_json x"
  "parse_members f s = Some (ps, r) \<Longrightarrow> \<forall>(k, v) \<in> set ps. wf_json v"
proof (induction f s and f s and f s arbitrary: j r and xs r and ps r
    rule: parse_value_parse_elems_parse_members.induct)
  case (2 f s)
  show ?case
  proof (cases "skip_ws s")
    case Nil
    with "2.prems" show ?thesis by simp
  next
    case (Cons c t)
    have m: "wf_json (JObj (put_all [] ps))" if "c = 123" "\<not> (skip_ws t \<noteq> [] \<and> hd (skip_ws t) = 125)"
        "parse_members f t = Some (ps, u)" for ps u
      using "2.IH"(1) [OF Cons that(1,2,3)] put_all_values [of "[]" wf_json ps]
      by (simp add: wf_json_props_all)
    have e: "\<forall>x \<in> set xs. wf_json x" if "c = 91" "\<not> (skip_ws t \<noteq> [] \<and> hd (skip_ws t) = 93)"
        "parse_elems f t = Some (xs, u)" for xs u
      using "2.IH"(2) [OF Cons _ that(1,2,3)] that(1) by simp
    from "2.prems" show ?thesis
      by (auto simp: Cons split: if_split_asm dest!: wf_parse_json_number dest: m e)
  qed
next
  case (4 f s)
  then show ?case
    by (auto split: option.splits list.splits if_splits)
next
  case (6 f s)
  then show ?case
    by (auto split: option.splits list.splits if_splits) fastforce+
qed simp_all

declare parse_value.simps [simp del] parse_elems.simps [simp del] parse_members.simps [simp del]

lemma wf_json_parse: "json_parse s = Some j \<Longrightarrow> wf_json j"
  by (auto simp: json_parse_def wf_parse(1) split: option.splits prod.splits if_splits)

subsection \<open>Round trips\<close>

lemma json_parse_ser:
  assumes "wf_json j" "all_ws gap"
  shows "json_parse (ser gap [] j) = Some (via_text j)"
  using parse_ser [OF assms(1,2), of "[]" "[]" "[]" "2 * length (ser gap [] j) + 2"]
  by (simp add: json_parse_def)

lemma json_parse_text [simp]: "wf_json j \<Longrightarrow> json_parse (json_text j) = Some (via_text j)"
  by (simp add: json_text_def json_parse_ser)

lemma json_parse_pretty [simp]: "wf_json j \<Longrightarrow> json_parse (json_pretty j) = Some (via_text j)"
  by (simp add: json_pretty_def json_parse_ser)

lemma via_text_idem [simp]: "via_text (via_text j) = via_text j"
  and via_text_props_idem [simp]: "via_text_props (via_text_props ps) = via_text_props ps"
proof (induction j and ps rule: via_text_via_text_props.induct)
  case (1 x)
  then show ?case
  proof (cases x)
    case (Fin neg m e)
    then show ?thesis by (cases "m = 0") (simp_all add: zero_def)
  qed simp_all
qed auto

lemma ser_via_text [simp]:
  "ser gap ind (via_text j) = ser gap ind j"
  "ser_props gap ind (via_text_props ps) = ser_props gap ind ps"
proof (induction gap ind j and gap ind ps rule: ser_ser_props.induct)
  case (3 gap ind x)
  then show ?case
  proof (cases x)
    case (Fin neg m e)
    then show ?thesis
      using num_to_string_unsigned_zero [of x] by (cases "m = 0") (simp_all add: zero_def)
  qed simp_all
qed (auto cong: map_cong)

lemma json_text_via_text [simp]: "json_text (via_text j) = json_text j"
  and json_pretty_via_text [simp]: "json_pretty (via_text j) = json_pretty j"
  by (simp_all add: json_text_def json_pretty_def)

text \<open>A tree that a text can denote unchanged.\<close>

lemma wf_via_text [simp]:
  "wf_json j \<Longrightarrow> wf_json (via_text j)"
  "wf_json_props ps \<Longrightarrow> wf_json_props (via_text_props ps)"
proof (induction j and ps rule: via_text_via_text_props.induct)
  case (1 x)
  then show ?case by (cases x) (auto split: jnum.splits)
next
  case (3 ps)
  then show ?case by (auto simp: props_ok_def via_text_props_map case_prod_beta' comp_def)
qed auto

end
