(* ===== verification/Values.thy ===== *)
theory Values
  imports Json
begin

section \<open>Values: the heap of objects, conversions, \<open>JSON\<close> on the heap\<close>

text \<open>
  The values of the language that the code passes around.  Objects and arrays live on a heap and
  are values by reference, so aliasing and in-place updates (\<open>obj[id] = val\<close>) are visible;
  \<open>JSON.stringify\<close> walks the heap and refuses a cycle, \<open>JSON.parse\<close> allocates.
\<close>

datatype val = Undefined | Null | Bool bool | Num jnum | Str jstr | Ref nat

datatype obj = Obj "(jstr \<times> val) list" | Arr "val list"

type_synonym heap = "obj list"

text \<open>The part of a heap that every operation keeps: references are live, tables are ordered.\<close>

fun val_ok :: "nat \<Rightarrow> val \<Rightarrow> bool" where
  "val_ok n (Ref r) \<longleftrightarrow> r < n"
| "val_ok n (Num x) \<longleftrightarrow> wf_num x"
| "val_ok n _ \<longleftrightarrow> True"

fun obj_ok :: "nat \<Rightarrow> obj \<Rightarrow> bool" where
  "obj_ok n (Obj ps) \<longleftrightarrow> props_ok ps \<and> (\<forall>(k, v) \<in> set ps. val_ok n v)"
| "obj_ok n (Arr vs) \<longleftrightarrow> (\<forall>v \<in> set vs. val_ok n v)"

definition heap_ok :: "heap \<Rightarrow> bool" where
  "heap_ok h \<longleftrightarrow> (\<forall>i < length h. obj_ok (length h) (h ! i))"

subsection \<open>Conversions\<close>

text \<open>
  \<open>Array.prototype.toString\<close> joins the elements with commas, \<open>null\<close> and \<open>undefined\<close> as empty
  texts; an array met again inside itself gives the empty text, as the engines do.
\<close>

function to_text :: "heap \<Rightarrow> nat list \<Rightarrow> val \<Rightarrow> jstr"
  and to_texts :: "heap \<Rightarrow> nat list \<Rightarrow> val list \<Rightarrow> jstr list" where
  "to_text h st Undefined = js ''undefined''"
| "to_text h st Null = js ''null''"
| "to_text h st (Bool b) = (if b then js ''true'' else js ''false'')"
| "to_text h st (Num x) = num_to_string x"
| "to_text h st (Str s) = s"
| "to_text h st (Ref r) =
     (if r < length h \<and> r \<notin> set st
      then case h ! r of Obj _ \<Rightarrow> js ''[object Object]''
                       | Arr vs \<Rightarrow> join_with [44] (to_texts h (r # st) vs)
      else [])"
| "to_texts h st [] = []"
| "to_texts h st (v # vs) =
     (if v = Null \<or> v = Undefined then [] else to_text h st v) # to_texts h st vs"
  by pat_completeness auto
termination
proof (relation "measures
    [\<lambda>x. case x of Inl (h, st, _) \<Rightarrow> card ({..<length h} - set st) | Inr (h, st, _) \<Rightarrow> card ({..<length h} - set st),
     \<lambda>x. case x of Inl _ \<Rightarrow> 0 | Inr (_, _, vs) \<Rightarrow> Suc (length vs)]", goal_cases)
  case (2 h st r vs)
  then have "card ({..<length h} - insert r (set st)) < card ({..<length h} - set st)"
    by (intro psubset_card_mono) auto
  then show ?case by simp
qed auto

definition to_string :: "heap \<Rightarrow> val \<Rightarrow> jstr" where
  "to_string h v = to_text h [] v"

definition to_number :: "heap \<Rightarrow> val \<Rightarrow> jnum" where
  "to_number h v =
     (case v of Undefined \<Rightarrow> NaN | Null \<Rightarrow> zero
      | Bool b \<Rightarrow> (if b then round_num False 1 1 else zero)
      | Num x \<Rightarrow> x | Str s \<Rightarrow> string_to_num s | Ref _ \<Rightarrow> string_to_num (to_string h v))"

definition positive :: "jnum \<Rightarrow> bool" where
  "positive x \<longleftrightarrow> (case x of NaN \<Rightarrow> False | Inf neg \<Rightarrow> \<not> neg | Fin neg m e \<Rightarrow> \<not> neg \<and> 0 < m)"

definition truthy :: "val \<Rightarrow> bool" where
  "truthy v \<longleftrightarrow>
     (case v of Undefined \<Rightarrow> False | Null \<Rightarrow> False | Bool b \<Rightarrow> b | Str s \<Rightarrow> s \<noteq> [] | Ref _ \<Rightarrow> True
      | Num x \<Rightarrow> (case x of NaN \<Rightarrow> False | Inf _ \<Rightarrow> True | Fin _ m _ \<Rightarrow> 0 < m))"

definition nullish :: "val \<Rightarrow> bool" where
  "nullish v \<longleftrightarrow> v = Undefined \<or> v = Null"

subsection \<open>\<open>JSON.stringify\<close>\<close>

text \<open>
  The tree a value denotes: \<open>undefined\<close> has none, is left out of objects and becomes \<open>null\<close> in
  arrays; an object met again below itself is a \<open>TypeError\<close>.  The second argument is the stack
  of objects being visited.
\<close>

function tree :: "heap \<Rightarrow> nat list \<Rightarrow> val \<Rightarrow> exn + json option"
  and tree_elems :: "heap \<Rightarrow> nat list \<Rightarrow> val list \<Rightarrow> exn + json list"
  and tree_props :: "heap \<Rightarrow> nat list \<Rightarrow> (jstr \<times> val) list \<Rightarrow> exn + (jstr \<times> json) list" where
  "tree h st Undefined = Inr None"
| "tree h st Null = Inr (Some JNull)"
| "tree h st (Bool b) = Inr (Some (JBool b))"
| "tree h st (Num x) = Inr (Some (JNum x))"
| "tree h st (Str s) = Inr (Some (JStr s))"
| "tree h st (Ref r) =
     (if r < length h \<and> r \<notin> set st
      then case h ! r of
             Obj ps \<Rightarrow> map_sum id (\<lambda>qs. Some (JObj qs)) (tree_props h (r # st) ps)
           | Arr vs \<Rightarrow> map_sum id (\<lambda>xs. Some (JArr xs)) (tree_elems h (r # st) vs)
      else Inl TypeError)"
| "tree_elems h st [] = Inr []"
| "tree_elems h st (v # vs) =
     (case tree h st v of
        Inl e \<Rightarrow> Inl e
      | Inr j \<Rightarrow> map_sum id (\<lambda>xs. (case j of None \<Rightarrow> JNull | Some x \<Rightarrow> x) # xs) (tree_elems h st vs))"
| "tree_props h st [] = Inr []"
| "tree_props h st (p # ps) =
     (case tree h st (snd p) of
        Inl e \<Rightarrow> Inl e
      | Inr j \<Rightarrow> map_sum id (\<lambda>qs. (case j of None \<Rightarrow> qs | Some x \<Rightarrow> (fst p, x) # qs)) (tree_props h st ps))"
  by pat_completeness auto
termination
proof (relation "measures
    [\<lambda>x. case x of Inl (h, st, _) \<Rightarrow> card ({..<length h} - set st)
       | Inr (Inl (h, st, _)) \<Rightarrow> card ({..<length h} - set st)
       | Inr (Inr (h, st, _)) \<Rightarrow> card ({..<length h} - set st),
     \<lambda>x. case x of Inl _ \<Rightarrow> 0 | Inr (Inl (_, _, vs)) \<Rightarrow> Suc (length vs)
       | Inr (Inr (_, _, ps)) \<Rightarrow> Suc (length ps)]", goal_cases)
  case (2 h st r ps)
  then have "card ({..<length h} - insert r (set st)) < card ({..<length h} - set st)"
    by (intro psubset_card_mono) auto
  then show ?case by simp
next
  case (3 h st r vs)
  then have "card ({..<length h} - insert r (set st)) < card ({..<length h} - set st)"
    by (intro psubset_card_mono) auto
  then show ?case by simp
qed auto

text \<open>\<open>JSON.stringify(v)\<close>: a text, or \<open>undefined\<close>.\<close>

definition stringify :: "heap \<Rightarrow> val \<Rightarrow> exn + val" where
  "stringify h v =
     map_sum id (\<lambda>j. case j of None \<Rightarrow> Undefined | Some x \<Rightarrow> Str (json_text x)) (tree h [] v)"

definition stringify2 :: "heap \<Rightarrow> val \<Rightarrow> exn + val" where
  "stringify2 h v =
     map_sum id (\<lambda>j. case j of None \<Rightarrow> Undefined | Some x \<Rightarrow> Str (json_pretty x)) (tree h [] v)"

subsection \<open>\<open>JSON.parse\<close>\<close>

text \<open>The objects of a parsed tree are new.\<close>

fun build :: "json \<Rightarrow> heap \<Rightarrow> val \<times> heap"
  and build_elems :: "json list \<Rightarrow> heap \<Rightarrow> val list \<times> heap"
  and build_props :: "(jstr \<times> json) list \<Rightarrow> heap \<Rightarrow> (jstr \<times> val) list \<times> heap" where
  "build JNull h = (Null, h)"
| "build (JBool b) h = (Bool b, h)"
| "build (JNum x) h = (Num x, h)"
| "build (JStr s) h = (Str s, h)"
| "build (JArr xs) h = (case build_elems xs h of (vs, h') \<Rightarrow> (Ref (length h'), h' @ [Arr vs]))"
| "build (JObj ps) h = (case build_props ps h of (qs, h') \<Rightarrow> (Ref (length h'), h' @ [Obj qs]))"
| "build_elems [] h = ([], h)"
| "build_elems (x # xs) h =
     (case build x h of (v, h') \<Rightarrow> case build_elems xs h' of (vs, h'') \<Rightarrow> (v # vs, h''))"
| "build_props [] h = ([], h)"
| "build_props ((k, x) # ps) h =
     (case build x h of (v, h') \<Rightarrow> case build_props ps h' of (qs, h'') \<Rightarrow> ((k, v) # qs, h''))"

text \<open>\<open>JSON.parse(v)\<close>: the argument is first made a string.\<close>

definition parse_json :: "heap \<Rightarrow> val \<Rightarrow> exn + (val \<times> heap)" where
  "parse_json h v =
     (case json_parse (to_string h v) of None \<Rightarrow> Inl SyntaxError | Some j \<Rightarrow> Inr (build j h))"

subsection \<open>Stringify after parse\<close>

lemma build_extends:
  "build j h = (v, h') \<Longrightarrow> \<exists>new. h' = h @ new"
  "build_elems xs h = (vs, h') \<Longrightarrow> \<exists>new. h' = h @ new"
  "build_props ps h = (qs, h') \<Longrightarrow> \<exists>new. h' = h @ new"
proof (induction j h and xs h and ps h arbitrary: v h' and vs h' and qs h'
    rule: build_build_elems_build_props.induct)
  case (5 xs h)
  then show ?case by (fastforce split: prod.splits)
next
  case (6 ps h)
  then show ?case by (fastforce split: prod.splits)
next
  case (8 x xs h)
  then show ?case by (fastforce split: prod.splits)
next
  case (10 k x ps h)
  then show ?case by (fastforce split: prod.splits)
qed auto

lemma build_grows:
  "build j h = (v, h') \<Longrightarrow> length h \<le> length h'"
  "build_elems xs h = (vs, h') \<Longrightarrow> length h \<le> length h'"
  "build_props ps h = (qs, h') \<Longrightarrow> length h \<le> length h'"
  using build_extends by fastforce+

text \<open>What is built depends on the size of the heap only.\<close>

lemma build_shift:
  "build j h = (v, h @ n) \<Longrightarrow> length g = length h \<Longrightarrow> build j g = (v, g @ n)"
  "build_elems xs h = (vs, h @ n) \<Longrightarrow> length g = length h \<Longrightarrow> build_elems xs g = (vs, g @ n)"
  "build_props ps h = (qs, h @ n) \<Longrightarrow> length g = length h \<Longrightarrow> build_props ps g = (qs, g @ n)"
proof (induction j h and xs h and ps h arbitrary: v n g and vs n g and qs n g
    rule: build_build_elems_build_props.induct)
  case (5 xs h)
  obtain vs h1 where b: "build_elems xs h = (vs, h1)" by fastforce
  obtain m where m: "h1 = h @ m" using build_extends(2) [OF b] by blast
  show ?case using "5.IH" [OF b [unfolded m] "5.prems"(2)] "5.prems" by (auto simp: b m)
next
  case (6 ps h)
  obtain qs h1 where b: "build_props ps h = (qs, h1)" by fastforce
  obtain m where m: "h1 = h @ m" using build_extends(3) [OF b] by blast
  show ?case using "6.IH" [OF b [unfolded m] "6.prems"(2)] "6.prems" by (auto simp: b m)
next
  case (8 x xs h)
  obtain y h1 where x: "build x h = (y, h1)" by fastforce
  obtain ys h2 where xs: "build_elems xs h1 = (ys, h2)" by fastforce
  obtain a b where m: "h1 = h @ a" "h2 = h1 @ b" using build_extends(1) [OF x] build_extends(2) [OF xs] by blast
  have "build x g = (y, g @ a)" using "8.IH"(1) [of y a g] x "8.prems"(2) m by simp
  moreover have "build_elems xs (g @ a) = (ys, (g @ a) @ b)"
    using "8.IH"(2) [OF x [symmetric], of ys b "g @ a"] xs "8.prems"(2) m by simp
  ultimately show ?case using "8.prems"(1) xs by (simp add: x m)
next
  case (10 k x ps h)
  obtain y h1 where x: "build x h = (y, h1)" by fastforce
  obtain ys h2 where ps: "build_props ps h1 = (ys, h2)" by fastforce
  obtain a b where m: "h1 = h @ a" "h2 = h1 @ b" using build_extends(1) [OF x] build_extends(3) [OF ps] by blast
  have "build x g = (y, g @ a)" using "10.IH"(1) [of y a g] x "10.prems"(2) m by simp
  moreover have "build_props ps (g @ a) = (ys, (g @ a) @ b)"
    using "10.IH"(2) [OF x [symmetric], of ys b "g @ a"] ps "10.prems"(2) m by simp
  ultimately show ?case using "10.prems"(1) ps by (simp add: x m)
qed auto

text \<open>What was built is read back as the tree it was built from, however the heap grows after.\<close>

lemma tree_build:
  "build j h = (v, h') \<Longrightarrow> \<forall>r \<in> set st. r < length h \<or> length h' \<le> r \<Longrightarrow>
     tree (h' @ ext) st v = Inr (Some j)"
  "build_elems xs h = (vs, h') \<Longrightarrow> \<forall>r \<in> set st. r < length h \<or> length h' \<le> r \<Longrightarrow>
     tree_elems (h' @ ext) st vs = Inr xs"
  "build_props ps h = (qs, h') \<Longrightarrow> \<forall>r \<in> set st. r < length h \<or> length h' \<le> r \<Longrightarrow>
     tree_props (h' @ ext) st qs = Inr ps"
proof (induction j h and xs h and ps h arbitrary: v h' st ext and vs h' st ext and qs h' st ext
    rule: build_build_elems_build_props.induct)
  case (5 xs h)
  obtain vs h1 where b: "build_elems xs h = (vs, h1)" by fastforce
  with "5.prems" have v: "v = Ref (length h1)" "h' = h1 @ [Arr vs]" by auto
  have "tree_elems (h1 @ [Arr vs] @ ext) (length h1 # st) vs = Inr xs"
    using "5.prems"(2) v build_grows(2) [OF b] by (intro "5.IH" [OF b]) auto
  moreover have "length h1 \<notin> set st"
    using "5.prems"(2) v build_grows(2) [OF b] by auto
  ultimately show ?case using v by (simp add: nth_append)
next
  case (6 ps h)
  obtain qs h1 where b: "build_props ps h = (qs, h1)" by fastforce
  with "6.prems" have v: "v = Ref (length h1)" "h' = h1 @ [Obj qs]" by auto
  have "tree_props (h1 @ [Obj qs] @ ext) (length h1 # st) qs = Inr ps"
    using "6.prems"(2) v build_grows(3) [OF b] by (intro "6.IH" [OF b]) auto
  moreover have "length h1 \<notin> set st"
    using "6.prems"(2) v build_grows(3) [OF b] by auto
  ultimately show ?case using v by (simp add: nth_append)
next
  case (8 x xs h)
  obtain y h1 where x: "build x h = (y, h1)" by fastforce
  obtain ys h2 where xs: "build_elems xs h1 = (ys, h2)" by fastforce
  from "8.prems"(1) x xs have v: "vs = y # ys" "h' = h2" by auto
  obtain n where n: "h2 = h1 @ n" using build_extends(2) [OF xs] by blast
  have "tree (h1 @ n @ ext) st y = Inr (Some x)"
    using "8.prems"(2) v n by (intro "8.IH"(1) [OF x]) auto
  moreover have "tree_elems (h2 @ ext) st ys = Inr xs"
    using "8.prems"(2) v build_grows(1) [OF x] by (intro "8.IH"(2) [OF x [symmetric] xs]) auto
  ultimately show ?case by (simp add: v n)
next
  case (10 k x ps h)
  obtain y h1 where x: "build x h = (y, h1)" by fastforce
  obtain ys h2 where ps: "build_props ps h1 = (ys, h2)" by fastforce
  from "10.prems"(1) x ps have v: "qs = (k, y) # ys" "h' = h2" by auto
  obtain n where n: "h2 = h1 @ n" using build_extends(3) [OF ps] by blast
  have "tree (h1 @ n @ ext) st y = Inr (Some x)"
    using "10.prems"(2) v n by (intro "10.IH"(1) [OF x]) auto
  moreover have "tree_props (h2 @ ext) st ys = Inr ps"
    using "10.prems"(2) v build_grows(1) [OF x] by (intro "10.IH"(2) [OF x [symmetric] ps]) auto
  ultimately show ?case by (simp add: v n)
qed auto

text \<open>The new objects refer to new objects only.\<close>

fun val_refs :: "val \<Rightarrow> nat set" where
  "val_refs (Ref r) = {r}"
| "val_refs _ = {}"

fun obj_refs :: "obj \<Rightarrow> nat set" where
  "obj_refs (Obj ps) = (\<Union>(k, v) \<in> set ps. val_refs v)"
| "obj_refs (Arr vs) = (\<Union>v \<in> set vs. val_refs v)"

inductive reaches :: "heap \<Rightarrow> val \<Rightarrow> nat \<Rightarrow> bool" for h v where
  here: "r \<in> val_refs v \<Longrightarrow> reaches h v r"
| below: "reaches h v r \<Longrightarrow> r < length h \<Longrightarrow> r' \<in> obj_refs (h ! r) \<Longrightarrow> reaches h v r'"

lemma build_fresh:
  "build j h = (v, h') \<Longrightarrow> val_refs v \<subseteq> {length h..<length h'} \<and>
     (\<forall>i \<in> {length h..<length h'}. obj_refs (h' ! i) \<subseteq> {length h..<length h'})"
  "build_elems xs h = (vs, h') \<Longrightarrow> (\<Union>v \<in> set vs. val_refs v) \<subseteq> {length h..<length h'} \<and>
     (\<forall>i \<in> {length h..<length h'}. obj_refs (h' ! i) \<subseteq> {length h..<length h'})"
  "build_props ps h = (qs, h') \<Longrightarrow> (\<Union>(k, v) \<in> set qs. val_refs v) \<subseteq> {length h..<length h'} \<and>
     (\<forall>i \<in> {length h..<length h'}. obj_refs (h' ! i) \<subseteq> {length h..<length h'})"
proof (induction j h and xs h and ps h arbitrary: v h' and vs h' and qs h'
    rule: build_build_elems_build_props.induct)
  case (5 xs h)
  obtain vs h1 where b: "build_elems xs h = (vs, h1)" by fastforce
  with "5.prems" "5.IH" [OF b] build_grows(2) [OF b] show ?case
    by (fastforce simp: nth_append less_Suc_eq)
next
  case (6 ps h)
  obtain qs h1 where b: "build_props ps h = (qs, h1)" by fastforce
  with "6.prems" "6.IH" [OF b] build_grows(3) [OF b] show ?case
    by (fastforce simp: nth_append less_Suc_eq)
next
  case (8 x xs h)
  obtain y h1 where x: "build x h = (y, h1)" by fastforce
  obtain ys h2 where xs: "build_elems xs h1 = (ys, h2)" by fastforce
  obtain n where n: "h2 = h1 @ n" using build_extends(2) [OF xs] by blast
  note IH = "8.IH"(1) [OF x] "8.IH"(2) [OF x [symmetric] xs]
  have "obj_refs (h2 ! i) \<subseteq> {length h..<length h2}" if "i \<in> {length h..<length h2}" for i
    using that IH build_grows(1) [OF x] by (cases "i < length h1") (fastforce simp: n nth_append)+
  moreover have "(\<Union>v \<in> set (y # ys). val_refs v) \<subseteq> {length h..<length h2}"
    using IH build_grows(1) [OF x] by (fastforce simp: n)
  moreover have "vs = y # ys" "h' = h2" using "8.prems" x xs by auto
  ultimately show ?case by blast
next
  case (10 k x ps h)
  obtain y h1 where x: "build x h = (y, h1)" by fastforce
  obtain ys h2 where ps: "build_props ps h1 = (ys, h2)" by fastforce
  obtain n where n: "h2 = h1 @ n" using build_extends(3) [OF ps] by blast
  note IH = "10.IH"(1) [OF x] "10.IH"(2) [OF x [symmetric] ps]
  have "obj_refs (h2 ! i) \<subseteq> {length h..<length h2}" if "i \<in> {length h..<length h2}" for i
    using that IH build_grows(1) [OF x] by (cases "i < length h1") (fastforce simp: n nth_append)+
  moreover have "(\<Union>(k, v) \<in> set ((k, y) # ys). val_refs v) \<subseteq> {length h..<length h2}"
    using IH build_grows(1) [OF x] by (fastforce simp: n)
  moreover have "qs = (k, y) # ys" "h' = h2" using "10.prems" x ps by auto
  ultimately show ?case by blast
qed auto

lemma build_reaches:
  assumes "build j h = (v, h')" "reaches h' v r"
  shows "length h \<le> r \<and> r < length h'"
  using assms(2)
proof (induction rule: reaches.induct)
  case (here r)
  with build_fresh(1) [OF assms(1)] show ?case by auto
next
  case (below r r')
  with build_fresh(1) [OF assms(1)] show ?case by fastforce
qed

subsection \<open>Well-formed heaps\<close>

lemma val_ok_mono: "val_ok n v \<Longrightarrow> n \<le> m \<Longrightarrow> val_ok m v"
  by (cases v) auto

lemma obj_ok_mono: "obj_ok n x \<Longrightarrow> n \<le> m \<Longrightarrow> obj_ok m x"
  by (cases x) (auto intro: val_ok_mono)

lemma heap_ok_snoc: "heap_ok h \<Longrightarrow> obj_ok (length h) x \<Longrightarrow> heap_ok (h @ [x])"
  by (auto simp: heap_ok_def nth_append less_Suc_eq intro: obj_ok_mono)

lemma val_ok_refs: "val_ok n v \<Longrightarrow> val_refs v \<subseteq> {..<n}"
  by (cases v) auto

lemma obj_ok_refs: "obj_ok n x \<Longrightarrow> obj_refs x \<subseteq> {..<n}"
  using val_ok_refs by (cases x) fastforce+

lemma props_ok_Cons:
  "props_ok ((k, v) # ps) \<longleftrightarrow>
     k \<notin> fst ` set ps \<and> (\<forall>k' \<in> fst ` set ps. key_before k k') \<and> props_ok ps"
  by (auto simp: props_ok_def)

lemma props_ok_keys: "map fst qs = map fst ps \<Longrightarrow> props_ok qs = props_ok ps"
  by (simp add: props_ok_def)

lemma wf_tree:
  assumes "heap_ok h"
  shows "val_ok (length h) v \<Longrightarrow> tree h st v = Inr (Some j) \<Longrightarrow> wf_json j"
    and "\<forall>v \<in> set vs. val_ok (length h) v \<Longrightarrow> tree_elems h st vs = Inr xs \<Longrightarrow>
     \<forall>x \<in> set xs. wf_json x"
    and "\<forall>p \<in> set ps. val_ok (length h) (snd p) \<Longrightarrow> tree_props h st ps = Inr qs \<Longrightarrow>
     wf_json_props qs \<and> fst ` set qs \<subseteq> fst ` set ps \<and> (props_ok ps \<longrightarrow> props_ok qs)"
  using assms
proof (induction h st v and h st vs and h st ps arbitrary: j and xs and qs
    rule: tree_tree_elems_tree_props.induct)
  case (6 h st r)
  have r: "r < length h \<and> r \<notin> set st" using "6.prems"(2) by (simp split: if_splits)
  have ok: "obj_ok (length h) (h ! r)" using "6.prems"(3) r by (simp add: heap_ok_def)
  show ?case
  proof (cases "h ! r")
    case (Obj ps)
    with "6.prems"(2) r obtain qs where qs: "tree_props h (r # st) ps = Inr qs" "j = JObj qs"
      by (cases "tree_props h (r # st) ps") auto
    have "\<forall>p \<in> set ps. val_ok (length h) (snd p)" "props_ok ps" using ok Obj by auto
    with "6.IH"(1) [OF r Obj _ qs(1) "6.prems"(3)] show ?thesis by (simp add: qs(2))
  next
    case (Arr vs)
    with "6.prems"(2) r obtain ys where ys: "tree_elems h (r # st) vs = Inr ys" "j = JArr ys"
      by (cases "tree_elems h (r # st) vs") auto
    have "\<forall>v \<in> set vs. val_ok (length h) v" using ok Arr by auto
    with "6.IH"(2) [OF r Arr _ ys(1) "6.prems"(3)] show ?thesis by (simp add: ys(2))
  qed
next
  case (8 h st v vs)
  obtain a ys where a: "tree h st v = Inr a" and ys: "tree_elems h st vs = Inr ys"
      and xs: "xs = (case a of None \<Rightarrow> JNull | Some x \<Rightarrow> x) # ys"
    using "8.prems"(2) by (cases "tree h st v"; cases "tree_elems h st vs") auto
  have v: "val_ok (length h) v" "\<forall>v \<in> set vs. val_ok (length h) v" using "8.prems"(1) by simp_all
  have "wf_json (case a of None \<Rightarrow> JNull | Some x \<Rightarrow> x)"
  proof (cases a)
    case (Some x)
    with a have "tree h st v = Inr (Some x)" by simp
    from "8.IH"(1) [OF v(1) this "8.prems"(3)] Some show ?thesis by simp
  qed simp
  with "8.IH"(2) [OF a v(2) ys "8.prems"(3)] show ?case by (simp add: xs)
next
  case (10 h st p ps)
  obtain a ys where a: "tree h st (snd p) = Inr a" and ys: "tree_props h st ps = Inr ys"
      and qs: "qs = (case a of None \<Rightarrow> ys | Some x \<Rightarrow> (fst p, x) # ys)"
    using "10.prems"(2) by (cases "tree h st (snd p)"; cases "tree_props h st ps") auto
  have v: "val_ok (length h) (snd p)" "\<forall>p \<in> set ps. val_ok (length h) (snd p)"
    using "10.prems"(1) by simp_all
  note IH = "10.IH"(2) [OF a v(2) ys "10.prems"(3)]
  show ?case
  proof (cases a)
    case None
    with IH show ?thesis by (cases p) (auto simp: qs props_ok_Cons)
  next
    case (Some x)
    with a have "tree h st (snd p) = Inr (Some x)" by simp
    from "10.IH"(1) [OF v(1) this "10.prems"(3)] have "wf_json x" .
    moreover have "props_ok ps \<longrightarrow> props_ok ys" "fst ` set ys \<subseteq> fst ` set ps" using IH by blast+
    then have "props_ok ((fst p, x) # ys)" if "props_ok ((fst p, u) # ps)" for u
      using that by (meson props_ok_Cons subsetD)
    then have "props_ok (p # ps) \<longrightarrow> props_ok ((fst p, x) # ys)" by (metis prod.collapse)
    moreover have "fst ` set ((fst p, x) # ys) \<subseteq> fst ` set (p # ps)" using IH by auto
    ultimately show ?thesis using IH Some by (simp add: qs)
  qed
qed auto

lemma build_ok:
  "heap_ok h \<Longrightarrow> wf_json j \<Longrightarrow> build j h = (v, h') \<Longrightarrow> heap_ok h' \<and> val_ok (length h') v"
  "heap_ok h \<Longrightarrow> \<forall>x \<in> set xs. wf_json x \<Longrightarrow> build_elems xs h = (vs, h') \<Longrightarrow>
     heap_ok h' \<and> (\<forall>v \<in> set vs. val_ok (length h') v)"
  "heap_ok h \<Longrightarrow> wf_json_props ps \<Longrightarrow> build_props ps h = (qs, h') \<Longrightarrow>
     heap_ok h' \<and> (\<forall>(k, v) \<in> set qs. val_ok (length h') v) \<and> map fst qs = map fst ps"
proof (induction j h and xs h and ps h arbitrary: v h' and vs h' and qs h'
    rule: build_build_elems_build_props.induct)
  case (5 xs h)
  obtain vs h1 where b: "build_elems xs h = (vs, h1)" by fastforce
  from "5.prems"(2) have "\<forall>x \<in> set xs. wf_json x" by simp
  note IH = "5.IH" [OF "5.prems"(1) this b]
  moreover have "v = Ref (length h1)" "h' = h1 @ [Arr vs]" using "5.prems"(3) b by auto
  ultimately show ?case by (simp add: heap_ok_snoc)
next
  case (6 ps h)
  obtain qs h1 where b: "build_props ps h = (qs, h1)" by fastforce
  from "6.prems"(2) have ok: "props_ok ps" "wf_json_props ps" by auto
  note IH = "6.IH" [OF "6.prems"(1) ok(2) b]
  then have "obj_ok (length h1) (Obj qs)" using ok(1) props_ok_keys [of qs ps] by simp
  with IH have "heap_ok (h1 @ [Obj qs])" by (simp add: heap_ok_snoc del: obj_ok.simps)
  moreover have "v = Ref (length h1)" "h' = h1 @ [Obj qs]" using "6.prems"(3) b by auto
  ultimately show ?case by simp
next
  case (8 x xs h)
  obtain y h1 where x: "build x h = (y, h1)" by fastforce
  obtain ys h2 where xs: "build_elems xs h1 = (ys, h2)" by fastforce
  from "8.prems"(2) have wf: "wf_json x" "\<forall>x \<in> set xs. wf_json x" by auto
  note IH1 = "8.IH"(1) [OF "8.prems"(1) wf(1) x]
  note IH2 = "8.IH"(2) [OF x [symmetric] conjunct1 [OF IH1] wf(2) xs]
  have "vs = y # ys" "h' = h2" using "8.prems"(3) x xs by auto
  then show ?case using IH1 IH2 val_ok_mono [OF _ build_grows(2) [OF xs]] by simp
next
  case (10 k x ps h)
  obtain y h1 where x: "build x h = (y, h1)" by fastforce
  obtain ys h2 where ps: "build_props ps h1 = (ys, h2)" by fastforce
  from "10.prems"(2) have wf: "wf_json x" "wf_json_props ps" by auto
  note IH1 = "10.IH"(1) [OF "10.prems"(1) wf(1) x]
  note IH2 = "10.IH"(2) [OF x [symmetric] conjunct1 [OF IH1] wf(2) ps]
  have "qs = (k, y) # ys" "h' = h2" using "10.prems"(3) x ps by auto
  then show ?case using IH1 IH2 val_ok_mono [OF _ build_grows(3) [OF ps]] by simp
qed auto

text \<open>Stringifying depends on the objects below the value only.\<close>

lemma tree_frame:
  assumes "\<forall>i < n. h ! i = h' ! i \<and> obj_refs (h ! i) \<subseteq> {..<n}" "n \<le> length h" "n \<le> length h'"
  shows "val_refs v \<subseteq> {..<n} \<Longrightarrow> tree h st v = tree h' st v"
    and "(\<Union>v \<in> set vs. val_refs v) \<subseteq> {..<n} \<Longrightarrow> tree_elems h st vs = tree_elems h' st vs"
    and "(\<Union>p \<in> set ps. val_refs (snd p)) \<subseteq> {..<n} \<Longrightarrow> tree_props h st ps = tree_props h' st ps"
  using assms
proof (induction h st v and h st vs and h st ps rule: tree_tree_elems_tree_props.induct)
  case (6 h st r)
  then have r: "r < n" by simp
  note same = "6.prems"(2-4)
  have hr: "h ! r = h' ! r" "obj_refs (h ! r) \<subseteq> {..<n}" using same(1) [rule_format, OF r] by blast+
  show ?case
  proof (cases "r \<in> set st")
    case False
    have r': "r < length h \<and> r \<notin> set st" using r same False by auto
    show ?thesis
    proof (cases "h ! r")
      case (Obj ps)
      with hr(2) have "(\<Union>p \<in> set ps. val_refs (snd p)) \<subseteq> {..<n}" by fastforce
      from "6.IH"(1) [OF r' Obj this same] Obj r r' hr(1) same show ?thesis by simp
    next
      case (Arr vs)
      with hr(2) have "(\<Union>v \<in> set vs. val_refs v) \<subseteq> {..<n}" by simp
      from "6.IH"(2) [OF r' Arr this same] Arr r r' hr(1) same show ?thesis by simp
    qed
  qed simp
next
  case (8 h st v vs)
  then have sub: "val_refs v \<subseteq> {..<n}" "(\<Union>v \<in> set vs. val_refs v) \<subseteq> {..<n}" by simp_all
  note same = "8.prems"(2-4)
  from "8.IH"(1) [OF sub(1) same] "8.IH"(2) [OF _ sub(2) same] show ?case
    by (cases "tree h' st v") (simp_all del: UN_subset_iff)
next
  case (10 h st p ps)
  then have sub: "val_refs (snd p) \<subseteq> {..<n}" "(\<Union>p \<in> set ps. val_refs (snd p)) \<subseteq> {..<n}" by simp_all
  note same = "10.prems"(2-4)
  from "10.IH"(1) [OF sub(1) same] "10.IH"(2) [OF _ sub(2) same] show ?case
    by (cases "tree h' st (snd p)") (simp_all del: UN_subset_iff)
qed simp_all

end
