(* ===== verification/Dom.thy ===== *)
theory Dom
  imports Values "HOL-Library.Multiset"
begin

section \<open>The document: trees of nodes, ids, classes, selectors\<close>

text \<open>
  What the code uses of the document object model.  A node is an address into a list of node
  records (its tag's role, id, classes, form state, text); the shape of the document is a tree
  of addresses, and detached subtrees are further trees.  \<open>getElementById\<close>, \<open>querySelector\<close> on
  id-and-class selectors, \<open>parentNode\<close>, \<open>appendChild\<close>, \<open>removeChild\<close> and \<open>classList\<close> follow the
  DOM standard.
\<close>

subsection \<open>Nodes\<close>

text \<open>
  The roles that decide what \<open>type\<close>, \<open>value\<close>, \<open>checked\<close> and \<open>files\<close> mean on an element:
  \<open><input>\<close> of the types the pages use, \<open><textarea>\<close>, \<open><select>\<close> with its option values, and
  everything else.
\<close>

datatype role =
  NumberInput | Checkbox | FileInput | TextInput | HiddenInput | TextArea | Select "jstr list" | Plain

record upload =
  file_name :: jstr
  file_bytes :: "8 word list"
  file_text :: jstr

record node =
  role :: role
  ident :: jstr
  classes :: "jstr list"
  attrs :: "(jstr \<times> jstr) list"
  stored :: val
  checked :: bool
  files :: "upload list"
  content :: jstr
  timeout_id :: "nat option"
  href :: jstr
  download :: jstr

definition blank :: node where
  "blank =
     \<lparr> role = Plain, ident = [], classes = [], attrs = [], stored = Undefined, checked = False,
       files = [], content = [], timeout_id = None, href = [], download = [] \<rparr>"

subsection \<open>Trees\<close>

datatype ntree = Node (root: nat) (kids: "ntree list")

text \<open>The addresses of a tree in document order.\<close>

fun addrs :: "ntree \<Rightarrow> nat list" where
  "addrs (Node a ts) = a # concat (map addrs ts)"

text \<open>The addresses and the children of a node in a forest, with the document as its first tree.\<close>

definition all_addrs :: "ntree list \<Rightarrow> nat list" where
  "all_addrs ts = concat (map addrs ts)"

fun children :: "nat \<Rightarrow> ntree \<Rightarrow> nat list" where
  "children a (Node b ts) = (if a = b then map root ts else []) @ concat (map (children a) ts)"

definition all_children :: "nat \<Rightarrow> ntree list \<Rightarrow> nat list" where
  "all_children a ts = concat (map (children a) ts)"

definition parent_of :: "nat \<Rightarrow> ntree list \<Rightarrow> nat option" where
  "parent_of a ts = find (\<lambda>b. a \<in> set (all_children b ts)) (all_addrs ts)"

text \<open>The subtree at a node, the trees without it, and a tree with a new last child of a node.\<close>

fun subtree :: "nat \<Rightarrow> ntree \<Rightarrow> ntree option" and subtree_in :: "nat \<Rightarrow> ntree list \<Rightarrow> ntree option" where
  "subtree a (Node b ts) = (if a = b then Some (Node b ts) else subtree_in a ts)"
| "subtree_in a [] = None"
| "subtree_in a (t # ts) = (case subtree a t of None \<Rightarrow> subtree_in a ts | Some u \<Rightarrow> Some u)"

fun prune :: "nat \<Rightarrow> ntree \<Rightarrow> ntree" where
  "prune a (Node b ts) = Node b (map (prune a) (filter (\<lambda>t. root t \<noteq> a) ts))"

definition prune_all :: "nat \<Rightarrow> ntree list \<Rightarrow> ntree list" where
  "prune_all a ts = map (prune a) (filter (\<lambda>t. root t \<noteq> a) ts)"

fun graft :: "nat \<Rightarrow> ntree \<Rightarrow> ntree \<Rightarrow> ntree" where
  "graft p u (Node b ts) = Node b (map (graft p u) ts @ (if b = p then [u] else []))"

subsection \<open>Trees: lemmas\<close>

lemma addrs_Node: "addrs (Node a ts) = a # all_addrs ts"
  and children_Node: "children a (Node b ts) = (if a = b then map root ts else []) @ all_children a ts"
  and prune_Node: "prune a (Node b ts) = Node b (prune_all a ts)"
  by (simp_all add: all_addrs_def all_children_def prune_all_def)

lemmas node_simps = addrs_Node children_Node prune_Node

lemma all_addrs_simps [simp]: "all_addrs [] = []" "all_addrs (t # ts) = addrs t @ all_addrs ts"
  "all_addrs (ts @ us) = all_addrs ts @ all_addrs us"
  by (simp_all add: all_addrs_def)

lemma all_children_simps [simp]: "all_children a [] = []"
  "all_children a (t # ts) = children a t @ all_children a ts"
  "all_children a (ts @ us) = all_children a ts @ all_children a us"
  by (simp_all add: all_children_def)

lemma prune_all_simps [simp]: "prune_all a [] = []"
  "prune_all a (t # ts) = (if root t = a then prune_all a ts else prune a t # prune_all a ts)"
  by (simp_all add: prune_all_def)

lemma addrs_root [simp]: "root t \<in> set (addrs t)"
  by (cases t) simp

lemma root_prune [simp]: "root (prune a t) = root t" and root_graft [simp]: "root (graft p u t) = root t"
  by (cases t; simp)+

text \<open>Induction over a tree and a list of trees at once.\<close>

lemma ntree_forest_induct [case_names Node Nil Cons]:
  assumes "\<And>a ts. Q ts \<Longrightarrow> P (Node a ts)" "Q []" "\<And>t ts. P t \<Longrightarrow> Q ts \<Longrightarrow> Q (t # ts)"
  shows "P t" and "Q ts"
proof -
  have all: "(\<And>t. t \<in> set ts \<Longrightarrow> P t) \<Longrightarrow> Q ts" for ts
    by (induction ts) (auto intro: assms)
  show P: "P t" for t by (induction t) (auto intro: assms all)
  show "Q ts" using P by (intro all)
qed

lemma graft_absent:
  "p \<notin> set (addrs t) \<Longrightarrow> graft p u t = t"
  "p \<notin> set (all_addrs ts) \<Longrightarrow> map (graft p u) ts = ts"
  by (induction t and ts rule: ntree_forest_induct) (auto simp: node_simps simp del: addrs.simps)

lemma prune_absent:
  "a \<notin> set (addrs t) \<Longrightarrow> prune a t = t"
  "a \<notin> set (all_addrs ts) \<Longrightarrow> prune_all a ts = ts"
  by (induction t and ts rule: ntree_forest_induct)
    (auto simp: node_simps simp del: addrs.simps prune.simps)

lemma children_absent:
  "a \<notin> set (addrs t) \<Longrightarrow> children a t = []"
  "a \<notin> set (all_addrs ts) \<Longrightarrow> all_children a ts = []"
  by (induction t and ts rule: ntree_forest_induct)
    (auto simp: node_simps simp del: addrs.simps children.simps)

lemma children_addrs:
  "set (children a t) \<subseteq> set (addrs t)"
  "set (all_children a ts) \<subseteq> set (all_addrs ts) \<and> root ` set ts \<subseteq> set (all_addrs ts)"
  by (induction t and ts rule: ntree_forest_induct)
    (auto simp: node_simps simp del: addrs.simps children.simps)

lemma children_tail: "set (children a (Node b ts)) \<subseteq> set (all_addrs ts)"
  using children_addrs(2) [of a ts] by (auto simp: node_simps simp del: children.simps)

lemma subtree_absent:
  "a \<notin> set (addrs t) \<longleftrightarrow> subtree a t = None"
  "a \<notin> set (all_addrs ts) \<longleftrightarrow> subtree_in a ts = None"
  by (induction t and ts rule: ntree_forest_induct)
    (auto simp: node_simps simp del: addrs.simps split: option.splits)

lemma root_subtree:
  "subtree a t = Some u \<Longrightarrow> root u = a"
  "subtree_in a ts = Some u \<Longrightarrow> root u = a"
  by (induction t and ts rule: ntree_forest_induct) (auto split: option.splits if_splits)

text \<open>Taking a subtree out splits the addresses; putting one in adds them.\<close>

lemma subtree_root [simp]: "subtree (root t) t = Some t"
  by (cases t) simp

lemma mset_prune:
  "distinct (addrs t) \<Longrightarrow> a \<noteq> root t \<Longrightarrow> subtree a t = Some u \<Longrightarrow>
     mset (addrs t) = mset (addrs u) + mset (addrs (prune a t))"
  "distinct (all_addrs ts) \<Longrightarrow> subtree_in a ts = Some u \<Longrightarrow>
     mset (all_addrs ts) = mset (addrs u) + mset (all_addrs (prune_all a ts))"
proof (induction t and ts rule: ntree_forest_induct)
  case (Cons t ts)
  show ?case
  proof (cases "subtree a t")
    case None
    then have "a \<notin> set (addrs t)" using subtree_absent(1) by blast
    then have "prune a t = t" "root t \<noteq> a" using prune_absent(1) by auto
    with Cons None show ?thesis by simp
  next
    case (Some v)
    then have "a \<in> set (addrs t)" using subtree_absent(1) [of a t] by fastforce
    then have "a \<notin> set (all_addrs ts)" using Cons.prems(1) by auto
    then have ts: "prune_all a ts = ts" using prune_absent(2) by blast
    show ?thesis
    proof (cases "root t = a")
      case True
      with Cons.prems(2) ts show ?thesis by auto
    next
      case False
      with Cons Some ts show ?thesis by auto
    qed
  qed
qed (auto simp: node_simps simp del: addrs.simps prune.simps)

lemma set_prune:
  assumes "distinct (all_addrs ts)" "subtree_in a ts = Some u"
  shows "set (all_addrs ts) = set (addrs u) \<union> set (all_addrs (prune_all a ts))"
    and "set (addrs u) \<inter> set (all_addrs (prune_all a ts)) = {}"
    and "distinct (addrs u)" and "distinct (all_addrs (prune_all a ts))"
proof -
  have m: "mset (all_addrs ts) = mset (addrs u @ all_addrs (prune_all a ts))"
    using mset_prune(2) [OF assms] by simp
  show "set (all_addrs ts) = set (addrs u) \<union> set (all_addrs (prune_all a ts))"
    using mset_eq_setD [OF m] by simp
  have "distinct (addrs u @ all_addrs (prune_all a ts))"
    using assms(1) mset_eq_imp_distinct_iff [OF m] by blast
  then show "set (addrs u) \<inter> set (all_addrs (prune_all a ts)) = {}"
    and "distinct (addrs u)" and "distinct (all_addrs (prune_all a ts))" by auto
qed

lemma mset_graft:
  "distinct (addrs t) \<Longrightarrow>
     mset (addrs (graft p u t)) = mset (addrs t) + (if p \<in> set (addrs t) then mset (addrs u) else {#})"
  "distinct (all_addrs ts) \<Longrightarrow>
     mset (all_addrs (map (graft p u) ts)) =
       mset (all_addrs ts) + (if p \<in> set (all_addrs ts) then mset (addrs u) else {#})"
proof (induction t and ts rule: ntree_forest_induct)
  case (Node a ts)
  then show ?case by (auto simp: node_simps simp del: addrs.simps)
next
  case (Cons t ts)
  then show ?case by auto
qed simp

lemma filter_prune:
  "distinct (addrs t) \<Longrightarrow> a \<noteq> root t \<Longrightarrow> subtree a t = Some u \<Longrightarrow>
     addrs (prune a t) = filter (\<lambda>x. x \<notin> set (addrs u)) (addrs t)"
  "distinct (all_addrs ts) \<Longrightarrow> subtree_in a ts = Some u \<Longrightarrow>
     all_addrs (prune_all a ts) = filter (\<lambda>x. x \<notin> set (addrs u)) (all_addrs ts)"
proof (induction t and ts rule: ntree_forest_induct)
  case (Node b ts)
  have "subtree_in a ts = Some u" "distinct (all_addrs ts)" "b \<notin> set (all_addrs ts)"
    using Node.prems by (auto simp: node_simps simp del: addrs.simps)
  with mset_prune(2) [of ts a u] have "b \<notin> set (addrs u)" by (metis UnI1 mset_eq_setD set_append mset_append)
  with Node show ?case by (simp add: node_simps del: addrs.simps prune.simps)
next
  case (Cons t ts)
  have keep: "filter (\<lambda>x. x \<notin> set (addrs u)) xs = xs" if "set xs \<inter> set (addrs u) = {}" for xs
    using that by (auto intro: filter_True)
  show ?case
  proof (cases "subtree a t")
    case None
    then have "a \<notin> set (addrs t)" using subtree_absent(1) by blast
    then have t: "prune a t = t" "root t \<noteq> a" using prune_absent(1) by auto
    have "set (addrs u) \<subseteq> set (all_addrs ts)"
      using Cons.prems None set_prune(1) [of ts a u] by auto
    then have "set (addrs t) \<inter> set (addrs u) = {}" using Cons.prems(1) by auto
    from keep [OF this] Cons None t show ?thesis by simp
  next
    case (Some v)
    then have uv: "v = u" using Cons.prems(2) by simp
    have "a \<in> set (addrs t)" using Some subtree_absent(1) [of a t] by fastforce
    then have "a \<notin> set (all_addrs ts)" using Cons.prems(1) by auto
    then have ts: "prune_all a ts = ts" using prune_absent(2) by blast
    have sub: "set (addrs u) \<subseteq> set (addrs t)"
    proof (cases "root t = a")
      case False
      with Cons.prems(1) mset_prune(1) [of t a u] Some uv
      have "mset (addrs t) = mset (addrs u @ addrs (prune a t))" by simp
      from mset_eq_setD [OF this] show ?thesis by simp
    qed (use Some uv in auto)
    then have "filter (\<lambda>x. x \<notin> set (addrs u)) (all_addrs ts) = all_addrs ts"
      using Cons.prems(1) by (intro keep) auto
    with Cons Some uv ts show ?thesis by (cases "root t = a") auto
  qed
qed simp

text \<open>Children after an insertion and after a removal.\<close>

lemma children_graft:
  "distinct (addrs t) \<Longrightarrow> p \<notin> set (addrs u) \<Longrightarrow>
     children p (graft p u t) = children p t @ (if p \<in> set (addrs t) then [root u] else [])"
  "distinct (all_addrs ts) \<Longrightarrow> p \<notin> set (addrs u) \<Longrightarrow>
     all_children p (map (graft p u) ts) =
       all_children p ts @ (if p \<in> set (all_addrs ts) then [root u] else [])"
proof (induction t and ts rule: ntree_forest_induct)
  case (Node a ts)
  then show ?case
    by (auto simp: node_simps graft_absent children_absent comp_def
        simp del: addrs.simps children.simps)
next
  case (Cons t ts)
  then show ?case by (auto simp: children_absent graft_absent)
qed simp

lemma children_graft_other:
  "c \<noteq> p \<Longrightarrow> c \<notin> set (addrs u) \<Longrightarrow> children c (graft p u t) = children c t"
  "c \<noteq> p \<Longrightarrow> c \<notin> set (addrs u) \<Longrightarrow> all_children c (map (graft p u) ts) = all_children c ts"
  by (induction t and ts rule: ntree_forest_induct)
    (auto simp: node_simps children_absent comp_def simp del: addrs.simps children.simps)

lemma roots_prune: "map root (prune_all a ts) = filter (\<lambda>x. x \<noteq> a) (map root ts)"
  by (induction ts) auto

lemma children_prune:
  "distinct (addrs t) \<Longrightarrow> a \<noteq> root t \<Longrightarrow> subtree a t = Some u \<Longrightarrow> c \<notin> set (addrs u) \<Longrightarrow>
     children c (prune a t) = filter (\<lambda>x. x \<noteq> a) (children c t)"
  "distinct (all_addrs ts) \<Longrightarrow> subtree_in a ts = Some u \<Longrightarrow> c \<notin> set (addrs u) \<Longrightarrow>
     all_children c (prune_all a ts) = filter (\<lambda>x. x \<noteq> a) (all_children c ts)"
proof (induction t and ts rule: ntree_forest_induct)
  case (Node b ts)
  then show ?case by (simp add: node_simps roots_prune del: addrs.simps children.simps prune.simps)
next
  case (Cons t ts)
  have keep: "filter (\<lambda>x. x \<noteq> a) xs = xs" if "a \<notin> set xs" for xs :: "nat list"
    using that by (auto intro: filter_True)
  show ?case
  proof (cases "subtree a t")
    case None
    then have a: "a \<notin> set (addrs t)" using subtree_absent(1) by blast
    then have t: "prune a t = t" "root t \<noteq> a" using prune_absent(1) by auto
    have "a \<notin> set (children c t)" using a children_addrs(1) by blast
    with Cons None t keep show ?thesis by auto
  next
    case (Some v)
    then have uv: "v = u" using Cons.prems(2) by simp
    have "a \<in> set (addrs t)" using Some subtree_absent(1) [of a t] by fastforce
    then have a: "a \<notin> set (all_addrs ts)" using Cons.prems(1) by auto
    then have ts: "prune_all a ts = ts" using prune_absent(2) by blast
    have ts': "filter (\<lambda>x. x \<noteq> a) (all_children c ts) = all_children c ts"
      using a children_addrs(2) by (intro keep) blast
    show ?thesis
    proof (cases "root t = a")
      case True
      then have "u = t" using Some uv by auto
      with Cons.prems(3) True ts ts' show ?thesis by (simp add: children_absent)
    next
      case False
      with Cons Some uv ts ts' show ?thesis by auto
    qed
  qed
qed simp

subsection \<open>The operations on the forest\<close>

text \<open>
  A new element is a tree of its own; \<open>appendChild\<close> moves a subtree below its new parent;
  removing a node from its parent leaves it as a tree of its own.
\<close>

definition plant :: "nat \<Rightarrow> ntree list \<Rightarrow> ntree list" where
  "plant c ts = ts @ [Node c []]"

definition attach :: "nat \<Rightarrow> nat \<Rightarrow> ntree list \<Rightarrow> ntree list" where
  "attach p c ts =
     (case subtree_in c ts of None \<Rightarrow> ts | Some u \<Rightarrow> map (graft p u) (prune_all c ts))"

definition detach :: "nat \<Rightarrow> ntree list \<Rightarrow> ntree list" where
  "detach c ts = (case subtree_in c ts of None \<Rightarrow> ts | Some u \<Rightarrow> prune_all c ts @ [u])"

definition below :: "nat \<Rightarrow> ntree list \<Rightarrow> nat list" where
  "below c ts = (case subtree_in c ts of None \<Rightarrow> [] | Some u \<Rightarrow> addrs u)"

lemma below_iff: "c \<in> set (all_addrs ts) \<longleftrightarrow> c \<in> set (below c ts)"
proof (cases "subtree_in c ts")
  case None
  then show ?thesis using subtree_absent(2) [of c ts] by (simp add: below_def)
next
  case (Some u)
  then show ?thesis using subtree_absent(2) [of c ts] root_subtree(2) [OF Some] addrs_root [of u]
    by (auto simp: below_def)
qed

lemma mset_detach:
  "distinct (all_addrs ts) \<Longrightarrow> mset (all_addrs (detach c ts)) = mset (all_addrs ts)"
  using mset_prune(2) [of ts c] by (auto simp: detach_def split: option.splits)

lemma mset_attach:
  assumes ok: "distinct (all_addrs ts)" and p: "p \<in> set (all_addrs ts)" "p \<notin> set (below c ts)"
  shows "mset (all_addrs (attach p c ts)) = mset (all_addrs ts)"
proof (cases "subtree_in c ts")
  case (Some u)
  note m = mset_prune(2) [OF ok Some]
  have "distinct (all_addrs (prune_all c ts))" using set_prune(4) [OF ok Some] .
  moreover have "p \<in> set (all_addrs (prune_all c ts))"
    using p Some set_prune(1) [OF ok Some] by (auto simp: below_def)
  ultimately show ?thesis using Some m mset_graft(2) [of "prune_all c ts" p u]
    by (simp add: attach_def)
qed (simp add: attach_def)

lemma distinct_detach [simp]:
  "distinct (all_addrs ts) \<Longrightarrow> distinct (all_addrs (detach c ts))"
  using mset_detach mset_eq_imp_distinct_iff by blast

lemma distinct_attach:
  "distinct (all_addrs ts) \<Longrightarrow> p \<in> set (all_addrs ts) \<Longrightarrow> p \<notin> set (below c ts) \<Longrightarrow>
     distinct (all_addrs (attach p c ts))"
  using mset_attach mset_eq_imp_distinct_iff by blast

lemma set_detach [simp]:
  "distinct (all_addrs ts) \<Longrightarrow> set (all_addrs (detach c ts)) = set (all_addrs ts)"
  using mset_detach mset_eq_setD by blast

lemma set_attach:
  "distinct (all_addrs ts) \<Longrightarrow> p \<in> set (all_addrs ts) \<Longrightarrow> p \<notin> set (below c ts) \<Longrightarrow>
     set (all_addrs (attach p c ts)) = set (all_addrs ts)"
  using mset_attach mset_eq_setD by blast

lemma children_below:
  "distinct (all_addrs ts) \<Longrightarrow> subtree_in c ts = Some u \<Longrightarrow> q \<in> set (addrs u) \<Longrightarrow>
     all_children q (prune_all c ts) = []"
  using set_prune(2) [of ts c u] by (intro children_absent(2)) auto

text \<open>A child of \<open>p\<close> whose subtree does not hold \<open>p\<close> is removed from the children of \<open>p\<close> only.\<close>

lemma children_detach:
  assumes "distinct (all_addrs ts)" "p \<notin> set (below c ts)"
  shows "all_children p (detach c ts) = filter (\<lambda>x. x \<noteq> c) (all_children p ts)"
proof (cases "subtree_in c ts")
  case None
  then have "c \<notin> set (all_children p ts)" using subtree_absent(2) children_addrs(2) by blast
  then have "filter (\<lambda>x. x \<noteq> c) (all_children p ts) = all_children p ts" by (auto intro: filter_True)
  then show ?thesis by (simp add: detach_def None)
next
  case (Some u)
  with assms children_prune(2) [OF assms(1) Some] show ?thesis
    by (simp add: detach_def below_def children_absent)
qed

lemma children_attach:
  assumes "distinct (all_addrs ts)" "p \<in> set (all_addrs ts)" "p \<notin> set (below c ts)"
    "c \<in> set (all_addrs ts)"
  shows "all_children p (attach p c ts) = filter (\<lambda>x. x \<noteq> c) (all_children p ts) @ [c]"
proof -
  obtain u where u: "subtree_in c ts = Some u" using assms(4) subtree_absent(2) by fastforce
  have "distinct (all_addrs (prune_all c ts))" using set_prune(4) [OF assms(1) u] .
  moreover have "p \<in> set (all_addrs (prune_all c ts))"
    using assms u set_prune(1) [OF assms(1) u] by (auto simp: below_def)
  ultimately show ?thesis
    using children_graft(2) [of "prune_all c ts" p u] children_prune(2) [OF assms(1) u, of p]
      assms(3) root_subtree(2) [OF u] by (simp add: attach_def below_def u)
qed

lemma children_attach_other:
  assumes "distinct (all_addrs ts)" "q \<noteq> p" "q \<notin> set (below c ts)"
  shows "all_children q (attach p c ts) = filter (\<lambda>x. x \<noteq> c) (all_children q ts)"
proof (cases "subtree_in c ts")
  case None
  then have "c \<notin> set (all_children q ts)" using subtree_absent(2) children_addrs(2) by blast
  then have "filter (\<lambda>x. x \<noteq> c) (all_children q ts) = all_children q ts" by (auto intro: filter_True)
  then show ?thesis by (simp add: attach_def None)
next
  case (Some u)
  with assms children_prune(2) [OF assms(1) Some] children_graft_other(2) [OF assms(2)] show ?thesis
    by (simp add: attach_def below_def)
qed

subsection \<open>Parents\<close>

text \<open>In a forest without repetition a node is the child of one node only.\<close>

lemma parent_unique:
  "distinct (addrs t) \<Longrightarrow> a \<in> set (children p t) \<Longrightarrow> a \<in> set (children q t) \<Longrightarrow> p = q \<and> a \<noteq> root t"
  "distinct (all_addrs ts) \<Longrightarrow> a \<in> set (all_children p ts) \<Longrightarrow> a \<in> set (all_children q ts) \<Longrightarrow>
     p = q \<and> a \<notin> root ` set ts"
proof (induction t and ts arbitrary: p q and p q rule: ntree_forest_induct)
  case (Node b ts)
  have d: "distinct (all_addrs ts)" "b \<notin> set (all_addrs ts)"
    using Node.prems(1) by (simp_all add: node_simps del: addrs.simps)
  then have ab: "a \<noteq> b" using Node.prems(2) children_tail [of p b ts] by auto
  have IH: "p = q \<and> a \<notin> root ` set ts"
    if "a \<in> set (all_children p ts)" "a \<in> set (all_children q ts)" for p q
    using Node.IH d that by blast
  have split: "a \<in> set (children x (Node b ts)) \<longleftrightarrow>
      x = b \<and> a \<in> root ` set ts \<or> a \<in> set (all_children x ts)" for x
    by (auto simp: node_simps simp del: children.simps)
  show ?case using Node.prems(2,3) IH [of p q] IH [of p p] IH [of q q] ab unfolding split by auto
next
  case (Cons t ts)
  have t: "set (children x t) \<subseteq> set (addrs t)" for x using children_addrs(1) by blast
  have ts: "set (all_children x ts) \<subseteq> set (all_addrs ts)" "root ` set ts \<subseteq> set (all_addrs ts)" for x
    using children_addrs(2) by blast+
  have "addrs_root": "root t \<in> set (addrs t)" by simp
  show ?case
  proof (cases "a \<in> set (addrs t)")
    case True
    then have a: "a \<notin> set (all_addrs ts)" using Cons.prems(1) by auto
    then have "a \<notin> set (all_children x ts)" for x using ts(1) by blast
    moreover have "a \<notin> root ` set ts" using a ts(2) by blast
    ultimately show ?thesis using Cons.IH(1) [of p q] Cons.prems by auto
  next
    case False
    then have "a \<notin> set (children x t)" for x using t by blast
    moreover have "a \<noteq> root t" using False addrs_root by blast
    ultimately show ?thesis using Cons.IH(2) [of p q] Cons.prems by auto
  qed
qed simp

lemma parent_of_child:
  assumes ok: "distinct (all_addrs ts)" and a: "a \<in> set (all_children p ts)"
  shows "parent_of a ts = Some p"
proof -
  have p: "p \<in> set (all_addrs ts)" using a children_absent(2) by fastforce
  then obtain q where q: "parent_of a ts = Some q"
    unfolding parent_of_def using find_exists [OF p, of "\<lambda>b. a \<in> set (all_children b ts)"] a by blast
  then have "a \<in> set (all_children q ts)"
    unfolding parent_of_def by (auto dest!: find_Some_first)
  with parent_unique(2) [OF ok a] q show ?thesis by simp
qed

lemma parent_of_children: "parent_of a ts = Some p \<Longrightarrow> a \<in> set (all_children p ts)"
  unfolding parent_of_def by (auto dest!: find_Some_first)

lemma parent_not_below:
  assumes ok: "distinct (all_addrs ts)" and a: "a \<in> set (all_children p ts)"
  shows "p \<notin> set (below a ts)"
  using assms
proof -
  have "subtree a t = Some u \<Longrightarrow> distinct (addrs t) \<Longrightarrow> a \<in> set (children p t) \<Longrightarrow> p \<notin> set (addrs u)"
    "subtree_in a ts = Some u \<Longrightarrow> distinct (all_addrs ts) \<Longrightarrow> a \<in> set (all_children p ts) \<Longrightarrow> p \<notin> set (addrs u)"
    for t ts u
  proof (induction t and ts rule: ntree_forest_induct)
    case (Node b ts)
    show ?case
    proof (cases "a = b")
      case True
      with Node.prems children_tail [of p b ts] show ?thesis
        by (auto simp: node_simps simp del: addrs.simps children.simps)
    next
      case False
      with Node.prems have s: "subtree_in a ts = Some u" "distinct (all_addrs ts)" "b \<notin> set (all_addrs ts)"
        by (auto simp: node_simps simp del: addrs.simps)
      show ?thesis
      proof (cases "p = b")
        case True
        with s set_prune(1) [OF s(2) s(1)] show ?thesis by auto
      next
        case False
        with Node s show ?thesis by (auto simp: node_simps simp del: addrs.simps children.simps)
      qed
    qed
  next
    case (Cons t ts)
    show ?case
    proof (cases "subtree a t")
      case None
      then have "a \<notin> set (children p t)" using subtree_absent(1) [of a t] children_addrs(1) by blast
      with Cons None show ?thesis by auto
    next
      case (Some v)
      then have "a \<in> set (addrs t)" using subtree_absent(1) [of a t] by fastforce
      then have "a \<notin> set (all_children p ts)" using Cons.prems(2) children_addrs(2) [of p ts] by auto
      with Cons Some show ?thesis by auto
    qed
  qed simp
  from this(2) [of ts] assms show ?thesis by (auto simp: below_def split: option.splits)
qed

text \<open>Taking nodes out adds no children anywhere, and a removed child is no child any more.\<close>

lemma children_prune_subset:
  "set (children c (prune a t)) \<subseteq> set (children c t)"
  "set (all_children c (prune_all a ts)) \<subseteq> set (all_children c ts)"
  by (induction t and ts rule: ntree_forest_induct)
    (auto simp: node_simps roots_prune simp del: addrs.simps children.simps prune.simps)

lemma children_subtree:
  "subtree a t = Some u \<Longrightarrow> set (children c u) \<subseteq> set (children c t)"
  "subtree_in a ts = Some u \<Longrightarrow> set (children c u) \<subseteq> set (all_children c ts)"
  by (induction t and ts rule: ntree_forest_induct)
    (auto simp: node_simps simp del: addrs.simps children.simps split: if_splits option.splits)

lemma children_detach_subset:
  "set (all_children c (detach a ts)) \<subseteq> set (all_children c ts)"
  using children_prune_subset(2) [of c a ts] children_subtree(2) [of a ts _ c]
  by (auto simp: detach_def split: option.splits)

lemma detached_no_child:
  assumes ok: "distinct (all_addrs ts)"
  shows "a \<notin> set (all_children c (detach a ts))"
proof
  assume a: "a \<in> set (all_children c (detach a ts))"
  then have c: "a \<in> set (all_children c ts)" using children_detach_subset by blast
  with children_detach [OF ok parent_not_below [OF ok c]] a show False by simp
qed

lemma detach_nonempty [simp]: "detach a ts = [] \<longleftrightarrow> ts = []"
  by (auto simp: detach_def split: option.splits)

text \<open>A detached node leaves every list of children, and nothing else does.\<close>

lemma children_of_subtree:
  "distinct (addrs t) \<Longrightarrow> subtree a t = Some u \<Longrightarrow> c \<in> set (addrs u) \<Longrightarrow> children c t = children c u"
  "distinct (all_addrs ts) \<Longrightarrow> subtree_in a ts = Some u \<Longrightarrow> c \<in> set (addrs u) \<Longrightarrow>
     all_children c ts = children c u"
proof (induction t and ts rule: ntree_forest_induct)
  case (Node b ts)
  show ?case
  proof (cases "a = b")
    case False
    with Node.prems have s: "distinct (all_addrs ts)" "subtree_in a ts = Some u" "b \<notin> set (all_addrs ts)"
      by (auto simp: addrs_Node simp del: addrs.simps)
    then have "c \<noteq> b" using set_prune(1) [OF s(1,2)] Node.prems(3) by auto
    then show ?thesis using Node.IH s Node.prems(3) by (simp add: children_Node del: children.simps)
  qed (use Node.prems in auto)
next
  case (Cons t ts)
  show ?case
  proof (cases "subtree a t")
    case None
    then have s: "subtree_in a ts = Some u" using Cons.prems by simp
    have "c \<in> set (all_addrs ts)" using set_prune(1) [OF _ s] Cons.prems by auto
    then have "children c t = []" using Cons.prems(1) children_absent(1) [of c t] by auto
    then show ?thesis using Cons s by simp
  next
    case (Some v)
    then have v: "v = u" using Cons.prems by simp
    have "c \<in> set (addrs t)"
    proof (cases "a = root t")
      case False
      then have "mset (addrs t) = mset (addrs u @ addrs (prune a t))"
        using mset_prune(1) [of t a u] Cons.prems(1) Some v by simp
      from mset_eq_setD [OF this] show ?thesis using Cons.prems(3) by auto
    qed (use Some v Cons.prems in auto)
    then have "all_children c ts = []" using Cons.prems(1) children_absent(2) [of c ts] by auto
    then show ?thesis using Cons Some v by simp
  qed
qed simp

lemma all_children_detach:
  assumes ok: "distinct (all_addrs ts)"
  shows "all_children c (detach a ts) = filter (\<lambda>x. x \<noteq> a) (all_children c ts)"
proof (cases "c \<in> set (below a ts)")
  case True
  then obtain u where u: "subtree_in a ts = Some u" "c \<in> set (addrs u)"
    by (cases "subtree_in a ts") (auto simp: below_def)
  have "a \<notin> set (all_children c ts)" using parent_not_below [OF ok, of a c] True by blast
  then have "filter (\<lambda>x. x \<noteq> a) (all_children c ts) = all_children c ts" by (auto intro: filter_True)
  then show ?thesis
    using children_below [OF ok u] children_of_subtree(2) [OF ok u] by (simp add: detach_def u)
qed (rule children_detach [OF ok])

end
