(* ===== verification/Browser.thy ===== *)
theory Browser
  imports Dom "HOL-Library.AList"
begin

section \<open>The browser: the world the code runs in\<close>

text \<open>
  One record holds everything the code reads or changes: the heap of objects, the nodes and
  trees of the document, \<open>localStorage\<close>, the address, the console, pending timers, requests and
  file readers, the texts written to the clipboard, the module variables of \<open>utils.js\<close>
  (\<open>currentFileData\<close> and \<open>NotificationSystem.container\<close>) and those of the storage page.  The operations below are the browser interfaces the code
  calls, each with the errors the standards give it.  Closures that the code hands to the browser
  are values of data types (\<open>task\<close>, \<open>handler\<close>) that name the closure and carry its captured
  variables; the theories of the components say what each does when it runs.
\<close>

subsection \<open>The state\<close>

datatype task = AutoClose nat | FadeOut nat | OpenPanel jstr | Startup

record timer =
  timer_id :: nat
  due :: nat
  task :: task

text \<open>A callback argument: not a function, or a function with its arity (\<open>length\<close>) and identity.\<close>

datatype callback = NotFunction | Function nat nat

datatype handler =
  OnSend jstr jstr jstr callback | OnGet jstr jstr callback | OnFile jstr jstr "nat option" "nat option"

datatype payload = NoBody | TextBody jstr | BytesBody "8 word list"

record request =
  req_method :: jstr
  req_url :: jstr
  req_headers :: "(jstr \<times> jstr) list"
  req_mime :: "jstr option"
  req_body :: payload
  sent :: bool
  ready_state :: nat
  req_status :: nat
  req_response :: jstr
  on_change :: "handler option"

record reader =
  read_file :: upload
  read_binary :: bool
  read_path :: jstr
  read_type :: jstr
  read_output :: "nat option"
  read_code :: "nat option"

record world =
  objs :: heap
  nodes :: "node list"
  forest :: "ntree list"
  body :: "nat option"
  quirks :: bool
  store :: "(jstr \<times> jstr) list"
  quota :: nat
  pathname :: jstr
  search :: jstr
  url_ok :: "jstr \<Rightarrow> bool"
  console :: "(string \<times> val list) list"
  timers :: "timer list"
  clock :: nat
  next_timer :: nat
  requests :: "request list"
  readers :: "reader list"
  ajax :: "(jstr \<times> jstr \<times> jstr \<times> jstr) list"
  clicks :: "nat list"
  reloads :: nat
  current_file :: "nat option"
  container :: "nat option"
  close_buttons :: "(nat \<times> nat) list"
  click_listeners :: nat
  htmx_listeners :: nat
  clipboard :: "jstr list"
  selected_element :: "jstr option"
  selected_path :: "jstr option"

type_synonym 'a js_prog = "(world, 'a) prog"

subsection \<open>Console, strings\<close>

definition log_at :: "string \<Rightarrow> val list \<Rightarrow> unit js_prog" where
  "log_at level args = modify (\<lambda>w. w\<lparr>console := console w @ [(level, args)]\<rparr>)"

definition nat_text :: "nat \<Rightarrow> jstr" where
  "nat_text n = num_to_string (round_num False n 1)"

subsection \<open>Nodes\<close>

text \<open>Reading a property of \<open>null\<close> is a \<open>TypeError\<close>.\<close>

definition non_null :: "'a option \<Rightarrow> 'a js_prog" where
  "non_null x = (case x of None \<Rightarrow> throw TypeError | Some a \<Rightarrow> ret a)"

definition node_at :: "world \<Rightarrow> nat \<Rightarrow> node" where
  "node_at w a = nodes w ! a"

definition set_node :: "nat \<Rightarrow> (node \<Rightarrow> node) \<Rightarrow> world \<Rightarrow> world" where
  "set_node a f w = w\<lparr>nodes := (nodes w)[a := f (nodes w ! a)]\<rparr>"

text \<open>
  The first tree of the forest is the document, its root the document node.
  \<open>document.getElementById(s)\<close>: the first element in document order; an empty id is no id.
\<close>

definition document :: "world \<Rightarrow> ntree" where
  "document w = hd (forest w)"

definition element_by_id :: "world \<Rightarrow> jstr \<Rightarrow> nat option" where
  "element_by_id w s =
     (if s = [] then None else find (\<lambda>a. ident (node_at w a) = s) (addrs (document w)))"

definition get_element :: "jstr \<Rightarrow> nat js_prog" where
  "get_element s = bnd (gets (\<lambda>w. element_by_id w s)) non_null"

text \<open>The \<open>type\<close> property; on elements without one it is \<open>undefined\<close>.\<close>

fun el_type :: "role \<Rightarrow> jstr option" where
  "el_type NumberInput = Some (js ''number'')"
| "el_type Checkbox = Some (js ''checkbox'')"
| "el_type FileInput = Some (js ''file'')"
| "el_type TextInput = Some (js ''text'')"
| "el_type HiddenInput = Some (js ''hidden'')"
| "el_type TextArea = Some (js ''textarea'')"
| "el_type (Select opts) = Some (js ''select-one'')"
| "el_type Plain = None"

text \<open>The \<open>value\<close> property, read: a file input shows a fake path to its first file.\<close>

definition get_value :: "node \<Rightarrow> val" where
  "get_value n =
     (if role n = FileInput
      then case files n of [] \<Rightarrow> Str [] | f # _ \<Rightarrow> Str (js ''C:'' @ 92 # js ''fakepath'' @ 92 # file_name f)
      else stored n)"

text \<open>
  The \<open>value\<close> property, set: \<open>null\<close> becomes the empty text on inputs and text areas, a number
  input keeps valid floating-point texts only, a text input loses line breaks, a text area has
  its line breaks normalised, a selection keeps the values of its options only; any other element
  gets an ordinary property.
\<close>

fun normalise_newlines :: "jstr \<Rightarrow> jstr" where
  "normalise_newlines [] = []"
| "normalise_newlines [c] = (if c = 13 then [10] else [c])"
| "normalise_newlines (c # d # s) =
     (if c = 13 \<and> d = 10 then 10 # normalise_newlines s
      else (if c = 13 then 10 else c) # normalise_newlines (d # s))"

definition legacy_text :: "heap \<Rightarrow> val \<Rightarrow> jstr" where
  "legacy_text h v = (if v = Null then [] else to_string h v)"

definition set_value :: "heap \<Rightarrow> val \<Rightarrow> node \<Rightarrow> exn + node" where
  "set_value h v n =
     (case role n of
        NumberInput \<Rightarrow>
          Inr (n\<lparr>stored := Str (let s = legacy_text h v in if valid_float s then s else [])\<rparr>)
      | TextInput \<Rightarrow> Inr (n\<lparr>stored := Str (filter (\<lambda>c. c \<noteq> 10 \<and> c \<noteq> 13) (legacy_text h v))\<rparr>)
      | TextArea \<Rightarrow> Inr (n\<lparr>stored := Str (normalise_newlines (legacy_text h v))\<rparr>)
      | HiddenInput \<Rightarrow> Inr (n\<lparr>stored := Str (legacy_text h v)\<rparr>)
      | Checkbox \<Rightarrow> Inr (n\<lparr>stored := Str (legacy_text h v)\<rparr>)
      | FileInput \<Rightarrow>
          (if legacy_text h v = [] then Inr (n\<lparr>files := []\<rparr>)
           else Inl (DOMException ''InvalidStateError''))
      | Select opts \<Rightarrow>
          Inr (n\<lparr>stored := Str (let s = to_string h v in if s \<in> set opts then s else [])\<rparr>)
      | Plain \<Rightarrow> Inr (n\<lparr>stored := v\<rparr>))"

definition assign_value :: "nat \<Rightarrow> val \<Rightarrow> unit js_prog" where
  "assign_value a v =
     (\<lambda>w. case set_value (objs w) v (node_at w a) of
            Inl e \<Rightarrow> (Inl e, w)
          | Inr n \<Rightarrow> (Inr (), set_node a (\<lambda>_. n) w))"

text \<open>\<open>classList\<close> is an ordered set of tokens.\<close>

definition class_add :: "jstr \<Rightarrow> node \<Rightarrow> node" where
  "class_add c n = (if c \<in> set (classes n) then n else n\<lparr>classes := classes n @ [c]\<rparr>)"

definition class_remove :: "jstr \<Rightarrow> node \<Rightarrow> node" where
  "class_remove c n = n\<lparr>classes := filter (\<lambda>d. d \<noteq> c) (classes n)\<rparr>"

text \<open>\<open>className = s\<close>: the tokens of \<open>s\<close>, each once.\<close>

definition is_space :: "unit16 \<Rightarrow> bool" where
  "is_space c \<longleftrightarrow> c = 9 \<or> c = 10 \<or> c = 12 \<or> c = 13 \<or> c = 32"

fun words :: "jstr \<Rightarrow> jstr \<Rightarrow> jstr list" where
  "words acc [] = (if acc = [] then [] else [rev acc])"
| "words acc (c # s) =
     (if is_space c then (if acc = [] then [] else [rev acc]) @ words [] s else words (c # acc) s)"

definition tokens :: "jstr \<Rightarrow> jstr list" where
  "tokens s = rev (remdups (rev (words [] s)))"

subsection \<open>Selectors\<close>

text \<open>
  \<open>querySelector\<close> on compound selectors of ids and classes, the ones the code builds
  (\<open>#uploadStorageFile\<close>, \<open>.jw-modal.open\<close>).  A name that is no identifier is a \<open>SyntaxError\<close>;
  combinators, tags, attributes and escapes are outside the modelled selectors and are refused the
  same way.  In a document without a doctype names match without regard to ASCII case.
\<close>

datatype simple_selector = IdSel jstr | ClassSel jstr

definition is_name_start :: "unit16 \<Rightarrow> bool" where
  "is_name_start c \<longleftrightarrow> 65 \<le> c \<and> c \<le> 90 \<or> 97 \<le> c \<and> c \<le> 122 \<or> c = 95 \<or> 128 \<le> c"

definition is_name_unit :: "unit16 \<Rightarrow> bool" where
  "is_name_unit c \<longleftrightarrow> is_name_start c \<or> is_digit c \<or> c = 45"

definition is_identifier :: "jstr \<Rightarrow> bool" where
  "is_identifier s =
     (case s of [] \<Rightarrow> False
      | c # t \<Rightarrow> is_name_start c \<or> c = 45 \<and> (case t of [] \<Rightarrow> False | d # _ \<Rightarrow> is_name_start d \<or> d = 45))"

function parse_compound :: "jstr \<Rightarrow> simple_selector list option" where
  "parse_compound [] = Some []"
| "parse_compound (c # s) =
     (if (c = 35 \<or> c = 46) \<and> is_identifier (takeWhile is_name_unit s)
      then map_option (\<lambda>xs. (if c = 35 then IdSel else ClassSel) (takeWhile is_name_unit s) # xs)
             (parse_compound (dropWhile is_name_unit s))
      else None)"
  by pat_completeness auto
termination
  by (relation "measure length") (auto simp: less_Suc_eq_le length_dropWhile_le)

definition parse_selector :: "jstr \<Rightarrow> simple_selector list option" where
  "parse_selector s = (if s = [] then None else parse_compound s)"

definition lower :: "unit16 \<Rightarrow> unit16" where
  "lower c = (if 65 \<le> c \<and> c \<le> 90 then c + 32 else c)"

definition same_name :: "bool \<Rightarrow> jstr \<Rightarrow> jstr \<Rightarrow> bool" where
  "same_name q s t = (if q then map lower s = map lower t else s = t)"

fun simple_matches :: "bool \<Rightarrow> node \<Rightarrow> simple_selector \<Rightarrow> bool" where
  "simple_matches q n (IdSel s) = same_name q s (ident n)"
| "simple_matches q n (ClassSel s) = (\<exists>c \<in> set (classes n). same_name q s c)"

definition selector_matches :: "world \<Rightarrow> simple_selector list \<Rightarrow> nat \<Rightarrow> bool" where
  "selector_matches w sel a \<longleftrightarrow> (\<forall>x \<in> set sel. simple_matches (quirks w) (node_at w a) x)"

text \<open>\<open>a.querySelector(s)\<close>: the first proper descendant of \<open>a\<close> in document order that matches.\<close>

definition descendants :: "world \<Rightarrow> nat \<Rightarrow> nat list" where
  "descendants w a = tl (below a (forest w))"

definition query_selector :: "nat \<Rightarrow> jstr \<Rightarrow> nat option js_prog" where
  "query_selector a s =
     (case parse_selector s of
        None \<Rightarrow> throw (DOMException ''SyntaxError'')
      | Some sel \<Rightarrow> gets (\<lambda>w. find (selector_matches w sel) (descendants w a)))"

definition parent_node :: "nat \<Rightarrow> nat option js_prog" where
  "parent_node a = gets (\<lambda>w. parent_of a (forest w))"

text \<open>\<open>getAttribute\<close>: the parser stores the names of attributes in lower case, and so does the lookup.\<close>

definition attribute :: "nat \<Rightarrow> string \<Rightarrow> world \<Rightarrow> jstr option" where
  "attribute a name w = map_of (attrs (node_at w a)) (map lower (js name))"

subsection \<open>Changing the tree\<close>

definition create_element :: "nat js_prog" where
  "create_element =
     (\<lambda>w. (Inr (length (nodes w)),
           w\<lparr>nodes := nodes w @ [blank], forest := plant (length (nodes w)) (forest w)\<rparr>))"

definition append_child :: "nat \<Rightarrow> nat \<Rightarrow> unit js_prog" where
  "append_child p c =
     (\<lambda>w. if p \<in> set (below c (forest w)) then (Inl (DOMException ''HierarchyRequestError''), w)
          else (Inr (), w\<lparr>forest := attach p c (forest w)\<rparr>))"

definition remove_child :: "nat \<Rightarrow> nat \<Rightarrow> unit js_prog" where
  "remove_child p c =
     (\<lambda>w. if parent_of c (forest w) = Some p then (Inr (), w\<lparr>forest := detach c (forest w)\<rparr>)
          else (Inl (DOMException ''NotFoundError''), w))"

text \<open>\<open>a.remove()\<close>: nothing happens to a node without a parent.\<close>

definition remove_node :: "nat \<Rightarrow> unit js_prog" where
  "remove_node a =
     modify (\<lambda>w. if parent_of a (forest w) = None then w else w\<lparr>forest := detach a (forest w)\<rparr>)"

text \<open>\<open>textContent\<close> and \<open>innerHTML\<close>: the children go, the text stays.  Markup is kept unparsed.\<close>

definition set_content :: "nat \<Rightarrow> jstr \<Rightarrow> unit js_prog" where
  "set_content a s =
     modify (\<lambda>w. set_node a (\<lambda>n. n\<lparr>content := s\<rparr>)
       (w\<lparr>forest := fold detach (all_children a (forest w)) (forest w)\<rparr>))"

subsection \<open>Timers\<close>

text \<open>
  \<open>setTimeout\<close> numbers its timers from 1.  The delay is a WebIDL \<open>long\<close>: the number is truncated
  and taken modulo $2^{32}$; a negative delay is 0.
\<close>

definition to_int32 :: "jnum \<Rightarrow> int" where
  "to_int32 x =
     (case x of NaN \<Rightarrow> 0 | Inf _ \<Rightarrow> 0
      | Fin neg m e \<Rightarrow>
          let n = (if 0 \<le> e then m * 2 ^ nat e else m div 2 ^ nat (- e))
          in sint (word_of_int (if neg then - int n else int n) :: 32 word))"

definition delay_of :: "jnum \<Rightarrow> nat" where
  "delay_of x = nat (to_int32 x)"

definition set_timeout :: "task \<Rightarrow> nat \<Rightarrow> nat js_prog" where
  "set_timeout k d =
     (\<lambda>w. (Inr (next_timer w),
           w\<lparr>timers := timers w @ [\<lparr>timer_id = next_timer w, due = clock w + d, task = k\<rparr>],
             next_timer := next_timer w + 1\<rparr>))"

definition clear_timeout :: "nat \<Rightarrow> unit js_prog" where
  "clear_timeout i = modify (\<lambda>w. w\<lparr>timers := filter (\<lambda>t. timer_id t \<noteq> i) (timers w)\<rparr>)"

text \<open>The next timer to fire: the earliest due, among those the oldest.\<close>

definition next_due :: "timer list \<Rightarrow> timer option" where
  "next_due ts = find (\<lambda>t. \<forall>u \<in> set ts. due t \<le> due u) ts"

subsection \<open>Storage\<close>

definition get_item :: "jstr \<Rightarrow> jstr option js_prog" where
  "get_item k = gets (\<lambda>w. map_of (store w) k)"

definition put_item :: "jstr \<Rightarrow> jstr \<Rightarrow> (jstr \<times> jstr) list \<Rightarrow> (jstr \<times> jstr) list" where
  "put_item k v s = AList.update k v s"

definition stored_size :: "(jstr \<times> jstr) list \<Rightarrow> nat" where
  "stored_size s = sum_list (map (\<lambda>(k, v). length k + length v) s)"

definition set_item :: "jstr \<Rightarrow> jstr \<Rightarrow> unit js_prog" where
  "set_item k v =
     (\<lambda>w. if stored_size (put_item k v (store w)) \<le> quota w
          then (Inr (), w\<lparr>store := put_item k v (store w)\<rparr>)
          else (Inl (DOMException ''QuotaExceededError''), w))"

subsection \<open>Requests\<close>

text \<open>
  \<open>XMLHttpRequest\<close>: \<open>open\<close> checks the method (a token, not one of the forbidden ones, the common
  ones put in upper case) and the address, which the browser's own parser decides (\<open>url_ok\<close>);
  \<open>setRequestHeader\<close> wants a byte string without line breaks; \<open>send\<close> drops the body of \<open>GET\<close> and
  \<open>HEAD\<close>.
\<close>

definition upper :: "unit16 \<Rightarrow> unit16" where
  "upper c = (if 97 \<le> c \<and> c \<le> 122 then c - 32 else c)"

definition is_token_unit :: "unit16 \<Rightarrow> bool" where
  "is_token_unit c \<longleftrightarrow> is_digit c \<or> 65 \<le> c \<and> c \<le> 90 \<or> 97 \<le> c \<and> c \<le> 122 \<or>
     c \<in> set (js ''!#$%&*+-.^_|~'') \<or> c = 39 \<or> c = 96"

definition standard_methods :: "jstr list" where
  "standard_methods = map js [''DELETE'', ''GET'', ''HEAD'', ''OPTIONS'', ''POST'', ''PUT'']"

definition forbidden_methods :: "jstr list" where
  "forbidden_methods = map js [''CONNECT'', ''TRACE'', ''TRACK'']"

definition method_of :: "jstr \<Rightarrow> exn + jstr" where
  "method_of s =
     (if s = [] \<or> \<not> list_all is_token_unit s then Inl (DOMException ''SyntaxError'')
      else if map upper s \<in> set forbidden_methods then Inl (DOMException ''SecurityError'')
      else Inr (if map upper s \<in> set standard_methods then map upper s else s))"

definition new_request :: "nat js_prog" where
  "new_request =
     (\<lambda>w. (Inr (length (requests w)),
           w\<lparr>requests := requests w @
               [\<lparr>req_method = [], req_url = [], req_headers = [], req_mime = None, req_body = NoBody, sent = False,
                 ready_state = 0, req_status = 0, req_response = [], on_change = None\<rparr>]\<rparr>))"

definition set_request :: "nat \<Rightarrow> (request \<Rightarrow> request) \<Rightarrow> world \<Rightarrow> world" where
  "set_request x f w = w\<lparr>requests := (requests w)[x := f (requests w ! x)]\<rparr>"

definition open_request :: "nat \<Rightarrow> jstr \<Rightarrow> jstr \<Rightarrow> unit js_prog" where
  "open_request x verb path =
     (\<lambda>w. case method_of verb of
            Inl e \<Rightarrow> (Inl e, w)
          | Inr m \<Rightarrow>
              if \<not> url_ok w path then (Inl (DOMException ''SyntaxError''), w)
              else (Inr (), set_request x
                (\<lambda>r. r\<lparr>req_method := m, req_url := path, req_headers := [], ready_state := 1\<rparr>) w))"

definition strip_blanks :: "jstr \<Rightarrow> jstr" where
  "strip_blanks s =
     (let blank = (\<lambda>c. c = 9 \<or> c = 10 \<or> c = 13 \<or> c = 32)
      in rev (dropWhile blank (rev (dropWhile blank s))))"

definition header_value :: "jstr \<Rightarrow> exn + jstr" where
  "header_value s =
     (if list_ex (\<lambda>c. 255 < c) s then Inl TypeError
      else let t = strip_blanks s
           in if list_ex (\<lambda>c. c = 0 \<or> c = 10 \<or> c = 13) t then Inl (DOMException ''SyntaxError'')
              else Inr t)"

definition set_content_type :: "nat \<Rightarrow> jstr \<Rightarrow> unit js_prog" where
  "set_content_type x v =
     (\<lambda>w. case header_value v of
            Inl e \<Rightarrow> (Inl e, w)
          | Inr t \<Rightarrow> (Inr (), set_request x
              (\<lambda>r. r\<lparr>req_headers := req_headers r @ [(js ''Content-Type'', t)]\<rparr>) w))"

definition set_on_change :: "nat \<Rightarrow> handler \<Rightarrow> unit js_prog" where
  "set_on_change x k = modify (set_request x (\<lambda>r. r\<lparr>on_change := Some k\<rparr>))"

text \<open>\<open>overrideMimeType\<close> is refused once the response is loading.\<close>

definition override_mime :: "nat \<Rightarrow> jstr \<Rightarrow> unit js_prog" where
  "override_mime x m =
     (\<lambda>w. if ready_state (requests w ! x) \<in> {3, 4} then (Inl (DOMException ''InvalidStateError''), w)
          else (Inr (), set_request x (\<lambda>r. r\<lparr>req_mime := Some m\<rparr>) w))"

definition send_request :: "nat \<Rightarrow> payload \<Rightarrow> unit js_prog" where
  "send_request x b =
     modify (set_request x (\<lambda>r. r\<lparr>sent := True,
       req_body := (if req_method r \<in> {js ''GET'', js ''HEAD''} then NoBody else b)\<rparr>))"

subsection \<open>Location\<close>

definition reload :: "unit js_prog" where
  "reload = modify (\<lambda>w. w\<lparr>reloads := reloads w + 1\<rparr>)"

subsection \<open>Lemmas\<close>

text \<open>The invariant of the document: every node stands once in the forest, and nothing else does.\<close>

definition tree_ok :: "world \<Rightarrow> bool" where
  "tree_ok w \<longleftrightarrow> forest w \<noteq> [] \<and> distinct (all_addrs (forest w)) \<and>
     set (all_addrs (forest w)) = {..<length (nodes w)}"

lemma document_forest: "tree_ok w \<Longrightarrow> \<exists>ts. forest w = document w # ts"
  by (cases "forest w") (simp_all add: tree_ok_def document_def)

lemma document_addrs:
  assumes "tree_ok w"
  shows "set (addrs (document w)) \<subseteq> {..<length (nodes w)}" "distinct (addrs (document w))"
proof -
  obtain ts where "forest w = document w # ts" using document_forest [OF assms] by blast
  then have "all_addrs (forest w) = addrs (document w) @ all_addrs ts" by (metis all_addrs_simps(2))
  then show "set (addrs (document w)) \<subseteq> {..<length (nodes w)}" "distinct (addrs (document w))"
    using assms unfolding tree_ok_def by (metis set_append sup_ge1, metis distinct_append)
qed

lemma document_descendants:
  assumes "tree_ok w"
  shows "descendants w (root (document w)) = tl (addrs (document w))"
proof -
  obtain ts where "forest w = document w # ts" using document_forest [OF assms] by blast
  then have "subtree_in (root (document w)) (forest w) = Some (document w)" by (metis subtree.simps subtree_in.simps(2) subtree_root option.simps(5))
  then show ?thesis by (simp add: descendants_def below_def)
qed

lemma set_node_simps [simp]:
  "forest (set_node a f w) = forest w" "objs (set_node a f w) = objs w"
  "store (set_node a f w) = store w" "timers (set_node a f w) = timers w"
  "clock (set_node a f w) = clock w" "next_timer (set_node a f w) = next_timer w"
  "requests (set_node a f w) = requests w" "console (set_node a f w) = console w"
  "container (set_node a f w) = container w" "pathname (set_node a f w) = pathname w"
  "search (set_node a f w) = search w" "quota (set_node a f w) = quota w"
  "body (set_node a f w) = body w" "current_file (set_node a f w) = current_file w"
  "length (nodes (set_node a f w)) = length (nodes w)" "url_ok (set_node a f w) = url_ok w"
  "quirks (set_node a f w) = quirks w" "readers (set_node a f w) = readers w"
  "document (set_node a f w) = document w" "close_buttons (set_node a f w) = close_buttons w"
  "reloads (set_node a f w) = reloads w" "ajax (set_node a f w) = ajax w" "clicks (set_node a f w) = clicks w"
  "htmx_listeners (set_node a f w) = htmx_listeners w"
  by (simp_all add: set_node_def document_def)

lemma node_set_node [simp]:
  "a < length (nodes w) \<Longrightarrow> node_at (set_node a f w) b = (if a = b then f (node_at w a) else node_at w b)"
  by (simp add: node_at_def set_node_def)

lemma node_set_node_other [simp]: "a \<noteq> b \<Longrightarrow> node_at (set_node a f w) b = node_at w b"
  by (simp add: node_at_def set_node_def)

lemma node_at_frame [simp]:
  "node_at (w\<lparr>forest := ts\<rparr>) a = node_at w a" "node_at (w\<lparr>timers := tm\<rparr>) a = node_at w a"
  "node_at (w\<lparr>console := c\<rparr>) a = node_at w a" "node_at (w\<lparr>store := s\<rparr>) a = node_at w a"
  "node_at (w\<lparr>next_timer := n\<rparr>) a = node_at w a" "node_at (w\<lparr>container := k\<rparr>) a = node_at w a"
  "node_at (w\<lparr>objs := h\<rparr>) a = node_at w a" "node_at (w\<lparr>clock := n\<rparr>) a = node_at w a"
  "node_at (w\<lparr>requests := rs\<rparr>) a = node_at w a" "node_at (w\<lparr>current_file := cf\<rparr>) a = node_at w a"
  by (simp_all add: node_at_def)

lemma tree_ok_set_node [simp]: "tree_ok (set_node a f w) = tree_ok w"
  by (simp add: tree_ok_def)

text \<open>Elements found by id are in the document.\<close>

lemma element_by_id_props:
  "element_by_id w s = Some a \<Longrightarrow> a \<in> set (addrs (document w)) \<and> ident (node_at w a) = s \<and> s \<noteq> []"
  by (auto simp: element_by_id_def split: if_splits dest: find_Some_first)

lemma element_by_id_lt:
  "tree_ok w \<Longrightarrow> element_by_id w s = Some a \<Longrightarrow> a < length (nodes w)"
  using element_by_id_props [of w s a]
  by (cases "forest w") (auto simp: tree_ok_def document_def)

lemma element_by_id_cong:
  "forest w' = forest w \<Longrightarrow> (\<And>a. a \<in> set (addrs (document w)) \<Longrightarrow> ident (node_at w' a) = ident (node_at w a)) \<Longrightarrow>
     element_by_id w' s = element_by_id w s"
  by (simp add: element_by_id_def document_def cong: find_cong)

lemma get_element_Some: "element_by_id w s = Some a \<Longrightarrow> get_element s w = (Inr a, w)"
  and get_element_None: "element_by_id w s = None \<Longrightarrow> get_element s w = (Inl TypeError, w)"
  by (simp_all add: get_element_def non_null_def prog_simps)

lemma node_at_set_node:
  "node_at (set_node a f w) b = (if a = b \<and> a < length (nodes w) then f (node_at w a) else node_at w b)"
  by (cases "a < length (nodes w)") (auto simp: node_at_def set_node_def list_update_beyond)

lemma element_by_id_set_node [simp]:
  "ident (f (node_at w a)) = ident (node_at w a) \<Longrightarrow> element_by_id (set_node a f w) s = element_by_id w s"
  by (intro element_by_id_cong) (auto simp: node_at_set_node)

subsection \<open>A page to evaluate on\<close>

text \<open>
  A document with a number input \<open>n\<close>, a text area \<open>t\<close> and a closed panel \<open>p\<close> in its body, as the
  browser has it after loading: the closed instances of the properties are evaluated on it.
\<close>

definition sample_page :: world where
  "sample_page =
     \<lparr> objs = [],
       nodes = [blank, blank,
         blank\<lparr>role := NumberInput, ident := js ''n'', stored := Str []\<rparr>,
         blank\<lparr>role := TextArea, ident := js ''t'', stored := Str (js ''[1,true]'')\<rparr>,
         blank\<lparr>ident := js ''p''\<rparr>],
       forest = [Node 0 [Node 1 [Node 2 [], Node 3 [], Node 4 []]]],
       body = Some 1, quirks = True, store = [], quota = 5000000, pathname = js ''/a'', search = [],
       url_ok = (\<lambda>_. True), console = [], timers = [], clock = 0, next_timer = 1, requests = [],
       readers = [], ajax = [], clicks = [], reloads = 0, current_file = None, container = None,
       close_buttons = [], click_listeners = 0, htmx_listeners = 0,
       clipboard = [], selected_element = None, selected_path = None \<rparr>"

lemma sample_tree: "tree_ok sample_page"
  by (auto simp: tree_ok_def sample_page_def)

lemma sample_ids:
  "element_by_id sample_page (js ''n'') = Some 2"
  "element_by_id sample_page (js ''t'') = Some 3"
  "element_by_id sample_page (js ''p'') = Some 4"
  by code_simp+

lemma sample_nodes:
  "node_at sample_page 2 = blank\<lparr>role := NumberInput, ident := js ''n'', stored := Str []\<rparr>"
  "node_at sample_page 3 = blank\<lparr>role := TextArea, ident := js ''t'', stored := Str (js ''[1,true]'')\<rparr>"
  "node_at sample_page 4 = blank\<lparr>ident := js ''p''\<rparr>"
  by (simp_all add: sample_page_def node_at_def)

end
