(* ===== verification/Forms.thy ===== *)
theory Forms
  imports Browser
begin

section \<open>Forms: element values, clones, pretty printing\<close>

text \<open>
  The first part of \<open>utils.js\<close>: \<open>retrieveValue\<close>, \<open>setValue\<close> and \<open>retrieveValues\<close> move values
  between form elements and objects, \<open>deepClone\<close> copies an object through its \<open>JSON\<close> text, and
  \<open>prettifyJson\<close> reformats the text of an element in place.
\<close>

subsection \<open>The code\<close>

definition retrieveValue :: "jstr \<Rightarrow> val js_prog" where
  "retrieveValue i =
     bnd (get_element i) (\<lambda>el. gets (\<lambda>w.
       let n = node_at w el
       in if el_type (role n) = Some (js ''number'') then Num (to_number (objs w) (get_value n))
          else if el_type (role n) = Some (js ''checkbox'') then Bool (checked n)
          else get_value n))"

definition setValue :: "jstr \<Rightarrow> val \<Rightarrow> unit js_prog" where
  "setValue i value =
     bnd (get_element i) (\<lambda>el w.
       let t = el_type (role (node_at w el))
       in if t = Some (js ''number'') then assign_value el (Num (to_number (objs w) value)) w
          else if t = Some (js ''checkbox'')
          then (Inr (), set_node el (\<lambda>n. n\<lparr>checked :=
                  value = Bool True \<or> value = Str (js ''true'') \<or> positive (to_number (objs w) value)\<rparr>) w)
          else assign_value el value w)"

text \<open>The own properties of an object literal, and \<open>obj[k] = v\<close> on one.\<close>

definition own_props :: "heap \<Rightarrow> nat \<Rightarrow> (jstr \<times> val) list" where
  "own_props h r = (case h ! r of Obj ps \<Rightarrow> ps | Arr _ \<Rightarrow> [])"

definition put_member :: "nat \<Rightarrow> jstr \<Rightarrow> val \<Rightarrow> unit js_prog" where
  "put_member r k v = modify (\<lambda>w. w\<lparr>objs := (objs w)[r := Obj (put_prop k v (own_props (objs w) r))]\<rparr>)"

definition retrieve_one :: "nat \<Rightarrow> jstr \<Rightarrow> unit js_prog" where
  "retrieve_one obj i =
     try_catch (bnd (retrieveValue i) (\<lambda>v. put_member obj i v))
       (\<lambda>error w. if map_of (own_props (objs w) obj) i = Some Null
                  then log_at ''warn'' [Str (js ''Missing id '' @ i)] w
                  else (Inr (), w))"

definition retrieveValues :: "nat \<Rightarrow> val js_prog" where
  "retrieveValues obj =
     bnd (gets (\<lambda>w. map fst (own_props (objs w) obj))) (\<lambda>propertyNames.
       seq (for_each propertyNames (retrieve_one obj)) (ret (Ref obj)))"

text \<open>\<open>JSON.stringify\<close> and \<open>JSON.parse\<close> as statements.\<close>

definition json_stringify :: "val \<Rightarrow> val js_prog" where
  "json_stringify v = (\<lambda>w. (stringify (objs w) v, w))"

definition json_stringify2 :: "val \<Rightarrow> val js_prog" where
  "json_stringify2 v = (\<lambda>w. (stringify2 (objs w) v, w))"

definition json_parse_val :: "val \<Rightarrow> val js_prog" where
  "json_parse_val v =
     (\<lambda>w. case parse_json (objs w) v of Inl e \<Rightarrow> (Inl e, w) | Inr (u, h) \<Rightarrow> (Inr u, w\<lparr>objs := h\<rparr>))"

definition deepClone :: "val \<Rightarrow> val js_prog" where
  "deepClone obj = bnd (json_stringify obj) json_parse_val"

definition prettifyJson :: "jstr \<Rightarrow> unit js_prog" where
  "prettifyJson elementId =
     bnd (retrieveValue elementId) (\<lambda>raw.
     bnd (json_parse_val raw) (\<lambda>obj.
     bnd (get_element elementId) (\<lambda>el.
     bnd (json_stringify2 obj) (\<lambda>text. assign_value el text))))"

subsection \<open>Texts without carriage returns\<close>

lemma fmt_digits_units:
  "c \<in> set (fmt_digits ds n) \<Longrightarrow> ds \<noteq> [] \<Longrightarrow>
     c \<in> set ds \<or> is_digit c \<or> c = 43 \<or> c = 45 \<or> c = 46 \<or> c = 101"
  unfolding fmt_digits_def
  by (auto simp: Let_def is_digit_def dest: in_set_takeD in_set_dropD list.set_sel dec_digits_digit
      split: if_splits)

lemma num_text_no_cr: "wf_num x \<Longrightarrow> 13 \<notin> set (num_to_string x)"
  by (cases x) (auto simp: js_def num_to_string.simps Let_def dest!: fmt_digits_units dec_digits_digit
      split: if_splits prod.splits)

lemma hex_digit_no_cr:
  assumes "n < 16"
  shows "hex_digit n \<noteq> 13"
proof -
  have "\<forall>n \<in> set [0..<16]. hex_digit n \<noteq> 13" by code_simp
  with assms show ?thesis by simp
qed

lemma escape_no_cr: "13 \<notin> set (escape_unit c)"
proof -
  have "unat c < 65536" using unsigned_less [of c, where ?'a = nat] by simp
  then have "unat c div 4096 < 16" by simp
  then show ?thesis using hex_digit_no_cr by (simp add: escape_unit_def)
qed

lemma quote_unit_no_cr: "13 \<notin> set (quote_unit c)"
  by (auto simp: quote_unit_def escape_no_cr)

lemma quote_units_no_cr: "13 \<notin> set (quote_units s)"
  by (induction s rule: quote_units.induct)
    (auto simp: quote_unit_no_cr escape_no_cr is_high_def is_low_def)

lemma join_no_cr: "13 \<notin> set sep \<Longrightarrow> \<forall>x \<in> set xs. 13 \<notin> set x \<Longrightarrow> (13 :: unit16) \<notin> set (join_with sep xs)"
  by (induction sep xs rule: join_with.induct) auto

lemma normalise_no_cr: "13 \<notin> set s \<Longrightarrow> normalise_newlines s = s"
  by (induction s rule: normalise_newlines.induct) auto

lemma wrap_no_cr:
  "13 \<notin> set gap \<Longrightarrow> 13 \<notin> set ind \<Longrightarrow> opn \<noteq> 13 \<Longrightarrow> cls \<noteq> 13 \<Longrightarrow> \<forall>x \<in> set parts. 13 \<notin> set x \<Longrightarrow>
     13 \<notin> set (wrap gap ind opn cls parts)"
  using join_no_cr [of "[44]" parts] join_no_cr [of "44 # 10 # ind @ gap" parts]
  by (simp add: wrap_def)

lemma ser_no_cr:
  "wf_json j \<Longrightarrow> 13 \<notin> set gap \<Longrightarrow> 13 \<notin> set ind \<Longrightarrow> 13 \<notin> set (ser gap ind j)"
  "wf_json_props ps \<Longrightarrow> 13 \<notin> set gap \<Longrightarrow> 13 \<notin> set ind \<Longrightarrow> \<forall>x \<in> set (ser_props gap ind ps). 13 \<notin> set x"
proof (induction gap ind j and gap ind ps rule: ser_ser_props.induct)
  case (3 gap ind x)
  then show ?case using num_text_no_cr [of x] by (cases x) (auto simp: js_def simp del: num_to_string.simps)
next
  case (5 gap ind xs)
  then show ?case using wrap_no_cr [of gap ind 91 93 "map (ser gap (ind @ gap)) xs"] by simp
next
  case (6 gap ind ps)
  then show ?case using wrap_no_cr [of gap ind 123 125 "ser_props gap (ind @ gap) ps"] by simp
qed (auto simp: js_def quote_string_def quote_units_no_cr)

lemma normalise_pretty [simp]: "wf_json j \<Longrightarrow> normalise_newlines (json_pretty j) = json_pretty j"
  unfolding json_pretty_def by (intro normalise_no_cr ser_no_cr) auto

subsection \<open>Element values\<close>

lemmas retrieve_steps = retrieveValue_def get_element_Some get_element_None bnd_Inr bnd_Inl gets_def Let_def

lemma retrieveValue_missing: "element_by_id w i = None \<Longrightarrow> retrieveValue i w = (Inl TypeError, w)"
  by (simp add: retrieve_steps)

text \<open>What reading an element gives, by its role.\<close>

definition node_value :: "heap \<Rightarrow> node \<Rightarrow> val" where
  "node_value h n =
     (if role n = NumberInput then Num (to_number h (get_value n))
      else if role n = Checkbox then Bool (checked n) else get_value n)"

lemma el_type_number [simp]: "el_type r = Some (js ''number'') \<longleftrightarrow> r = NumberInput"
  and el_type_checkbox [simp]: "el_type r = Some (js ''checkbox'') \<longleftrightarrow> r = Checkbox"
  by (cases r; simp)+

lemma retrieveValue_found:
  "element_by_id w i = Some el \<Longrightarrow> retrieveValue i w = (Inr (node_value (objs w) (node_at w el)), w)"
  by (simp add: retrieve_steps node_value_def)

text \<open>The value an element shows after \<open>setValue\<close>.\<close>

definition shown_value :: "heap \<Rightarrow> role \<Rightarrow> val \<Rightarrow> val" where
  "shown_value h r v =
     (case r of
        NumberInput \<Rightarrow>
          Num (case to_number h v of Fin neg m e \<Rightarrow> unsigned_zero (Fin neg m e) | _ \<Rightarrow> zero)
      | Checkbox \<Rightarrow> Bool (v = Bool True \<or> v = Str (js ''true'') \<or> positive (to_number h v))
      | TextInput \<Rightarrow> Str (filter (\<lambda>c. c \<noteq> 10 \<and> c \<noteq> 13) (legacy_text h v))
      | TextArea \<Rightarrow> Str (normalise_newlines (legacy_text h v))
      | HiddenInput \<Rightarrow> Str (legacy_text h v)
      | Select opts \<Rightarrow> Str (if to_string h v \<in> set opts then to_string h v else [])
      | FileInput \<Rightarrow> Str []
      | Plain \<Rightarrow> v)"

lemma wf_to_number [simp]: "val_ok n v \<Longrightarrow> wf_num (to_number h v)"
  by (cases v) (auto simp: to_number_def wf_round_num)

lemma number_text_value:
  assumes "wf_num x"
  shows "string_to_num (let s = num_to_string x in if valid_float s then s else []) =
     (case x of Fin neg m e \<Rightarrow> unsigned_zero (Fin neg m e) | _ \<Rightarrow> zero)"
proof -
  have "\<not> valid_float (js ''NaN'')" "\<not> valid_float (js ''Infinity'')"
    "\<not> valid_float (45 # js ''Infinity'')" "string_to_num [] = zero"
    by code_simp+
  then show ?thesis
    using assms valid_float_text string_to_num_text [OF assms]
    by (cases x) (auto simp: Let_def num_to_string.simps(1,2) simp del: num_to_string.simps(3) unsigned_zero.simps)
qed

lemma to_string_simps [simp]: "to_string h (Str s) = s" "to_string h (Num x) = num_to_string x"
  by (simp_all add: to_string_def)

text \<open>\<open>setValue\<close> as a function of the element.\<close>

definition put_value :: "heap \<Rightarrow> val \<Rightarrow> node \<Rightarrow> exn + node" where
  "put_value h v n =
     (if role n = NumberInput then set_value h (Num (to_number h v)) n
      else if role n = Checkbox
      then Inr (n\<lparr>checked := v = Bool True \<or> v = Str (js ''true'') \<or> positive (to_number h v)\<rparr>)
      else set_value h v n)"

lemma setValue_put:
  "element_by_id w i = Some el \<Longrightarrow> setValue i v w =
     (case put_value (objs w) v (node_at w el) of
        Inl e \<Rightarrow> (Inl e, w) | Inr n \<Rightarrow> (Inr (), set_node el (\<lambda>_. n) w))"
  by (simp add: setValue_def get_element_Some bnd_Inr put_value_def assign_value_def Let_def
      set_node_def node_at_def)

lemma put_value_ok:
  assumes "role n \<noteq> FileInput" "val_ok k v"
  shows "\<exists>n'. put_value h v n = Inr n' \<and> ident n' = ident n \<and> role n' = role n \<and>
           node_value h n' = shown_value h (role n) v"
  using assms number_text_value [OF wf_to_number [OF assms(2), of h]]
  by (cases "role n")
    (simp_all add: put_value_def set_value_def node_value_def get_value_def shown_value_def
      legacy_text_def to_number_def [of _ "Str _"] Let_def)

lemma node_value_Plain: "role n \<noteq> NumberInput \<Longrightarrow> node_value h n = node_value h' n"
  by (simp add: node_value_def)

text \<open>C9: Setting the element with an id and reading it back gives the value as the kind of element
  shows it (number inputs a finite number or 0, check boxes a boolean, text areas with normalised
  line breaks), and the elements of other ids read as before.\<close>

theorem setValue_retrieveValue:
  assumes tree: "tree_ok w" and el: "element_by_id w i = Some el" and v: "val_ok k v"
    and role: "role (node_at w el) \<noteq> FileInput"
  shows "\<exists>w'. setValue i v w = (Inr (), w') \<and>
           retrieveValue i w' = (Inr (shown_value (objs w) (role (node_at w el)) v), w') \<and>
           (\<forall>j. j \<noteq> i \<longrightarrow> fst (retrieveValue j w') = fst (retrieveValue j w))"
proof -
  have lt: "el < length (nodes w)" using element_by_id_lt [OF tree el] .
  obtain n where n: "put_value (objs w) v (node_at w el) = Inr n" "ident n = ident (node_at w el)"
      "node_value (objs w) n = shown_value (objs w) (role (node_at w el)) v"
    using put_value_ok [OF role v] by blast
  let ?w = "set_node el (\<lambda>_. n) w"
  have ids: "element_by_id ?w j = element_by_id w j" for j using n(2) by simp
  have "fst (retrieveValue j ?w) = fst (retrieveValue j w)" if "j \<noteq> i" for j
  proof (cases "element_by_id w j")
    case None
    then show ?thesis by (simp add: ids retrieveValue_missing)
  next
    case (Some b)
    then have "b \<noteq> el" using element_by_id_props [OF el] element_by_id_props [OF Some] that by auto
    then show ?thesis using Some by (simp add: retrieveValue_found ids)
  qed
  then show ?thesis using n lt by (simp add: setValue_put [OF el] retrieveValue_found [OF el]
      retrieveValue_found [of ?w i el] ids el)
qed

lemma setValue_retrieveValue_witness:
  "\<exists>w'. setValue (js ''n'') (Str (js ''2.50'')) sample_page = (Inr (), w') \<and>
     retrieveValue (js ''n'') w' =
       (Inr (shown_value [] NumberInput (Str (js ''2.50''))), w') \<and>
     (\<forall>j. j \<noteq> js ''n'' \<longrightarrow> fst (retrieveValue j w') = fst (retrieveValue j sample_page))"
  using setValue_retrieveValue [of sample_page "js ''n''" 2 0 "Str (js ''2.50'')"]
  by (simp add: sample_tree sample_ids sample_nodes sample_page_def [THEN arg_cong, of objs])

subsection \<open>Collecting a form\<close>

text \<open>The state of form controls: their values are texts.\<close>

definition node_ok :: "node \<Rightarrow> bool" where
  "node_ok n \<longleftrightarrow> role n = Plain \<or> (\<exists>s. stored n = Str s)"

definition nodes_ok :: "world \<Rightarrow> bool" where
  "nodes_ok w \<longleftrightarrow> (\<forall>n \<in> set (nodes w). node_ok n)"

lemma node_value_heap: "node_ok n \<Longrightarrow> node_value h n = node_value h' n"
  by (cases "files n")
    (auto simp: node_value_def node_ok_def get_value_def to_number_def split: val.splits)

text \<open>What \<open>retrieveValues\<close> puts under a key, and the keys it warns about.\<close>

definition collected :: "world \<Rightarrow> jstr \<times> val \<Rightarrow> jstr \<times> val" where
  "collected w p =
     (case element_by_id w (fst p) of
        None \<Rightarrow> p | Some el \<Rightarrow> (fst p, node_value (objs w) (node_at w el)))"

definition warned :: "world \<Rightarrow> jstr \<times> val \<Rightarrow> bool" where
  "warned w p \<longleftrightarrow> element_by_id w (fst p) = None \<and> snd p = Null"

definition warning :: "jstr \<times> val \<Rightarrow> string \<times> val list" where
  "warning p = (''warn'', [Str (js ''Missing id '' @ fst p)])"

lemma put_prop_middle:
  assumes "distinct (map fst (ps @ (k, v) # qs))"
  shows "put_prop k u (ps @ (k, v) # qs) = ps @ (k, u) # qs"
proof -
  have "map (\<lambda>(k', v'). if k' = k then (k, u) else (k', v')) xs = xs" if "k \<notin> fst ` set xs" for xs :: "(jstr \<times> 'a) list"
    using that by (induction xs) auto
  then show ?thesis using assms by (auto simp: put_prop_def)
qed

lemma map_of_middle: "distinct (map fst (ps @ (k, v) # qs)) \<Longrightarrow> map_of (ps @ (k, v) # qs) k = Some v"
  by (rule map_of_is_SomeI) auto

lemma retrieve_one_step:
  assumes r: "r < length (objs w)" "objs w ! r = Obj (ps @ (k, v) # qs)"
    and d: "distinct (map fst (ps @ (k, v) # qs))"
  shows "retrieve_one r k w =
     (Inr (), w\<lparr>objs := (objs w)[r := Obj (ps @ collected w (k, v) # qs)],
                console := console w @ (if warned w (k, v) then [warning (k, v)] else [])\<rparr>)"
proof (cases "element_by_id w k")
  case None
  have "own_props (objs w) r = ps @ (k, v) # qs" using r by (simp add: own_props_def)
  then have "map_of (own_props (objs w) r) k = Some v" using map_of_middle [OF d] by simp
  moreover have "(objs w)[r := Obj (ps @ (k, v) # qs)] = objs w"
    using r by (metis list_update_id)
  ultimately show ?thesis using None
    by (simp add: retrieve_one_def try_catch_def bnd_Inl retrieveValue_missing collected_def
        warned_def warning_def log_at_def modify_def)
next
  case (Some el)
  then show ?thesis using r put_prop_middle [OF d]
    by (simp add: retrieve_one_def try_catch_def bnd_Inr retrieveValue_found put_member_def
        modify_def own_props_def collected_def warned_def)
qed

lemma retrieve_loop:
  assumes "nodes_ok w" "tree_ok w"
  shows "r < length h \<Longrightarrow> h ! r = Obj (map (collected w) ps @ qs) \<Longrightarrow> distinct (map fst (ps @ qs)) \<Longrightarrow>
    for_each (map fst qs) (retrieve_one r) (w\<lparr>objs := h, console := c\<rparr>) =
      (Inr (), w\<lparr>objs := h[r := Obj (map (collected w) (ps @ qs))],
                 console := c @ map warning (filter (warned w) qs)\<rparr>)"
proof (induction qs arbitrary: ps h c)
  case Nil
  then show ?case by (simp add: ret_def) (metis list_update_id)
next
  case (Cons q qs)
  obtain k v where q: "q = (k, v)" by fastforce
  let ?w = "w\<lparr>objs := h, console := c\<rparr>"
  have fst_collected: "map (fst \<circ> collected w) xs = map fst xs" for xs
    by (auto simp: collected_def split: option.splits)
  have ids: "element_by_id ?w j = element_by_id w j" for j
    by (intro element_by_id_cong) auto
  have "collected ?w q = collected w q"
  proof (cases "element_by_id w k")
    case (Some el)
    have "node_ok (node_at w el)"
      using assms element_by_id_lt [OF assms(2) Some] by (simp add: nodes_ok_def node_at_def)
    then show ?thesis using Some node_value_heap [of "node_at w el" h "objs w"]
      by (simp add: collected_def ids q node_at_def)
  qed (simp add: collected_def ids q)
  moreover have "warned ?w q = warned w q" by (simp add: warned_def ids)
  moreover have "distinct (map fst (map (collected w) ps @ q # qs))"
    using Cons.prems(3) by (simp only: map_append map_map fst_collected)
  ultimately have step: "retrieve_one r (fst q) ?w =
     (Inr (), w\<lparr>objs := h[r := Obj (map (collected w) (ps @ [q]) @ qs)],
                console := c @ map warning (filter (warned w) [q])\<rparr>)"
    using retrieve_one_step [of r ?w "map (collected w) ps" k v qs] Cons.prems(1,2)
    by (simp add: q)
  show ?case
    using Cons.IH [of "h[r := Obj (map (collected w) (ps @ [q]) @ qs)]" "ps @ [q]"
        "c @ map warning (filter (warned w) [q])"] Cons.prems
    by (simp add: seq_Inr [where m = "retrieve_one r (fst q)", OF step])
qed

lemma retrieve_all:
  assumes ok: "tree_ok w" "nodes_ok w"
    and r: "r < length (objs w)" "objs w ! r = Obj ps" and d: "distinct (map fst ps)"
  shows "retrieveValues r w =
     (Inr (Ref r), w\<lparr>objs := (objs w)[r := Obj (map (collected w) ps)],
                      console := console w @ map warning (filter (warned w) ps)\<rparr>)"
  using retrieve_loop [OF ok(2,1) r(1), of "[]" ps "console w"] r d
  by (simp add: retrieveValues_def own_props_def seq_Inr ret_def)

text \<open>C13: retrieveValues never throws: every property whose name is the id of an element gets the
  value of that element in place, the others stay, and a warning is logged exactly for the missing
  ids whose property is null.\<close>

theorem retrieveValues_spec:
  assumes "tree_ok w" "nodes_ok w" "r < length (objs w)" "objs w ! r = Obj ps" "distinct (map fst ps)"
  shows "retrieveValues r w =
     (Inr (Ref r), w\<lparr>objs := (objs w)[r := Obj (map (collected w) ps)],
                      console := console w @ map warning (filter (warned w) ps)\<rparr>)"
  by (rule retrieve_all [OF assms])

definition sample_form :: world where
  "sample_form = sample_page\<lparr>objs := [Obj [(js ''t'', Null), (js ''zz'', Null), (js ''n'', Num zero)]]\<rparr>"

lemma sample_form_ok: "tree_ok sample_form" "nodes_ok sample_form"
  "objs sample_form = [Obj [(js ''t'', Null), (js ''zz'', Null), (js ''n'', Num zero)]]"
proof -
  show "tree_ok sample_form" using sample_tree by (simp add: sample_form_def tree_ok_def)
qed (simp_all add: sample_form_def sample_page_def nodes_ok_def node_ok_def blank_def)

lemma retrieveValues_witness:
  "retrieveValues 0 sample_form =
     (Inr (Ref 0), sample_form\<lparr>
        objs := (objs sample_form)[0 := Obj (map (collected sample_form)
                  [(js ''t'', Null), (js ''zz'', Null), (js ''n'', Num zero)])],
        console := console sample_form @ map warning (filter (warned sample_form)
                  [(js ''t'', Null), (js ''zz'', Null), (js ''n'', Num zero)])\<rparr>)"
  by (rule retrieveValues_spec) (simp_all add: sample_form_ok)

subsection \<open>Clones\<close>

definition world_heap_ok :: "world \<Rightarrow> bool" where
  "world_heap_ok w \<longleftrightarrow> heap_ok (objs w)"

lemma stringify_tree:
  "tree h [] v = Inr (Some j) \<Longrightarrow> stringify h v = Inr (Str (json_text j))"
  by (simp add: stringify_def)

lemma parse_json_text:
  "json_parse s = Some j \<Longrightarrow> parse_json h (Str s) = Inr (build j h)"
  by (simp add: parse_json_def)

text \<open>An old value keeps its tree when the heap grows.\<close>

lemma tree_extend:
  assumes h: "heap_ok h" and v: "val_ok (length h) v"
  shows "tree (h @ new) [] v = tree h [] v"
proof -
  have "\<forall>i < length h. h ! i = (h @ new) ! i \<and> obj_refs (h ! i) \<subseteq> {..<length h}"
    using h obj_ok_refs by (simp add: heap_ok_def nth_append)
  from tree_frame(1) [OF this, of v "[]"] val_ok_refs [OF v] show ?thesis by simp
qed

text \<open>C8: A clone of a value that has a JSON text is a new structure with the tree of the original as
  its text carries it; the original keeps its tree, and everything reachable from the clone is
  newly allocated.\<close>

theorem deepClone_spec:
  assumes h: "heap_ok (objs w)" and v: "val_ok (length (objs w)) v"
    and j: "tree (objs w) [] v = Inr (Some j)"
  shows "\<exists>u new. deepClone v w = (Inr u, w\<lparr>objs := objs w @ new\<rparr>) \<and>
           tree (objs w @ new) [] u = Inr (Some (via_text j)) \<and>
           tree (objs w @ new) [] v = Inr (Some j) \<and>
           (\<forall>r. reaches (objs w @ new) u r \<longrightarrow> length (objs w) \<le> r \<and> r < length (objs w @ new)) \<and>
           heap_ok (objs w @ new) \<and> val_ok (length (objs w @ new)) u"
proof -
  have wf: "wf_json j" using wf_tree(1) [OF h v j] .
  obtain u h' where b: "build (via_text j) (objs w) = (u, h')" by fastforce
  obtain new where new: "h' = objs w @ new" using build_extends(1) [OF b] by blast
  have "deepClone v w = (Inr u, w\<lparr>objs := objs w @ new\<rparr>)"
    using wf b new by (simp add: deepClone_def bnd_def json_stringify_def stringify_tree [OF j]
        json_parse_val_def parse_json_text)
  moreover have "tree (objs w @ new) [] u = Inr (Some (via_text j))"
    using tree_build(1) [OF b, of "[]" "[]"] by (simp add: new)
  moreover have "tree (objs w @ new) [] v = Inr (Some j)" using tree_extend [OF h v] j by simp
  moreover have "\<forall>r. reaches (objs w @ new) u r \<longrightarrow> length (objs w) \<le> r \<and> r < length (objs w @ new)"
    using build_reaches [OF b] by (auto simp: new)
  moreover have "heap_ok (objs w @ new) \<and> val_ok (length (objs w @ new)) u"
    using build_ok(1) [OF h _ b] wf by (simp add: new)
  ultimately show ?thesis by blast
qed

text \<open>An object with a shared array in it, and one that is part of itself.\<close>

definition sample_heap :: heap where
  "sample_heap = [Arr [Bool True, Undefined], Obj [(js ''a'', Ref 0), (js ''b'', Ref 0)], Obj [(js ''me'', Ref 2)]]"

lemma sample_heap_ok: "heap_ok sample_heap" "length sample_heap = 3"
  by (auto simp: heap_ok_def sample_heap_def less_Suc_eq props_ok_def key_before_def is_index_key_def
      js_def is_digit_def)

lemma sample_trees:
  "tree sample_heap [] (Ref 1) =
     Inr (Some (JObj [(js ''a'', JArr [JBool True, JNull]), (js ''b'', JArr [JBool True, JNull])]))"
  "tree sample_heap [] (Ref 2) = Inl TypeError"
  by (simp_all add: sample_heap_def)

lemma deepClone_witness:
  "\<exists>u new. deepClone (Ref 1) (sample_page\<lparr>objs := sample_heap\<rparr>) =
       (Inr u, (sample_page\<lparr>objs := sample_heap\<rparr>)\<lparr>objs := sample_heap @ new\<rparr>)"
  using deepClone_spec [of "sample_page\<lparr>objs := sample_heap\<rparr>" "Ref 1"] sample_heap_ok sample_trees(1)
  by auto

text \<open>Cloning a value that is part of itself throws the TypeError of JSON.stringify, cloning undefined
  throws SyntaxError, and the world stays as it was.\<close>

lemma deepClone_error:
  assumes "tree (objs w) [] v = Inl e \<or> tree (objs w) [] v = Inr None"
  shows "deepClone v w = (Inl (case tree (objs w) [] v of Inl e \<Rightarrow> e | Inr _ \<Rightarrow> SyntaxError), w)"
proof -
  have "json_parse (js ''undefined'') = None" by code_simp
  moreover have "to_string (objs w) Undefined = js ''undefined''" by (simp add: to_string_def)
  ultimately have "parse_json (objs w) Undefined = Inl SyntaxError" by (simp add: parse_json_def)
  then show ?thesis
    using assms by (auto simp: deepClone_def bnd_def json_stringify_def stringify_def json_parse_val_def)
qed

lemma deepClone_error_witness:
  "deepClone (Ref 2) (sample_page\<lparr>objs := sample_heap\<rparr>) = (Inl TypeError, sample_page\<lparr>objs := sample_heap\<rparr>)"
  using deepClone_error [of "sample_page\<lparr>objs := sample_heap\<rparr>" "Ref 2" TypeError] sample_trees(2) by simp

subsection \<open>Pretty printing\<close>

lemma pretty_via_text [simp]: "json_pretty (via_text j) = json_pretty j"
  by (simp add: json_pretty_def)

lemma prettify_step:
  assumes tree: "tree_ok w" and el: "element_by_id w i = Some el"
    and area: "role (node_at w el) = TextArea" "stored (node_at w el) = Str s"
    and j: "json_parse s = Some j"
  shows "\<exists>new. prettifyJson i w = (Inr (), set_node el (\<lambda>n. n\<lparr>stored := Str (json_pretty j)\<rparr>)
             (w\<lparr>objs := objs w @ new\<rparr>))"
proof -
  have wf: "wf_json j" using wf_json_parse [OF j] .
  obtain u h' where b: "build j (objs w) = (u, h')" by fastforce
  obtain new where new: "h' = objs w @ new" using build_extends(1) [OF b] by blast
  let ?w = "w\<lparr>objs := objs w @ new\<rparr>"
  have el': "element_by_id ?w i = Some el"
    using el element_by_id_cong [of ?w w i] by (simp add: document_def)
  have "retrieveValue i w = (Inr (Str s), w)"
    using retrieveValue_found [OF el] area by (simp add: node_value_def get_value_def)
  moreover have "json_parse_val (Str s) w = (Inr u, ?w)"
    by (simp add: json_parse_val_def parse_json_text [OF j] b new)
  moreover have "json_stringify2 u ?w = (Inr (Str (json_pretty j)), ?w)"
    using tree_build(1) [OF b, of "[]" "[]"] by (simp add: json_stringify2_def stringify2_def new)
  moreover have "assign_value el (Str (json_pretty j)) ?w =
      (Inr (), set_node el (\<lambda>n. n\<lparr>stored := Str (json_pretty j)\<rparr>) ?w)"
    using area wf by (simp add: assign_value_def set_value_def legacy_text_def set_node_def node_at_def)
  ultimately show ?thesis by (intro exI [of _ new]) (simp add: prettifyJson_def bnd_Inr get_element_Some [OF el'])
qed

text \<open>C25: On a text area that holds a JSON text prettifyJson replaces the text by the indented text
  of the same tree and changes nothing else but new objects.\<close>

theorem prettifyJson_spec:
  assumes "tree_ok w" and "element_by_id w i = Some el"
    and "role (node_at w el) = TextArea" "stored (node_at w el) = Str s"
    and "json_parse s = Some j"
  shows "\<exists>new. prettifyJson i w = (Inr (), set_node el (\<lambda>n. n\<lparr>stored := Str (json_pretty j)\<rparr>)
             (w\<lparr>objs := objs w @ new\<rparr>))"
  by (rule prettify_step [OF assms])

lemma sample_area_text: "json_parse (js ''[1,true]'') = Some (JArr [JNum (round_num False 1 1), JBool True])"
  by code_simp

lemma prettifyJson_witness:
  "\<exists>new. prettifyJson (js ''t'') sample_page =
     (Inr (), set_node 3 (\<lambda>n. n\<lparr>stored := Str (json_pretty (JArr [JNum (round_num False 1 1), JBool True]))\<rparr>)
        (sample_page\<lparr>objs := objs sample_page @ new\<rparr>))"
  by (rule prettifyJson_spec [OF sample_tree sample_ids(2) _ _ sample_area_text]) (simp_all add: sample_nodes)

text \<open>C26: After prettifyJson the text parses to the tree it had before as a text carries it (minus
  zero becomes 0, a number too large for a double becomes null), and prettifying again leaves all
  elements as they are.\<close>

theorem prettifyJson_twice:
  assumes tree: "tree_ok w" and el: "element_by_id w i = Some el"
    and area: "role (node_at w el) = TextArea" "stored (node_at w el) = Str s"
    and first: "prettifyJson i w = (Inr (), w1)"
  shows "\<exists>w2. prettifyJson i w1 = (Inr (), w2) \<and> nodes w2 = nodes w1 \<and>
     (\<exists>j. json_parse s = Some j \<and> stored (node_at w1 el) = Str (json_pretty j) \<and>
          json_parse (json_pretty j) = Some (via_text j))"
proof -
  have lt: "el < length (nodes w)" using element_by_id_lt [OF tree el] .
  obtain j where j: "json_parse s = Some j"
  proof (cases "json_parse s")
    case None
    have "retrieveValue i w = (Inr (Str s), w)"
      using retrieveValue_found [OF el] area by (simp add: node_value_def get_value_def)
    then show ?thesis using first None
      by (simp add: prettifyJson_def bnd_Inr bnd_Inl json_parse_val_def parse_json_def)
  qed (use that in blast)
  have wf: "wf_json j" using wf_json_parse [OF j] .
  obtain new where w1: "w1 = set_node el (\<lambda>n. n\<lparr>stored := Str (json_pretty j)\<rparr>) (w\<lparr>objs := objs w @ new\<rparr>)"
    using prettify_step [OF tree el area j] first by auto
  have tree1: "tree_ok w1" using tree by (simp add: w1 tree_ok_def)
  have el1: "element_by_id w1 i = Some el"
    using el element_by_id_cong [of "w\<lparr>objs := objs w @ new\<rparr>" w i] by (simp add: w1 document_def node_at_def)
  have n1: "node_at w1 el = (node_at w el)\<lparr>stored := Str (json_pretty j)\<rparr>"
    using lt by (simp add: w1 node_at_def set_node_def)
  obtain new' where w2: "prettifyJson i w1 = (Inr (), set_node el (\<lambda>n. n\<lparr>stored := Str (json_pretty (via_text j))\<rparr>)
      (w1\<lparr>objs := objs w1 @ new'\<rparr>))"
    using prettify_step [OF tree1 el1, of "json_pretty j" "via_text j"] n1 area(1) wf by auto
  have "(nodes w1)[el := (nodes w1 ! el)\<lparr>stored := Str (json_pretty j)\<rparr>] = nodes w1"
    using n1 lt by (intro list_update_same_conv [THEN iffD2]) (simp_all add: w1 node_at_def set_node_def)
  then show ?thesis using w2 j wf n1 by (auto simp: set_node_def)
qed

lemma prettifyJson_twice_witness:
  "\<exists>w1 w2. prettifyJson (js ''t'') sample_page = (Inr (), w1) \<and> prettifyJson (js ''t'') w1 = (Inr (), w2) \<and>
     nodes w2 = nodes w1"
proof -
  obtain w1 where w1: "prettifyJson (js ''t'') sample_page = (Inr (), w1)"
    using prettify_step [OF sample_tree sample_ids(2) _ _ sample_area_text] sample_nodes by auto
  from prettifyJson_twice [OF sample_tree sample_ids(2) _ _ w1] w1 sample_nodes show ?thesis by auto
qed

subsection \<open>Well-formed worlds\<close>

text \<open>The heap is well formed, and so are the values the elements hold.\<close>

definition typed :: "world \<Rightarrow> bool" where
  "typed w \<longleftrightarrow> heap_ok (objs w) \<and> (\<forall>n \<in> set (nodes w). node_ok n \<and> val_ok (length (objs w)) (stored n))"

inductive form_step :: "world \<Rightarrow> world \<Rightarrow> bool" where
  form_set: "val_ok (length (objs w)) v \<Longrightarrow> setValue i v w = (r, w') \<Longrightarrow> form_step w w'"
| form_collect: "a < length (objs w) \<Longrightarrow> objs w ! a = Obj ps \<Longrightarrow> retrieveValues a w = (x, w') \<Longrightarrow> form_step w w'"
| form_clone: "val_ok (length (objs w)) v \<Longrightarrow> deepClone v w = (x, w') \<Longrightarrow> form_step w w'"
| form_pretty: "prettifyJson i w = (r, w') \<Longrightarrow> form_step w w'"

lemma heap_ok_update: "heap_ok h \<Longrightarrow> obj_ok (length h) x \<Longrightarrow> heap_ok (h[r := x])"
  unfolding heap_ok_def by (metis length_list_update nth_list_update_eq nth_list_update_neq)

lemma set_value_typed:
  "node_ok n \<Longrightarrow> val_ok k v \<Longrightarrow> val_ok k (stored n) \<Longrightarrow> set_value h v n = Inr n' \<Longrightarrow> node_ok n' \<and> val_ok k (stored n')"
  by (cases "role n") (auto simp: set_value_def node_ok_def Let_def split: if_splits)

lemma put_value_typed:
  assumes "node_ok n" "val_ok k v" "val_ok k (stored n)" "put_value h v n = Inr n'"
  shows "node_ok n' \<and> val_ok k (stored n')"
proof (cases "role n = NumberInput \<or> role n = Checkbox")
  case False
  then show ?thesis using assms(4) set_value_typed [OF assms(1,2,3)] by (simp add: put_value_def)
next
  case True
  then show ?thesis
  proof
    assume "role n = NumberInput"
    then have "set_value h (Num (to_number h v)) n = Inr n'" using assms(4) by (simp add: put_value_def)
    moreover have "val_ok k (Num (to_number h v))" using assms(2) by simp
    ultimately show ?thesis using set_value_typed [OF assms(1) _ assms(3)] by blast
  next
    assume "role n = Checkbox"
    then show ?thesis using assms by (auto simp: put_value_def node_ok_def)
  qed
qed

lemma typed_set_node: "typed w \<Longrightarrow> node_ok n \<Longrightarrow> val_ok (length (objs w)) (stored n) \<Longrightarrow> typed (set_node a (\<lambda>_. n) w)"
  unfolding typed_def set_node_def using set_update_subset_insert by fastforce

lemma typed_node: "typed w \<Longrightarrow> a < length (nodes w) \<Longrightarrow> node_ok (node_at w a) \<and> val_ok (length (objs w)) (stored (node_at w a))"
  by (simp add: typed_def node_at_def)

lemma node_value_typed: "node_ok n \<Longrightarrow> val_ok k (stored n) \<Longrightarrow> val_ok k (node_value h n)"
  by (cases "files n") (simp_all add: node_value_def get_value_def split: role.split)

lemma parse_typed:
  assumes "typed w" "json_parse_val v w = (r, w')"
  shows "typed w'" "nodes w' = nodes w" "forest w' = forest w"
proof -
  have "typed w' \<and> nodes w' = nodes w \<and> forest w' = forest w"
  proof (cases "json_parse (to_string (objs w) v)")
    case (Some j)
    obtain u h' where b: "build j (objs w) = (u, h')" by fastforce
    have "heap_ok h'" using build_ok(1) [OF _ wf_json_parse [OF Some] b] assms(1) by (simp add: typed_def)
    moreover have "w' = w\<lparr>objs := h'\<rparr>"
      using assms(2) Some b by (simp add: json_parse_val_def parse_json_def)
    moreover have "val_ok (length h') x" if "val_ok (length (objs w)) x" for x
      using val_ok_mono [OF that build_grows(1) [OF b]] .
    ultimately show ?thesis using assms(1) by (simp add: typed_def)
  qed (use assms in \<open>simp add: json_parse_val_def parse_json_def\<close>)
  then show "typed w'" "nodes w' = nodes w" "forest w' = forest w" by simp_all
qed

lemma set_typed:
  assumes "tree_ok w" "typed w" "val_ok (length (objs w)) v"
  shows "typed (snd (setValue i v w))"
proof (cases "element_by_id w i")
  case None
  then show ?thesis using assms(2) by (simp add: setValue_def bnd_Inl get_element_None)
next
  case (Some el)
  have node: "node_ok (node_at w el)" "val_ok (length (objs w)) (stored (node_at w el))"
    using typed_node [OF assms(2) element_by_id_lt [OF assms(1) Some]] by simp_all
  show ?thesis
  proof (cases "put_value (objs w) v (node_at w el)")
    case (Inr n)
    have "node_ok n \<and> val_ok (length (objs w)) (stored n)"
      using put_value_typed [OF node(1) assms(3) node(2) Inr] .
    then show ?thesis using typed_set_node [OF assms(2)] by (simp add: setValue_put [OF Some] Inr)
  qed (use assms(2) in \<open>simp add: setValue_put [OF Some]\<close>)
qed

lemma pretty_typed:
  assumes "tree_ok w" "typed w"
  shows "typed (snd (prettifyJson i w))"
proof (cases "element_by_id w i")
  case None
  then show ?thesis using assms by (simp add: prettifyJson_def bnd_Inl retrieveValue_missing)
next
  case (Some el)
  let ?raw = "node_value (objs w) (node_at w el)"
  obtain r u where u: "json_parse_val ?raw w = (r, u)" by fastforce
  note t = parse_typed [OF assms(2) u]
  have el: "element_by_id u i = Some el"
    using Some element_by_id_cong [OF t(3)] t(2) by (simp add: node_at_def)
  have lt: "el < length (nodes u)" using element_by_id_lt [OF assms(1) Some] t(2) by simp
  have "typed (snd (bnd (json_stringify2 x) (\<lambda>t. assign_value el t) u))" for x
  proof (cases "stringify2 (objs u) x")
    case (Inr y)
    then have "val_ok (length (objs u)) y"
      by (cases "tree (objs u) [] x") (auto simp: stringify2_def split: option.splits)
    then show ?thesis
      using Inr t(1) set_value_typed [of "node_at u el" "length (objs u)" y "objs u"] typed_node [OF t(1) lt]
        typed_set_node [OF t(1)]
      by (cases "set_value (objs u) y (node_at u el)") (simp_all add: bnd_def json_stringify2_def assign_value_def)
  qed (use t(1) in \<open>simp add: bnd_def json_stringify2_def\<close>)
  then show ?thesis
    using u t(1) by (cases r) (simp_all add: prettifyJson_def bnd_Inr bnd_Inl retrieveValue_found [OF Some] get_element_Some [OF el])
qed

lemma collected_ok:
  assumes "tree_ok w" "typed w" "obj_ok (length (objs w)) (Obj ps)"
  shows "obj_ok (length (objs w)) (Obj (map (collected w) ps))"
proof -
  have keys: "map fst (map (collected w) ps) = map fst ps" by (auto simp: collected_def split: option.splits)
  have "val_ok (length (objs w)) (snd (collected w p))" if "p \<in> set ps" for p
  proof (cases "element_by_id w (fst p)")
    case None
    then show ?thesis using that assms(3) by (cases p) (auto simp: collected_def)
  next
    case (Some el)
    from typed_node [OF assms(2) element_by_id_lt [OF assms(1) Some]] show ?thesis
      by (simp add: collected_def Some node_value_typed)
  qed
  then show ?thesis using assms(3) props_ok_keys [OF keys] by fastforce
qed

lemma typed_snoc: "typed w \<Longrightarrow> obj_ok (length (objs w)) x \<Longrightarrow> typed (w\<lparr>objs := objs w @ [x]\<rparr>)"
  by (auto simp: typed_def heap_ok_snoc intro: val_ok_mono simp del: obj_ok.simps)

text \<open>Setting an element, collecting a form, cloning and pretty printing keep the world well
  formed whether they return or throw: every reference of the heap is allocated, every property
  list is one of an object, and every form control holds a text.\<close>

lemma forms_typed:
  assumes "form_step w w'" "tree_ok w" "typed w"
  shows "typed w'"
  using assms(1)
proof cases
  case (form_set v i r)
  then show ?thesis using set_typed [OF assms(2,3), of v i] by simp
next
  case (form_collect a ps x)
  have ok: "obj_ok (length (objs w)) (Obj ps)"
    using form_collect(1,2) assms(3) unfolding typed_def heap_ok_def by metis
  have nodes: "nodes_ok w" using assms(3) by (simp add: typed_def nodes_ok_def)
  have "obj_ok (length (objs w)) (Obj (map (collected w) ps))" using collected_ok [OF assms(2,3) ok] .
  moreover have "distinct (map fst ps)" using ok by (simp add: props_ok_def)
  ultimately show ?thesis
    using form_collect assms(3) retrieve_all [OF assms(2) nodes form_collect(1,2)] heap_ok_update
    by (auto simp: typed_def simp del: obj_ok.simps)
next
  case (form_clone v x)
  show ?thesis
  proof (cases "stringify (objs w) v")
    case (Inl e)
    then show ?thesis using form_clone assms(3) by (simp add: deepClone_def bnd_def json_stringify_def)
  next
    case (Inr y)
    then have "json_parse_val y w = (x, w')" using form_clone by (simp add: deepClone_def bnd_def json_stringify_def)
    then show ?thesis by (rule parse_typed(1) [OF assms(3)])
  qed
next
  case (form_pretty i r)
  then show ?thesis using pretty_typed [OF assms(2,3), of i] by simp
qed

lemma forms_typed_witness:
  "typed (snd (setValue (js ''n'') (Str (js ''2.50'')) sample_page))"
proof -
  have "typed sample_page" by (simp add: typed_def sample_page_def heap_ok_def node_ok_def blank_def)
  moreover have "form_step sample_page (snd (setValue (js ''n'') (Str (js ''2.50'')) sample_page))"
    by (rule form_set [of _ "Str (js ''2.50'')" "js ''n''" "fst (setValue (js ''n'') (Str (js ''2.50'')) sample_page)"]) simp_all
  ultimately show ?thesis using forms_typed [OF _ sample_tree] by blast
qed

end
