(* ===== verification/Notifications.thy ===== *)
theory Notifications
  imports Browser
begin

section \<open>Notifications\<close>

text \<open>
  \<open>NotificationSystem\<close> of \<open>utils.js\<close>: a container in the page, notifications appended to it,
  closed by their button or by a timer, and removed half a second after they are closed; the
  shorthands and \<open>showNotification\<close>, \<open>showAlert\<close>, \<open>showError\<close>; and the listener that
  \<open>handleHtmxResults\<close> installs.
\<close>

subsection \<open>The code\<close>

text \<open>The container is looked up once, when the script runs.\<close>

definition load_container :: "unit js_prog" where
  "load_container = modify (\<lambda>w. w\<lparr>container := element_by_id w (js ''notification-container'')\<rparr>)"

definition default_timeout :: jnum where
  "default_timeout = round_num False 5000 1"

definition set_class_name :: "nat \<Rightarrow> jstr \<Rightarrow> unit js_prog" where
  "set_class_name a s = modify (set_node a (\<lambda>n. n\<lparr>classes := tokens s\<rparr>))"

definition ns_init :: "unit js_prog" where
  "ns_init =
     bnd (gets container) (\<lambda>k.
       if k = None then
         bnd create_element (\<lambda>d.
         seq (modify (\<lambda>w. w\<lparr>container := Some d\<rparr>))
        (seq (set_class_name d (js ''notification-container''))
             (bnd (gets body) (\<lambda>b. bnd (non_null b) (\<lambda>b. append_child b d)))))
       else ret ())"

text \<open>A child \<open>div\<close> with a class and a text, as \<open>show\<close> makes for the title and for the message.\<close>

definition add_text :: "nat \<Rightarrow> string \<Rightarrow> val \<Rightarrow> unit js_prog" where
  "add_text parent cls v =
     bnd create_element (\<lambda>e.
     seq (set_class_name e (js cls))
    (seq (\<lambda>w. set_content e (to_string (objs w) v) w)
         (append_child parent e)))"

definition ns_show :: "jstr \<Rightarrow> val \<Rightarrow> val \<Rightarrow> val \<Rightarrow> nat js_prog" where
  "ns_show type title message timeout =
     bnd create_element (\<lambda>notification.
     seq (set_class_name notification (js ''notification '' @ type))
    (bnd create_element (\<lambda>content.
     seq (set_class_name content (js ''notification-content''))
    (seq (if truthy title then add_text content ''notification-title'' title else ret ())
    (seq (if nullish message then ret () else add_text content ''notification-message'' message)
    (bnd create_element (\<lambda>closeBtn.
     seq (set_class_name closeBtn (js ''notification-close''))
    (seq (set_content closeBtn [215])
    (seq (modify (\<lambda>w. w\<lparr>close_buttons := close_buttons w @ [(closeBtn, notification)]\<rparr>))
    (seq (append_child notification content)
    (seq (append_child notification closeBtn)
    (seq (bnd (gets container) (\<lambda>k. bnd (non_null k) (\<lambda>k. append_child k notification)))
    (bnd (gets (\<lambda>w. if timeout = Undefined then default_timeout else to_number (objs w) timeout)) (\<lambda>t.
     seq (if positive t
          then bnd (set_timeout (AutoClose notification) (delay_of t)) (\<lambda>i.
                 modify (set_node notification (\<lambda>n. n\<lparr>timeout_id := Some i\<rparr>)))
          else ret ())
         (ret notification)))))))))))))))"

definition ns_close :: "nat \<Rightarrow> unit js_prog" where
  "ns_close notification =
     seq (\<lambda>w. case timeout_id (node_at w notification) of
                None \<Rightarrow> (Inr (), w) | Some i \<Rightarrow> clear_timeout i w)
    (seq (modify (set_node notification (class_add (js ''fade-out''))))
    (bnd (set_timeout (FadeOut notification) 500) (\<lambda>_. ret ())))"

text \<open>What the second timer does.\<close>

definition ns_remove :: "nat \<Rightarrow> unit js_prog" where
  "ns_remove notification =
     bnd (parent_node notification) (\<lambda>p.
       case p of None \<Rightarrow> ret () | Some p \<Rightarrow> remove_child p notification)"

definition ns_success :: "val \<Rightarrow> val \<Rightarrow> val \<Rightarrow> nat js_prog" where
  "ns_success title message timeout = ns_show (js ''success'') title message timeout"

definition ns_error :: "val \<Rightarrow> val \<Rightarrow> val \<Rightarrow> nat js_prog" where
  "ns_error title message timeout = ns_show (js ''error'') title message timeout"

definition ns_info :: "val \<Rightarrow> val \<Rightarrow> val \<Rightarrow> nat js_prog" where
  "ns_info title message timeout = ns_show (js ''info'') title message timeout"

definition ns_warning :: "val \<Rightarrow> val \<Rightarrow> val \<Rightarrow> nat js_prog" where
  "ns_warning title message timeout = ns_show (js ''warning'') title message timeout"

definition showNotification :: "jstr \<Rightarrow> val \<Rightarrow> val \<Rightarrow> unit js_prog" where
  "showNotification type title message =
     bnd (ns_show type title message Undefined) (\<lambda>_. ret ())"

definition showAlert :: "val \<Rightarrow> unit js_prog" where
  "showAlert title = bnd (ns_show (js ''info'') (Str (js ''INFO'')) title Undefined) (\<lambda>_. ret ())"

definition showError :: "val \<Rightarrow> unit js_prog" where
  "showError title = bnd (ns_show (js ''error'') (Str (js ''ERROR'')) title Undefined) (\<lambda>_. ret ())"

text \<open>A click on a close button.\<close>

definition click_close :: "nat \<Rightarrow> unit js_prog" where
  "click_close b = bnd (gets (\<lambda>w. map_of (close_buttons w) b)) (\<lambda>n.
     case n of None \<Rightarrow> ret () | Some n \<Rightarrow> ns_close n)"

text \<open>\<open>handleHtmxResults\<close> adds a listener; \<open>after_request\<close> is its body, for the status and the
  success flag of the event.\<close>

definition handleHtmxResults :: "unit js_prog" where
  "handleHtmxResults = modify (\<lambda>w. w\<lparr>htmx_listeners := htmx_listeners w + 1\<rparr>)"

definition event_text :: val where
  "event_text = Str (js ''[object CustomEvent]'')"

definition after_request :: "nat \<Rightarrow> bool \<Rightarrow> unit js_prog" where
  "after_request xhr_status successful =
     (if xhr_status = 404 then showError (Str (js ''Error: Could Not Find Resource''))
      else if \<not> successful then
        seq (showNotification (js ''error'') (Str (js ''Unexpected Error'')) event_text)
            (log_at ''error'' [event_text])
      else ret ())"

subsection \<open>Trees of new nodes\<close>

lemma subtree_in_append:
  "c \<notin> set (all_addrs F) \<Longrightarrow> subtree_in c (F @ E) = subtree_in c E"
proof (induction F)
  case (Cons t F)
  then have "subtree c t = None" using subtree_absent(1) [of c t] by simp
  with Cons show ?case by simp
qed simp

lemma prune_all_append:
  "c \<notin> set (all_addrs F) \<Longrightarrow> prune_all c (F @ E) = F @ prune_all c E"
  using prune_absent(2) [of c F] by (simp add: prune_all_def)

lemma attach_append:
  assumes "c \<notin> set (all_addrs F)" "p \<notin> set (all_addrs F)"
  shows "attach p c (F @ E) = F @ attach p c E"
  using assms graft_absent(2) [of p F]
  by (simp add: attach_def subtree_in_append prune_all_append split: option.splits)

lemma below_append: "c \<notin> set (all_addrs F) \<Longrightarrow> below c (F @ E) = below c E"
  by (simp add: below_def subtree_in_append)

lemma all_children_append: "c \<notin> set (all_addrs F) \<Longrightarrow> all_children c (F @ E) = all_children c E"
  using children_absent(2) [of c F] by simp

lemmas new_tree_simps = attach_append below_append all_children_append

subsection \<open>What \<open>show\<close> does, as one step\<close>

definition text_node :: "string \<Rightarrow> jstr \<Rightarrow> node" where
  "text_node cls s = blank\<lparr>classes := tokens (js cls), content := s\<rparr>"

lemma create_element_step:
  "create_element w = (Inr (length (nodes w)),
     w\<lparr>nodes := nodes w @ [blank], forest := forest w @ [Node (length (nodes w)) []]\<rparr>)"
  by (simp add: create_element_def plant_def)

lemma set_class_name_step:
  "set_class_name a s w = (Inr (), w\<lparr>nodes := (nodes w)[a := (nodes w ! a)\<lparr>classes := tokens s\<rparr>]\<rparr>)"
  by (simp add: set_class_name_def modify_def set_node_def)

lemma set_content_leaf:
  "all_children a (forest w) = [] \<Longrightarrow>
     set_content a s w = (Inr (), w\<lparr>nodes := (nodes w)[a := (nodes w ! a)\<lparr>content := s\<rparr>]\<rparr>)"
  by (simp add: set_content_def modify_def set_node_def)

lemma append_child_step:
  "p \<notin> set (below c (forest w)) \<Longrightarrow>
     append_child p c w = (Inr (), w\<lparr>forest := attach p c (forest w)\<rparr>)"
  by (simp add: append_child_def)

lemma add_text_step:
  assumes f: "forest w = F @ [Node a [], Node p ks]" and n: "n = length (nodes w)"
    and F: "\<forall>x \<in> set (all_addrs F). x < a" and ap: "a < p" "p < n"
    and ks: "\<forall>x \<in> set (all_addrs ks). p < x \<and> x < n"
  shows "add_text p cls v w =
    (Inr (), w\<lparr>nodes := nodes w @ [text_node cls (to_string (objs w) v)],
               forest := F @ [Node a [], Node p (ks @ [Node n []])]\<rparr>)"
proof -
  have nF: "n \<notin> set (all_addrs F)" "p \<notin> set (all_addrs F)" using F ap by fastforce+
  have nks: "n \<notin> set (all_addrs ks)" "p \<notin> set (all_addrs ks)" using ks by fastforce+
  have leaf: "all_children n (F @ [Node a [], Node p ks, Node n []]) = []"
    using nF nks ap by (simp add: new_tree_simps children_Node children_absent del: children.simps)
  have below: "below n (F @ [Node a [], Node p ks, Node n []]) = [n]"
    using nF nks ap subtree_absent(2) [of n ks] by (simp add: new_tree_simps) (simp add: below_def)
  have att: "attach p n (F @ [Node a [], Node p ks, Node n []]) = F @ [Node a [], Node p (ks @ [Node n []])]"
    using nF nks ap subtree_absent(2) [of n ks] prune_absent(2) [of n ks] graft_absent(2) [of p ks]
    by (simp add: new_tree_simps) (simp add: attach_def prune_Node del: prune.simps)
  let ?w = "\<lambda>nd. w\<lparr>nodes := nodes w @ [nd], forest := F @ [Node a [], Node p ks, Node n []]\<rparr>"
  have c: "create_element w = (Inr n, ?w blank)" by (simp add: create_element_step f n)
  have cl: "set_class_name n (js cls) (?w blank) = (Inr (), ?w (blank\<lparr>classes := tokens (js cls)\<rparr>))"
    by (simp add: set_class_name_step n list_update_append)
  have ct: "set_content n (to_string (objs w) v) (?w (blank\<lparr>classes := tokens (js cls)\<rparr>)) =
      (Inr (), ?w (text_node cls (to_string (objs w) v)))"
    using set_content_leaf [of n "?w (blank\<lparr>classes := tokens (js cls)\<rparr>)"] leaf
    by (simp add: n list_update_append text_node_def del: all_children_simps)
  have ac: "append_child p n (?w (text_node cls (to_string (objs w) v))) =
      (Inr (), ?w (text_node cls (to_string (objs w) v))
         \<lparr>forest := F @ [Node a [], Node p (ks @ [Node n []])]\<rparr>)"
    using append_child_step [of p n "?w (text_node cls (to_string (objs w) v))"] below att ap by simp
  show ?thesis
    using ct by (simp add: add_text_def bnd_Inr seq_Inr c cl ac)
qed

text \<open>The nodes of a notification and its tree, when it is numbered \<open>n\<close>.\<close>

definition part_nodes :: "heap \<Rightarrow> val \<Rightarrow> val \<Rightarrow> node list" where
  "part_nodes h title message =
     (if truthy title then [text_node ''notification-title'' (to_string h title)] else []) @
     (if nullish message then [] else [text_node ''notification-message'' (to_string h message)])"

definition shown_timer :: "heap \<Rightarrow> val \<Rightarrow> jnum" where
  "shown_timer h timeout = (if timeout = Undefined then default_timeout else to_number h timeout)"

definition shown_nodes :: "heap \<Rightarrow> jstr \<Rightarrow> val \<Rightarrow> val \<Rightarrow> nat option \<Rightarrow> node list" where
  "shown_nodes h type title message timer =
     blank\<lparr>classes := tokens (js ''notification '' @ type), timeout_id := timer\<rparr>
     # text_node ''notification-content'' [] # part_nodes h title message
     @ [text_node ''notification-close'' [215]]"

definition shown_tree :: "heap \<Rightarrow> nat \<Rightarrow> val \<Rightarrow> val \<Rightarrow> ntree" where
  "shown_tree h n title message =
     (let k = length (part_nodes h title message)
      in Node n [Node (n + 1) (map (\<lambda>i. Node i []) [n + 2..<n + 2 + k]), Node (n + 2 + k) []])"

lemma tree_ok_fresh: "tree_ok w \<Longrightarrow> length (nodes w) \<le> n \<Longrightarrow> n \<notin> set (all_addrs (forest w))"
  by (auto simp: tree_ok_def)

lemma parts_step:
  assumes f: "forest w = F @ [Node n [], Node (Suc n) []]" and n: "Suc (Suc n) = length (nodes w)"
    and F: "\<forall>x \<in> set (all_addrs F). x < n"
  shows "seq (if truthy title then add_text (Suc n) ''notification-title'' title else ret ())
      (seq (if nullish message then ret () else add_text (Suc n) ''notification-message'' message) m) w =
     m (w\<lparr>nodes := nodes w @ part_nodes (objs w) title message,
          forest := F @ [Node n [], Node (Suc n) (map (\<lambda>i. Node i [])
            [n + 2..<n + 2 + length (part_nodes (objs w) title message)])]\<rparr>)"
proof -
  define ks where "ks = (if truthy title then [Node (Suc (Suc n)) []] else [])"
  define ns where "ns = (if truthy title then [text_node ''notification-title'' (to_string (objs w) title)] else [])"
  let ?u = "w\<lparr>nodes := nodes w @ ns, forest := F @ [Node n [], Node (Suc n) ks]\<rparr>"
  have one: "(if truthy title then add_text (Suc n) ''notification-title'' title else ret ()) w = (Inr (), ?u)"
    using add_text_step [OF f n F, of "''notification-title''" title] n
    by (auto simp: ks_def ns_def ret_def f)
  have len: "length (nodes ?u) = n + 2 + length ks" using n by (simp add: ns_def ks_def)
  have two: "add_text (Suc n) ''notification-message'' message ?u =
     (Inr (), w\<lparr>nodes := nodes w @ ns @ [text_node ''notification-message'' (to_string (objs w) message)],
                forest := F @ [Node n [], Node (Suc n) (ks @ [Node (n + 2 + length ks) []])]\<rparr>)"
    using add_text_step [of ?u F n "Suc n" ks "n + 2 + length ks"] F len
    by (simp add: ks_def)
  have up: "map (\<lambda>i. Node i []) [n + 2..<n + 2 + length ks] = ks"
    by (simp add: ks_def)
  show ?thesis
  proof (cases "nullish message")
    case True
    then show ?thesis using up by (simp add: seq_Inr one part_nodes_def flip: ns_def) (simp add: ks_def ns_def)
  next
    case False
    then show ?thesis using up
      by (simp add: seq_Inr one two part_nodes_def flip: ns_def) (simp add: ks_def ns_def)
  qed
qed

text \<open>\<open>show\<close> up to the place where the notification goes into the container.\<close>

definition assembled :: "world \<Rightarrow> jstr \<Rightarrow> val \<Rightarrow> val \<Rightarrow> world" where
  "assembled w type title message =
     (let n = length (nodes w); k = length (part_nodes (objs w) title message)
      in w\<lparr>nodes := nodes w @ shown_nodes (objs w) type title message None,
           forest := forest w @ [shown_tree (objs w) n title message],
           close_buttons := close_buttons w @ [(n + 2 + k, n)]\<rparr>)"

definition place :: "nat \<Rightarrow> val \<Rightarrow> nat js_prog" where
  "place notification timeout =
     seq (bnd (gets container) (\<lambda>k. bnd (non_null k) (\<lambda>k. append_child k notification)))
    (bnd (gets (\<lambda>w. shown_timer (objs w) timeout)) (\<lambda>t.
     seq (if positive t
          then bnd (set_timeout (AutoClose notification) (delay_of t)) (\<lambda>i.
                 modify (set_node notification (\<lambda>n. n\<lparr>timeout_id := Some i\<rparr>)))
          else ret ())
         (ret notification)))"

lemma leaves_addrs [simp]: "all_addrs (map (\<lambda>i. Node i []) xs) = xs"
  by (induction xs) auto

lemma assemble_trees:
  assumes F: "\<forall>x \<in> set (all_addrs F). x < n" and m: "m = Suc (Suc (n + k))"
  defines "ks \<equiv> map (\<lambda>i. Node i []) [Suc (Suc n)..<m]"
  shows "n \<notin> set (below (Suc n) (F @ [Node n [], Node (Suc n) ks, Node m []]))"
    and "attach n (Suc n) (F @ [Node n [], Node (Suc n) ks, Node m []]) =
           F @ [Node n [Node (Suc n) ks], Node m []]"
    and "n \<notin> set (below m (F @ [Node n [Node (Suc n) ks], Node m []]))"
    and "attach n m (F @ [Node n [Node (Suc n) ks], Node m []]) =
           F @ [Node n [Node (Suc n) ks, Node m []]]"
    and "all_children m (F @ [Node n [], Node (Suc n) ks, Node m []]) = []"
proof -
  have nF: "n \<notin> set (all_addrs F)" "Suc n \<notin> set (all_addrs F)" "m \<notin> set (all_addrs F)"
    using F m by fastforce+
  have nks: "n \<notin> set (all_addrs ks)" "Suc n \<notin> set (all_addrs ks)" "m \<notin> set (all_addrs ks)"
    by (auto simp: ks_def)
  have s: "subtree_in m ks = None" "subtree_in (Suc n) ks = None" using nks subtree_absent(2) by blast+
  have g: "map (graft n u) ks = ks" for u using nks graft_absent(2) by blast
  have pr: "prune_all m ks = ks" "prune_all (Suc n) ks = ks" using nks prune_absent(2) by blast+
  have ch: "all_children m ks = []" using nks children_absent(2) by blast
  show "n \<notin> set (below (Suc n) (F @ [Node n [], Node (Suc n) ks, Node m []]))"
    using nF nks m s by (simp add: below_append) (simp add: below_def addrs_Node del: addrs.simps)
  show "attach n (Suc n) (F @ [Node n [], Node (Suc n) ks, Node m []]) =
           F @ [Node n [Node (Suc n) ks], Node m []]"
    using nF m by (simp add: attach_append) (simp add: attach_def g)
  show "n \<notin> set (below m (F @ [Node n [Node (Suc n) ks], Node m []]))"
    using nF m s by (simp add: below_append) (simp add: below_def)
  show "attach n m (F @ [Node n [Node (Suc n) ks], Node m []]) =
           F @ [Node n [Node (Suc n) ks, Node m []]]"
    using nF m s pr by (simp add: attach_append) (simp add: attach_def g prune_Node del: prune.simps)
  show "all_children m (F @ [Node n [], Node (Suc n) ks, Node m []]) = []"
    using nF m ch by (simp add: all_children_append del: all_children_simps)
      (simp add: children_Node del: children.simps)
qed

lemma ns_show_assembled:
  assumes "tree_ok w"
  shows "ns_show type title message timeout w =
     place (length (nodes w)) timeout (assembled w type title message)"
proof -
  define n where "n = length (nodes w)"
  define P where "P = part_nodes (objs w) title message"
  define m where "m = Suc (Suc (n + length P))"
  define ks where "ks = map (\<lambda>i. Node i []) [Suc (Suc n)..<m]"
  let ?F = "forest w"
  let ?nt = "blank\<lparr>classes := tokens (js ''notification '' @ type)\<rparr>"
  let ?ct = "text_node ''notification-content'' []"
  have F: "\<forall>x \<in> set (all_addrs ?F). x < n" using assms by (simp add: tree_ok_def n_def)
  note tr = assemble_trees [OF F m_def, folded ks_def]
  let ?a = "w\<lparr>nodes := nodes w @ [?nt], forest := ?F @ [Node n []]\<rparr>"
  let ?bb = "w\<lparr>nodes := nodes w @ [?nt, blank], forest := ?F @ [Node n [], Node (Suc n) []]\<rparr>"
  let ?b = "w\<lparr>nodes := nodes w @ [?nt, ?ct], forest := ?F @ [Node n [], Node (Suc n) []]\<rparr>"
  let ?c = "w\<lparr>nodes := nodes w @ ?nt # ?ct # P, forest := ?F @ [Node n [], Node (Suc n) ks]\<rparr>"
  let ?d = "\<lambda>cl f cb. w\<lparr>nodes := nodes w @ ?nt # ?ct # P @ [cl], forest := f, close_buttons := cb\<rparr>"
  let ?e = "\<lambda>cl f. w\<lparr>nodes := nodes w @ ?nt # ?ct # P @ [cl], forest := f\<rparr>"
  let ?f = "?F @ [Node n [], Node (Suc n) ks, Node m []]"
  let ?cl = "text_node ''notification-close'' [215]"
  let ?cb = "close_buttons w @ [(m, n)]"
  have len: "length (nodes ?c) = m" by (simp add: m_def n_def)
  have s1: "create_element w = (Inr n, w\<lparr>nodes := nodes w @ [blank], forest := ?F @ [Node n []]\<rparr>)"
    by (simp add: create_element_step n_def)
  have s2: "set_class_name n (js ''notification '' @ type)
      (w\<lparr>nodes := nodes w @ [blank], forest := ?F @ [Node n []]\<rparr>) = (Inr (), ?a)"
    by (simp add: set_class_name_step n_def)
  have s3: "create_element ?a = (Inr (Suc n), ?bb)"
    by (simp add: create_element_step n_def)
  have s4: "set_class_name (Suc n) (js ''notification-content'') ?bb = (Inr (), ?b)"
    by (simp add: set_class_name_step n_def list_update_append nth_append text_node_def blank_def)
  have s5: "seq (if truthy title then add_text (Suc n) ''notification-title'' title else ret ())
      (seq (if nullish message then ret () else add_text (Suc n) ''notification-message'' message) m') ?b = m' ?c" for m'
    :: "nat js_prog"
    using parts_step [of ?b ?F n title message m'] F by (simp add: n_def P_def ks_def m_def del: upt_Suc)
  have at: "(nodes w @ ?nt # ?ct # P @ [x])[m := y] = nodes w @ ?nt # ?ct # P @ [y]"
      "(nodes w @ ?nt # ?ct # P @ [x]) ! m = x" for x y
    using list_update_length [of "nodes w @ [?nt, ?ct] @ P" x "[]" y]
      nth_append_length [of "nodes w @ [?nt, ?ct] @ P" x "[]"] len by simp_all
  have s6: "create_element ?c = (Inr m, ?e blank ?f)"
    using len by (simp add: create_element_step)
  have s7: "set_class_name m (js ''notification-close'') (?e blank ?f) =
      (Inr (), ?e (blank\<lparr>classes := tokens (js ''notification-close'')\<rparr>) ?f)"
    by (simp add: set_class_name_step at)
  have s8: "set_content m [215] (?e (blank\<lparr>classes := tokens (js ''notification-close'')\<rparr>) ?f) =
      (Inr (), ?e ?cl ?f)"
    using tr(5) by (simp add: set_content_leaf at text_node_def [of "''notification-close''"] del: all_children_simps)
  have s9: "append_child n (Suc n) (?d ?cl ?f ?cb) =
      (Inr (), ?d ?cl (?F @ [Node n [Node (Suc n) ks], Node m []]) ?cb)"
    using tr(1,2) by (simp add: append_child_step)
  have s10: "append_child n m (?d ?cl (?F @ [Node n [Node (Suc n) ks], Node m []]) ?cb) =
      (Inr (), ?d ?cl (?F @ [Node n [Node (Suc n) ks, Node m []]]) ?cb)"
    using tr(3,4) by (simp add: append_child_step)
  have fin: "?d ?cl (?F @ [Node n [Node (Suc n) ks, Node m []]]) ?cb = assembled w type title message"
    by (simp add: assembled_def shown_nodes_def shown_tree_def Let_def ks_def m_def P_def n_def blank_def)
  show ?thesis
    using fin
    by (simp add: ns_show_def bnd_Inr seq_Inr s1 s2 s3 s4 s5 s6 s7 s8 s9 s10 place_def shown_timer_def
        flip: n_def split del: if_split)
qed

text \<open>The whole of \<open>show\<close> when there is a container.\<close>

definition auto_timer :: "world \<Rightarrow> val \<Rightarrow> timer list" where
  "auto_timer w timeout =
     (let t = shown_timer (objs w) timeout
      in if positive t
         then [\<lparr>timer_id = next_timer w, due = clock w + delay_of t, task = AutoClose (length (nodes w))\<rparr>]
         else [])"

definition with_notification :: "world \<Rightarrow> nat \<Rightarrow> jstr \<Rightarrow> val \<Rightarrow> val \<Rightarrow> val \<Rightarrow> world" where
  "with_notification w c type title message timeout =
     (let n = length (nodes w); ts = auto_timer w timeout; a = assembled w type title message
      in a\<lparr>nodes := nodes w @ shown_nodes (objs w) type title message
                      (if ts = [] then None else Some (next_timer w)),
           forest := map (graft c (shown_tree (objs w) n title message)) (forest w),
           timers := timers w @ ts, next_timer := next_timer w + length ts\<rparr>)"

lemma addrs_shown_tree:
  "addrs (shown_tree h n title message) =
     [n..<n + length (shown_nodes h type title message timer)]"
proof -
  define k where "k = length (part_nodes h title message)"
  have "length (shown_nodes h type title message timer) = k + 3"
    by (simp add: shown_nodes_def k_def)
  moreover have "[n..<n + (k + 3)] = n # Suc n # [n + 2..<n + 2 + k] @ [n + 2 + k]"
  proof -
    have "n + (k + 3) = Suc (n + 2 + k)" by simp
    then have "[n..<n + (k + 3)] = [n..<Suc (n + 2 + k)]" by (rule arg_cong)
    also have "\<dots> = [n..<n + 2 + k] @ [n + 2 + k]" by (rule upt_Suc_append) simp
    also have "[n..<n + 2 + k] = n # [Suc n..<n + 2 + k]" by (rule upt_conv_Cons) simp
    also have "[Suc n..<n + 2 + k] = Suc n # [Suc (Suc n)..<n + 2 + k]" by (rule upt_conv_Cons) simp
    finally show ?thesis by simp
  qed
  ultimately show ?thesis
    by (simp add: shown_tree_def Let_def addrs_Node flip: k_def del: addrs.simps upt_Suc)
qed

lemma ns_show_container:
  assumes tree: "tree_ok w" and c: "container w = Some c" "c < length (nodes w)"
  shows "ns_show type title message timeout w =
     (Inr (length (nodes w)), with_notification w c type title message timeout)"
proof -
  define n where "n = length (nodes w)"
  let ?a = "assembled w type title message"
  let ?T = "shown_tree (objs w) n title message"
  have n: "n \<notin> set (all_addrs (forest w))" using tree_ok_fresh [OF tree] by (simp add: n_def)
  have c': "c \<noteq> n" using c by (simp add: n_def)
  have root: "root ?T = n" by (simp add: shown_tree_def Let_def)
  have st: "subtree n ?T = Some ?T" using subtree_root [of ?T] unfolding root .
  have cT: "c \<notin> set (addrs ?T)" using c by (simp add: addrs_shown_tree [of _ _ _ _ "[]" None] n_def)
  have "below n (forest ?a) = addrs ?T"
    using n root by (simp add: assembled_def Let_def below_append flip: n_def) (simp add: below_def st)
  then have b: "c \<notin> set (below n (forest ?a))" using cT by simp
  have pr: "prune_all n (forest w) = forest w" using n prune_absent(2) by blast
  have "subtree_in n (forest ?a) = Some ?T"
    using n st by (simp add: assembled_def Let_def subtree_in_append flip: n_def)
  moreover have "prune_all n (forest ?a) = forest w"
    using n root pr by (simp add: assembled_def Let_def prune_all_append flip: n_def)
  ultimately have "attach c n (forest ?a) = map (graft c ?T) (forest w)" by (simp add: attach_def)
  then have s: "bnd (non_null (Some c)) (\<lambda>k. append_child k n) ?a =
      (Inr (), ?a\<lparr>forest := map (graft c ?T) (forest w)\<rparr>)"
    using b by (simp add: non_null_def append_child_step)
  have o: "container ?a = Some c" "objs ?a = objs w" "next_timer ?a = next_timer w" "clock ?a = clock w" "timers ?a = timers w"
      "nodes ?a = nodes w @ shown_nodes (objs w) type title message None"
    by (simp_all add: assembled_def Let_def c)
  have up: "(nodes w @ shown_nodes (objs w) type title message None)
      [n := ((nodes w @ shown_nodes (objs w) type title message None) ! n)\<lparr>timeout_id := x\<rparr>] =
      nodes w @ shown_nodes (objs w) type title message x" for x
    by (simp add: n_def shown_nodes_def)
  show ?thesis
    by (simp add: ns_show_assembled [OF tree] place_def seq_Inr s o bnd_Inr set_timeout_def modify_def
        set_node_def ret_def up with_notification_def auto_timer_def Let_def flip: n_def)
qed

lemma ns_show_no_container:
  assumes "tree_ok w" "container w = None"
  shows "ns_show type title message timeout w = (Inl TypeError, assembled w type title message)"
proof -
  have "container (assembled w type title message) = None" using assms by (simp add: assembled_def Let_def)
  then show ?thesis
    by (simp add: ns_show_assembled [OF assms(1)] place_def seq_Inl bnd_Inl non_null_def throw_def)
qed

subsection \<open>What a shown notification changes, and what it leaves\<close>

lemma find_by_filter: "find P xs = (case filter P xs of [] \<Rightarrow> None | x # _ \<Rightarrow> Some x)"
  by (induction xs) auto

lemma filter_graft:
  assumes "\<forall>a \<in> set (addrs u). \<not> P a"
  shows "filter P (addrs (graft p u t)) = filter P (addrs t)"
    and "filter P (all_addrs (map (graft p u) ts)) = filter P (all_addrs ts)"
proof -
  have u: "filter P (addrs u) = []" using assms by (simp add: filter_empty_conv)
  show "filter P (addrs (graft p u t)) = filter P (addrs t)"
    and "filter P (all_addrs (map (graft p u) ts)) = filter P (all_addrs ts)"
    by (induction t and ts rule: ntree_forest_induct) (auto simp: addrs_Node u simp del: addrs.simps)
qed

text \<open>Ids find the same elements when the nodes put in have none.\<close>

lemma element_by_id_graft:
  assumes ne: "forest w \<noteq> []" and f: "forest w' = map (graft p u) (forest w)"
    and anon: "\<And>x. x \<in> set (addrs u) \<Longrightarrow> ident (node_at w' x) = []"
    and old: "\<And>x. x \<in> set (addrs (document w)) \<Longrightarrow> ident (node_at w' x) = ident (node_at w x)"
  shows "element_by_id w' s = element_by_id w s"
proof (cases "s = []")
  case False
  have "filter (\<lambda>x. ident (node_at w' x) = s) (addrs (document w')) =
      filter (\<lambda>x. ident (node_at w' x) = s) (addrs (document w))"
    using filter_graft(1) [of u] anon False ne by (cases "forest w") (auto simp: document_def f)
  also have "\<dots> = filter (\<lambda>x. ident (node_at w x) = s) (addrs (document w))"
    using old by (intro filter_cong) auto
  finally show ?thesis using False by (simp add: element_by_id_def find_by_filter)
qed (simp add: element_by_id_def)

lemma children_graft_new:
  "c \<notin> set (addrs t) \<Longrightarrow> children c u = [] \<Longrightarrow> children c (graft p u t) = []"
  "c \<notin> set (all_addrs ts) \<Longrightarrow> children c u = [] \<Longrightarrow> all_children c (map (graft p u) ts) = []"
  by (induction t and ts rule: ntree_forest_induct)
    (auto simp: node_simps simp del: addrs.simps children.simps)

lemmas notification_defs = with_notification_def assembled_def Let_def

lemma with_notification_fields [simp]:
  "container (with_notification w c ty ti me to) = container w"
  "store (with_notification w c ty ti me to) = store w"
  "objs (with_notification w c ty ti me to) = objs w"
  "requests (with_notification w c ty ti me to) = requests w"
  "console (with_notification w c ty ti me to) = console w"
  "clock (with_notification w c ty ti me to) = clock w"
  "pathname (with_notification w c ty ti me to) = pathname w"
  "search (with_notification w c ty ti me to) = search w"
  "quota (with_notification w c ty ti me to) = quota w"
  "body (with_notification w c ty ti me to) = body w"
  "reloads (with_notification w c ty ti me to) = reloads w"
  "timers (with_notification w c ty ti me to) = timers w @ auto_timer w to"
  "next_timer (with_notification w c ty ti me to) = next_timer w + length (auto_timer w to)"
  "a < length (nodes w) \<Longrightarrow> node_at (with_notification w c ty ti me to) a = node_at w a"
  by (simp_all add: notification_defs node_at_def nth_append)

lemma with_notification_tree:
  assumes tree: "tree_ok w" and c: "c < length (nodes w)"
  shows "tree_ok (with_notification w c ty ti me to)"
    and "all_children c (forest (with_notification w c ty ti me to)) =
           all_children c (forest w) @ [length (nodes w)]"
    and "a < length (nodes w) \<Longrightarrow> a \<noteq> c \<Longrightarrow>
           all_children a (forest (with_notification w c ty ti me to)) = all_children a (forest w)"
    and "element_by_id (with_notification w c ty ti me to) s = element_by_id w s"
proof -
  define n where "n = length (nodes w)"
  define tm where "tm = (if auto_timer w to = [] then None else Some (next_timer w))"
  define N where "N = shown_nodes (objs w) ty ti me tm"
  let ?w = "with_notification w c ty ti me to"
  let ?T = "shown_tree (objs w) n ti me"
  have A: "addrs ?T = [n..<n + length N]" unfolding N_def by (rule addrs_shown_tree)
  have d: "distinct (all_addrs (forest w))" "set (all_addrs (forest w)) = {..<n}" "forest w \<noteq> []"
    using tree by (auto simp: tree_ok_def n_def)
  have f: "forest ?w = map (graft c ?T) (forest w)" and N: "nodes ?w = nodes w @ N"
    by (simp_all add: notification_defs N_def tm_def n_def)
  have cF: "c \<in> set (all_addrs (forest w))" "c \<notin> set (addrs ?T)" using c d A by (simp_all add: n_def)
  have root: "root ?T = n" by (simp add: shown_tree_def Let_def)
  have m: "mset (all_addrs (forest ?w)) = mset (all_addrs (forest w) @ [n..<n + length N])"
    using mset_graft(2) [OF d(1), of c ?T] cF(1) unfolding f A by (simp only: if_True mset_append)
  have "distinct (all_addrs (forest w) @ [n..<n + length N])" using d(1,2) by (simp add: disjoint_iff)
  then have "distinct (all_addrs (forest ?w))" using mset_eq_imp_distinct_iff [OF m] by blast
  moreover have "set (all_addrs (forest ?w)) = {..<n} \<union> {n..<n + length N}"
    using mset_eq_setD [OF m] d(2) by simp
  moreover have "{..<n} \<union> {n..<n + length N} = {..<n + length N}" by auto
  moreover have "length (nodes ?w) = n + length N" "forest ?w \<noteq> []" using d(3) by (simp_all add: N n_def f)
  ultimately show "tree_ok ?w" unfolding tree_ok_def by simp
  show "all_children c (forest ?w) = all_children c (forest w) @ [length (nodes w)]"
    using children_graft(2) [OF d(1) cF(2)] cF root by (simp add: f n_def)
  show "all_children a (forest ?w) = all_children a (forest w)" if "a < length (nodes w)" "a \<noteq> c"
    using children_graft_other(2) [of a c ?T "forest w"] that A by (simp add: f n_def)
  have anon: "ident (node_at ?w x) = []" if "x \<in> set (addrs ?T)" for x
  proof -
    have "n \<le> x" "x < n + length N" using that unfolding A by simp_all
    then have "nodes ?w ! x \<in> set N" by (simp add: N nth_append flip: n_def)
    then show ?thesis
      by (auto simp: node_at_def N_def shown_nodes_def part_nodes_def text_node_def blank_def split: if_splits)
  qed
  have old: "ident (node_at ?w x) = ident (node_at w x)" if "x \<in> set (addrs (document w))" for x
  proof -
    have "x \<in> set (all_addrs (forest w))" using that d(3) by (cases "forest w") (auto simp: document_def)
    then show ?thesis using d(2) by (simp add: n_def)
  qed
  show "element_by_id ?w s = element_by_id w s" by (rule element_by_id_graft [OF d(3) f anon old])
qed

subsection \<open>The life of notifications\<close>

text \<open>What the timers of this component do, and one turn of the clock.\<close>

fun ns_task :: "task \<Rightarrow> unit js_prog" where
  "ns_task (AutoClose n) = ns_close n"
| "ns_task (FadeOut n) = ns_remove n"
| "ns_task _ = ret ()"

fun is_ns_task :: "task \<Rightarrow> bool" where
  "is_ns_task (AutoClose n) \<longleftrightarrow> True"
| "is_ns_task (FadeOut n) \<longleftrightarrow> True"
| "is_ns_task _ \<longleftrightarrow> False"

definition take_timer :: "timer \<Rightarrow> world \<Rightarrow> world" where
  "take_timer t w =
     w\<lparr>timers := filter (\<lambda>u. timer_id u \<noteq> timer_id t) (timers w), clock := max (clock w) (due t)\<rparr>"

definition ns_tick :: "world \<Rightarrow> world" where
  "ns_tick w =
     (case next_due (timers w) of None \<Rightarrow> w | Some t \<Rightarrow> snd (ns_task (task t) (take_timer t w)))"

text \<open>The steps: a notification is shown, a close button is clicked, a timer fires.\<close>

inductive ns_step :: "world \<Rightarrow> world \<Rightarrow> bool" where
  shown: "ns_show ty ti me to w = (Inr n, w') \<Longrightarrow> ns_step w w'"
| clicked: "click_close b w = (Inr (), w') \<Longrightarrow> ns_step w w'"
| ticked: "next_due (timers w) \<noteq> None \<Longrightarrow> ns_step w (ns_tick w)"

text \<open>
  The invariant.  Timer numbers are used once; the timer that closes a notification by itself is
  the one the notification knows; and every notification in the container that was shown with a
  timeout has a timer that will close it or remove it.
\<close>

definition timers_ok :: "world \<Rightarrow> bool" where
  "timers_ok w \<longleftrightarrow>
     distinct (map timer_id (timers w)) \<and> (\<forall>t \<in> set (timers w). timer_id t < next_timer w) \<and>
     (\<forall>a < length (nodes w). \<forall>i. timeout_id (node_at w a) = Some i \<longrightarrow> i < next_timer w) \<and>
     (\<forall>t \<in> set (timers w). \<forall>a. task t = AutoClose a \<longleftrightarrow>
        a < length (nodes w) \<and> timeout_id (node_at w a) = Some (timer_id t)) \<and>
     (\<forall>t \<in> set (timers w). \<forall>a. task t = FadeOut a \<longrightarrow> a < length (nodes w)) \<and>
     (\<forall>(b, a) \<in> set (close_buttons w). a < length (nodes w))"

definition will_go :: "world \<Rightarrow> nat \<Rightarrow> bool" where
  "will_go w a \<longleftrightarrow> (\<exists>t \<in> set (timers w). task t = AutoClose a \<or> task t = FadeOut a)"

definition ns_ok :: "world \<Rightarrow> bool" where
  "ns_ok w \<longleftrightarrow>
     tree_ok w \<and> timers_ok w \<and>
     (\<exists>c < length (nodes w). container w = Some c \<and>
        (\<forall>a \<in> set (all_children c (forest w)). timeout_id (node_at w a) \<noteq> None \<longrightarrow> will_go w a))"

text \<open>The notifications on the screen.\<close>

definition on_screen :: "world \<Rightarrow> nat list" where
  "on_screen w = (case container w of None \<Rightarrow> [] | Some c \<Rightarrow> all_children c (forest w))"

lemma ns_close_step:
  "ns_close a w = (Inr (),
     (set_node a (class_add (js ''fade-out'')) w)
       \<lparr>timers := filter (\<lambda>t. timeout_id (node_at w a) \<noteq> Some (timer_id t)) (timers w)
                    @ [\<lparr>timer_id = next_timer w, due = clock w + 500, task = FadeOut a\<rparr>],
        next_timer := next_timer w + 1\<rparr>)"
proof (cases "timeout_id (node_at w a)")
  case None
  then show ?thesis by (simp add: ns_close_def seq_def bnd_def modify_def set_timeout_def ret_def)
next
  case (Some i)
  then show ?thesis
    by (simp add: ns_close_def seq_def bnd_def modify_def set_timeout_def ret_def clear_timeout_def
        set_node_def eq_commute [of i])
qed

lemma ns_remove_step:
  "ns_remove a w = (Inr (),
     if parent_of a (forest w) = None then w else w\<lparr>forest := detach a (forest w)\<rparr>)"
  by (cases "parent_of a (forest w)")
    (simp_all add: ns_remove_def parent_node_def remove_child_def ret_def)

lemma tree_ok_detach: "tree_ok w \<Longrightarrow> tree_ok (w\<lparr>forest := detach a (forest w)\<rparr>)"
  by (simp add: tree_ok_def)

lemma timeout_id_class_add [simp]: "timeout_id (class_add c n) = timeout_id n"
  by (simp add: class_add_def)

lemma node_at_set_class [simp]:
  "timeout_id (node_at (set_node a (class_add c) w) b) = timeout_id (node_at w b)"
  by (simp add: node_at_set_node)

text \<open>The timers of the invariant, read off the state.\<close>

lemma timers_okD:
  assumes "timers_ok w"
  shows "distinct (map timer_id (timers w))" and "t \<in> set (timers w) \<Longrightarrow> timer_id t < next_timer w"
    and "a < length (nodes w) \<Longrightarrow> timeout_id (node_at w a) = Some i \<Longrightarrow> i < next_timer w"
    and "t \<in> set (timers w) \<Longrightarrow> task t = AutoClose a \<longleftrightarrow>
           a < length (nodes w) \<and> timeout_id (node_at w a) = Some (timer_id t)"
    and "t \<in> set (timers w) \<Longrightarrow> task t = FadeOut a \<Longrightarrow> a < length (nodes w)"
    and "(b, a) \<in> set (close_buttons w) \<Longrightarrow> a < length (nodes w)"
  using assms unfolding timers_ok_def by blast+

text \<open>Dropping timers and changing no timeouts keeps the invariant of the timers.\<close>

lemma timers_ok_drop:
  assumes ok: "timers_ok w" and T: "timers w' = filter P (timers w)"
    and same: "next_timer w' = next_timer w" "length (nodes w') = length (nodes w)"
      "close_buttons w' = close_buttons w" "\<And>a. timeout_id (node_at w' a) = timeout_id (node_at w a)"
  shows "timers_ok w'"
  using ok unfolding timers_ok_def T same
  by (auto simp: distinct_map inj_on_def)

text \<open>A new fade-out timer keeps it.\<close>

lemma timers_ok_fade:
  assumes ok: "timers_ok w" and a: "a < length (nodes w)"
  shows "timers_ok (w\<lparr>timers := timers w @ [\<lparr>timer_id = next_timer w, due = d, task = FadeOut a\<rparr>],
                      next_timer := next_timer w + 1\<rparr>)"
  using ok a unfolding timers_ok_def by (auto simp: less_Suc_eq)

lemma ns_close_covers:
  assumes tree: "tree_ok w" and t: "timers_ok w" and a: "a < length (nodes w)"
    and c: "c < length (nodes w)" "container w = Some c"
      "\<forall>b \<in> set (all_children c (forest w)). timeout_id (node_at w b) \<noteq> None \<longrightarrow> b = a \<or> will_go w b"
  shows "ns_ok (snd (ns_close a w))"
proof -
  let ?v = "(set_node a (class_add (js ''fade-out'')) w)
      \<lparr>timers := filter (\<lambda>t. timeout_id (node_at w a) \<noteq> Some (timer_id t)) (timers w)\<rparr>"
  let ?w = "snd (ns_close a w)"
  have w: "?w = ?v\<lparr>timers := timers ?v @ [\<lparr>timer_id = next_timer ?v, due = clock w + 500, task = FadeOut a\<rparr>],
        next_timer := next_timer ?v + 1\<rparr>"
    by (simp add: ns_close_step set_node_def)
  have "timers_ok ?v" by (rule timers_ok_drop [OF t]) simp_all
  then have "timers_ok ?w" unfolding w by (rule timers_ok_fade) (simp add: a)
  moreover have "will_go ?w b" if go: "b = a \<or> will_go w b" for b
  proof (cases "b = a")
    case True
    then show ?thesis by (auto simp: w will_go_def)
  next
    case False
    obtain u where u: "u \<in> set (timers w)" "task u = AutoClose b \<or> task u = FadeOut b"
      using go False unfolding will_go_def by blast
    have "timeout_id (node_at w a) \<noteq> Some (timer_id u)"
      using timers_okD(4) [OF t u(1), of a] timers_okD(4) [OF t u(1), of b] u(2) a False by auto
    then show ?thesis using u by (auto simp: w will_go_def)
  qed
  moreover have "tree_ok ?w" using tree by (simp add: tree_ok_def w)
  moreover have "forest ?w = forest w" "container ?w = container w" "length (nodes ?w) = length (nodes w)"
      "timeout_id (node_at ?w b) = timeout_id (node_at w b)" for b
    by (simp_all add: w)
  ultimately show ?thesis using c unfolding ns_ok_def by auto
qed

lemma ns_close_ok: "ns_ok w \<Longrightarrow> a < length (nodes w) \<Longrightarrow> ns_ok (snd (ns_close a w))"
  using ns_close_covers [of w a] unfolding ns_ok_def by blast

lemma take_timer_ok:
  assumes "ns_ok w" "t \<in> set (timers w)"
  shows "timers_ok (take_timer t w)" and "tree_ok (take_timer t w)"
    and "u \<in> set (timers w) \<Longrightarrow> u \<noteq> t \<Longrightarrow> u \<in> set (timers (take_timer t w))"
proof -
  have t: "timers_ok w" using assms by (simp add: ns_ok_def)
  show "timers_ok (take_timer t w)" by (rule timers_ok_drop [OF t]) (simp_all add: take_timer_def)
  show "tree_ok (take_timer t w)" using assms by (simp add: ns_ok_def tree_ok_def take_timer_def)
  show "u \<in> set (timers w) \<Longrightarrow> u \<noteq> t \<Longrightarrow> u \<in> set (timers (take_timer t w))"
    using timers_okD(1) [OF t] assms(2) by (auto simp: take_timer_def distinct_map inj_on_def)
qed

lemma take_timer_fields [simp]:
  "forest (take_timer t w) = forest w" "container (take_timer t w) = container w"
  "node_at (take_timer t w) a = node_at w a" "nodes (take_timer t w) = nodes w"
  "next_timer (take_timer t w) = next_timer w" "clock (take_timer t w) = max (clock w) (due t)"
  by (simp_all add: take_timer_def node_at_def)

lemma next_due_in: "next_due ts = Some t \<Longrightarrow> t \<in> set ts"
  by (auto simp: next_due_def dest: find_Some_first)

lemma ns_tick_ok:
  assumes ok: "ns_ok w"
  shows "ns_ok (ns_tick w)"
proof (cases "next_due (timers w)")
  case None
  then show ?thesis using ok by (simp add: ns_tick_def)
next
  case (Some t)
  then have t: "t \<in> set (timers w)" by (rule next_due_in)
  let ?v = "take_timer t w"
  have tok: "timers_ok w" using ok by (simp add: ns_ok_def)
  note v = take_timer_ok [OF ok t]
  obtain c where c: "c < length (nodes w)" "container w = Some c"
      "\<forall>a \<in> set (all_children c (forest w)). timeout_id (node_at w a) \<noteq> None \<longrightarrow> will_go w a"
    using ok by (auto simp: ns_ok_def)
  have keep: "will_go ?v a" if go: "will_go w a" and other: "task t \<noteq> AutoClose a" "task t \<noteq> FadeOut a" for a
  proof -
    obtain u where u: "u \<in> set (timers w)" "task u = AutoClose a \<or> task u = FadeOut a"
      using go unfolding will_go_def by blast
    then have "u \<noteq> t" using other by auto
    then show ?thesis using v(3) [OF u(1)] u(2) by (auto simp: will_go_def)
  qed
  show ?thesis
  proof (cases "task t")
    case (FadeOut a)
    let ?w = "ns_tick w"
    have w: "?w = (if parent_of a (forest w) = None then ?v else ?v\<lparr>forest := detach a (forest w)\<rparr>)"
      using Some FadeOut by (simp add: ns_tick_def ns_remove_step)
    have d: "distinct (all_addrs (forest w))" using ok by (simp add: ns_ok_def tree_ok_def)
    have "tree_ok ?w" using v(2) tree_ok_detach [OF v(2), of a] by (simp add: w)
    moreover have "timers_ok ?w"
      by (rule timers_ok_drop [OF v(1), of _ "\<lambda>_. True"]) (simp_all add: w)
    moreover have "will_go ?w b" if b: "b \<in> set (all_children c (forest ?w))" "timeout_id (node_at w b) \<noteq> None" for b
    proof -
      have "b \<noteq> a"
      proof (cases "parent_of a (forest w)")
        case None
        then show ?thesis using parent_of_child [OF d, of b c] b(1) by (auto simp: w)
      next
        case (Some p)
        then show ?thesis using detached_no_child [OF d, of a c] b(1) by (auto simp: w)
      qed
      moreover have "b \<in> set (all_children c (forest w))"
        using b(1) children_detach_subset [of c a "forest w"] by (auto simp: w split: if_splits)
      ultimately have "will_go ?v b" using keep c(3) b(2) FadeOut by auto
      then show ?thesis by (simp add: w will_go_def)
    qed
    moreover have "container ?w = Some c" "nodes ?w = nodes w" using c(2) by (simp_all add: w)
    ultimately show ?thesis using c(1) unfolding ns_ok_def by (auto simp: node_at_def)
  next
    case (AutoClose a)
    have a: "a < length (nodes w)" using timers_okD(4) [OF tok t] AutoClose by blast
    have "will_go ?v b" if "will_go w b" "b \<noteq> a" for b using keep that AutoClose by auto
    then have "ns_ok (snd (ns_close a ?v))"
      using ns_close_covers [OF v(2,1), of a c] a c by auto
    then show ?thesis using Some AutoClose by (simp add: ns_tick_def)
  next
    case (OpenPanel s)
    then have "ns_tick w = ?v" using Some by (simp add: ns_tick_def ret_def)
    then show ?thesis using v c keep OpenPanel unfolding ns_ok_def by auto
  next
    case Startup
    then have "ns_tick w = ?v" using Some by (simp add: ns_tick_def ret_def)
    then show ?thesis using v c keep Startup unfolding ns_ok_def by auto
  qed
qed

lemma length_shown_nodes [simp]:
  "length (shown_nodes h ty ti me tm) = 3 + length (part_nodes h ti me)"
  by (simp add: shown_nodes_def)

lemma auto_timer_cases:
  "auto_timer w to = [] \<or>
   auto_timer w to = [\<lparr>timer_id = next_timer w, due = clock w + delay_of (shown_timer (objs w) to),
                       task = AutoClose (length (nodes w))\<rparr>]"
  by (simp add: auto_timer_def Let_def)

lemma new_node_timeouts:
  assumes "length (nodes w) \<le> a" "a < length (nodes (with_notification w c ty ti me to))"
  shows "timeout_id (node_at (with_notification w c ty ti me to) a) =
    (if a = length (nodes w) \<and> auto_timer w to \<noteq> [] then Some (next_timer w) else None)"
proof -
  define N where "N = shown_nodes (objs w) ty ti me (if auto_timer w to = [] then None else Some (next_timer w))"
  have n: "nodes (with_notification w c ty ti me to) = nodes w @ N"
    by (simp add: notification_defs N_def)
  obtain y Y where N: "N = y # Y" "timeout_id y = (if auto_timer w to = [] then None else Some (next_timer w))"
      "\<forall>x \<in> set Y. timeout_id x = None"
    by (simp add: N_def shown_nodes_def part_nodes_def text_node_def blank_def)
  have at: "node_at (with_notification w c ty ti me to) a = N ! (a - length (nodes w))"
    using assms(1) by (simp add: node_at_def n nth_append)
  show ?thesis
  proof (cases "a = length (nodes w)")
    case True
    then show ?thesis unfolding at using N by simp
  next
    case False
    then have "N ! (a - length (nodes w)) \<in> set Y" using assms by (simp add: n N nth_Cons')
    then show ?thesis unfolding at using False N(3) by simp
  qed
qed

lemma ns_show_ok:
  assumes ok: "ns_ok w"
  shows "\<exists>w'. ns_show ty ti me to w = (Inr (length (nodes w)), w') \<and> ns_ok w' \<and>
     on_screen w' = on_screen w @ [length (nodes w)]"
proof -
  obtain c where c: "c < length (nodes w)" "container w = Some c"
      "\<forall>a \<in> set (all_children c (forest w)). timeout_id (node_at w a) \<noteq> None \<longrightarrow> will_go w a"
    using ok by (auto simp: ns_ok_def)
  have tree: "tree_ok w" and t: "timers_ok w" using ok by (simp_all add: ns_ok_def)
  let ?w = "with_notification w c ty ti me to"
  note tr = with_notification_tree [OF tree c(1), where ty = ty and ti = ti and me = me and to = to]
  have len: "length (nodes w) < length (nodes ?w)" by (simp add: notification_defs)
  have cb: "\<forall>(b, a) \<in> set (close_buttons ?w). a < length (nodes ?w)"
  proof -
    have "a < length (nodes ?w)" if "(b, a) \<in> set (close_buttons w)" for a b
      using timers_okD(6) [OF t that] len by simp
    then show ?thesis by (auto simp: notification_defs)
  qed
  have ids: "timeout_id (node_at ?w a) = (if a < length (nodes w) then timeout_id (node_at w a)
      else if a = length (nodes w) \<and> auto_timer w to \<noteq> [] then Some (next_timer w) else None)"
    if "a < length (nodes ?w)" for a
    using new_node_timeouts [of w a c ty ti me to] that by simp
  have T: "timers ?w = timers w @ auto_timer w to" "next_timer ?w = next_timer w + length (auto_timer w to)"
    by simp_all
  have old: "u \<in> set (timers w) \<Longrightarrow> task u = AutoClose a \<longleftrightarrow>
      a < length (nodes ?w) \<and> timeout_id (node_at ?w a) = Some (timer_id u)" for u a
    using timers_okD(4) [OF t, of u a] timers_okD(2) [OF t, of u] ids [of a] len
    by (cases "a < length (nodes w)") (auto split: if_splits)
  have new: "u \<in> set (auto_timer w to) \<Longrightarrow> task u = AutoClose a \<longleftrightarrow>
      a < length (nodes ?w) \<and> timeout_id (node_at ?w a) = Some (timer_id u)" for u a
    using timers_okD(3) [OF t, of a "next_timer w"] ids [of a] len auto_timer_cases [of w to]
    by (cases "a < length (nodes w)") (auto split: if_splits)
  have "distinct (map timer_id (timers ?w)) \<and> (\<forall>u \<in> set (timers ?w). timer_id u < next_timer ?w)"
    using timers_okD(1,2) [OF t] auto_timer_cases [of w to] unfolding T by fastforce
  moreover have "\<forall>a < length (nodes ?w). \<forall>i. timeout_id (node_at ?w a) = Some i \<longrightarrow> i < next_timer ?w"
    using timers_okD(3) [OF t] ids auto_timer_cases [of w to] unfolding T by (auto simp: less_Suc_eq split: if_splits)
  moreover have "\<forall>u \<in> set (timers ?w). \<forall>a. task u = FadeOut a \<longrightarrow> a < length (nodes ?w)"
    using timers_okD(5) [OF t] auto_timer_cases [of w to] len unfolding T by fastforce
  ultimately have "timers_ok ?w"
    using old new cb unfolding timers_ok_def T(1) set_append by blast
  moreover have "will_go ?w a" if "a \<in> set (all_children c (forest ?w))" "timeout_id (node_at ?w a) \<noteq> None" for a
  proof (cases "a = length (nodes w)")
    case True
    then show ?thesis using that(2) ids [of a] len auto_timer_cases [of w to] by (auto simp: will_go_def)
  next
    case False
    then have a: "a \<in> set (all_children c (forest w))" using that(1) tr(2) by auto
    then have "a < length (nodes w)" using children_addrs(2) [of c "forest w"] tree by (auto simp: tree_ok_def)
    then have "will_go w a" using c(3) a that(2) by auto
    then show ?thesis unfolding will_go_def T by auto
  qed
  ultimately have "ns_ok ?w" using tr c len unfolding ns_ok_def by auto
  then show ?thesis using ns_show_container [OF tree c(2,1)] tr c by (simp add: on_screen_def)
qed

subsection \<open>Draining the timers\<close>

definition load :: "timer list \<Rightarrow> nat" where
  "load ts = sum_list (map (\<lambda>t. case task t of AutoClose _ \<Rightarrow> 2 | _ \<Rightarrow> 1) ts)"

lemma next_due_exists: "ts \<noteq> [] \<Longrightarrow> \<exists>t. next_due ts = Some t"
proof -
  assume "ts \<noteq> []"
  then obtain t where "t \<in> set ts" "\<forall>u \<in> set ts. due t \<le> due u"
    using arg_min_if_finite [of "set ts" due] by (meson finite_set not_le set_empty)
  then show ?thesis unfolding next_due_def by (rule find_exists)
qed

lemma load_append: "load (xs @ ys) = load xs + load ys" "load [t] = (case task t of AutoClose _ \<Rightarrow> 2 | _ \<Rightarrow> 1)"
  by (simp_all add: load_def)

lemma load_filter: "load (filter P ts) \<le> load ts"
  by (induction ts) (auto simp: load_def)

lemma load_remove: "t \<in> set ts \<Longrightarrow> load (filter (\<lambda>u. timer_id u \<noteq> timer_id t) ts) + (case task t of AutoClose _ \<Rightarrow> 2 | _ \<Rightarrow> 1) \<le> load ts"
proof (induction ts)
  case (Cons u ts)
  then show ?case
    using load_filter [of "\<lambda>u. timer_id u \<noteq> timer_id t" ts] by (auto simp: load_def)
qed simp

lemma load_Nil [simp]: "load ts = 0 \<longleftrightarrow> ts = []"
  by (cases ts) (auto simp: load_def split: task.splits)

lemma ns_tick_load:
  assumes "timers w \<noteq> []"
  shows "load (timers (ns_tick w)) < load (timers w)"
proof -
  obtain t where t: "next_due (timers w) = Some t" "t \<in> set (timers w)"
    using next_due_exists [OF assms] next_due_in by blast
  note r = load_remove [OF t(2)]
  show ?thesis
  proof (cases "task t")
    case (AutoClose a)
    have "timers (ns_tick w) = filter (\<lambda>u. timeout_id (node_at w a) \<noteq> Some (timer_id u)) (timers (take_timer t w)) @
        [\<lparr>timer_id = next_timer w, due = max (clock w) (due t) + 500, task = FadeOut a\<rparr>]"
      using t(1) AutoClose by (simp add: ns_tick_def ns_close_step)
    then have "load (timers (ns_tick w)) \<le> load (timers (take_timer t w)) + 1"
      using load_filter [of _ "timers (take_timer t w)"] by (simp add: load_append)
    moreover have "load (timers (take_timer t w)) + 2 \<le> load (timers w)"
      using r AutoClose by (simp add: take_timer_def)
    ultimately show ?thesis by simp
  qed (use t(1) r in \<open>simp_all add: ns_tick_def ns_remove_step ret_def take_timer_def\<close>)
qed

lemma ns_tick_screen:
  assumes ok: "ns_ok w" and ns: "\<forall>t \<in> set (timers w). is_ns_task (task t)"
  shows "filter (\<lambda>a. \<not> will_go (ns_tick w) a) (on_screen (ns_tick w)) = filter (\<lambda>a. \<not> will_go w a) (on_screen w)"
    and "\<forall>t \<in> set (timers (ns_tick w)). is_ns_task (task t)"
proof -
  have tok: "timers_ok w" using ok by (simp add: ns_ok_def)
  obtain c where c: "container w = Some c" using ok by (auto simp: ns_ok_def)
  have d: "distinct (all_addrs (forest w))" using ok by (simp add: ns_ok_def tree_ok_def)
  have "filter (\<lambda>a. \<not> will_go (ns_tick w) a) (on_screen (ns_tick w)) = filter (\<lambda>a. \<not> will_go w a) (on_screen w)
     \<and> (\<forall>t \<in> set (timers (ns_tick w)). is_ns_task (task t))"
  proof (cases "next_due (timers w)")
    case None
    then show ?thesis using ns by (simp add: ns_tick_def)
  next
    case (Some t)
    then have t: "t \<in> set (timers w)" by (rule next_due_in)
    have rest: "u \<in> set (timers (take_timer t w)) \<longleftrightarrow> u \<in> set (timers w) \<and> u \<noteq> t" for u
      using take_timer_ok(3) [OF ok t, of u] t by (auto simp: take_timer_def)
    show ?thesis
    proof (cases "task t")
      case (AutoClose a)
      have id: "timeout_id (node_at w a) = Some (timer_id t)" using timers_okD(4) [OF tok t] AutoClose by blast
      have T: "set (timers (ns_tick w)) = insert \<lparr>timer_id = next_timer w, due = max (clock w) (due t) + 500, task = FadeOut a\<rparr>
          (set (timers w) - {t})"
      proof -
        have "\<forall>u \<in> set (timers (take_timer t w)). Some (timer_id t) \<noteq> Some (timer_id u)"
          by (auto simp: take_timer_def)
        then have "filter (\<lambda>u. Some (timer_id t) \<noteq> Some (timer_id u)) (timers (take_timer t w)) = timers (take_timer t w)"
          by (simp add: filter_id_conv)
        moreover have "set (timers (take_timer t w)) = set (timers w) - {t}" using rest by auto
        ultimately show ?thesis using Some AutoClose by (simp add: ns_tick_def ns_close_step id)
      qed
      have "will_go (ns_tick w) b = will_go w b" for b
        using t AutoClose unfolding will_go_def T by (cases "b = a") auto
      moreover have "on_screen (ns_tick w) = on_screen w"
        using Some AutoClose by (simp add: ns_tick_def ns_close_step on_screen_def c)
      ultimately show ?thesis using ns by (auto simp: T)
    next
      case (FadeOut a)
      have T: "set (timers (ns_tick w)) = set (timers w) - {t}"
        using Some FadeOut rest by (auto simp: ns_tick_def ns_remove_step)
      have "on_screen (ns_tick w) = filter (\<lambda>x. x \<noteq> a) (on_screen w)"
      proof (cases "parent_of a (forest w)")
        case None
        then have "a \<notin> set (all_children c (forest w))" using parent_of_child [OF d, of a c] by auto
        then have "filter (\<lambda>x. x \<noteq> a) (all_children c (forest w)) = all_children c (forest w)"
          by (auto intro: filter_True)
        then show ?thesis using Some FadeOut None by (simp add: ns_tick_def ns_remove_step on_screen_def c)
      next
        case (Some p)
        then show ?thesis using \<open>next_due (timers w) = Some t\<close> FadeOut all_children_detach [OF d]
          by (simp add: ns_tick_def ns_remove_step on_screen_def c)
      qed
      moreover have "will_go w a" using t FadeOut by (auto simp: will_go_def)
      moreover have "b \<noteq> a \<and> \<not> will_go (ns_tick w) b \<longleftrightarrow> \<not> will_go w b" for b
        using t FadeOut unfolding will_go_def T by (cases "b = a") auto
      ultimately show ?thesis using ns by (simp add: T)
    qed (use ns t in auto)
  qed
  then show "filter (\<lambda>a. \<not> will_go (ns_tick w) a) (on_screen (ns_tick w)) = filter (\<lambda>a. \<not> will_go w a) (on_screen w)"
    and "\<forall>t \<in> set (timers (ns_tick w)). is_ns_task (task t)" by blast+
qed

lemma ns_drain:
  assumes "ns_ok w" "\<forall>t \<in> set (timers w). is_ns_task (task t)" "load (timers w) \<le> k"
  shows "ns_ok ((ns_tick ^^ k) w) \<and> timers ((ns_tick ^^ k) w) = [] \<and>
     on_screen ((ns_tick ^^ k) w) = filter (\<lambda>a. \<not> will_go w a) (on_screen w)"
  using assms
proof (induction k arbitrary: w)
  case 0
  then have "\<not> will_go w a" for a by (simp add: will_go_def)
  then show ?case using 0 by simp
next
  case (Suc k)
  have k: "load (timers (ns_tick w)) \<le> k"
  proof (cases "timers w = []")
    case True
    then show ?thesis by (simp add: ns_tick_def next_due_def load_def)
  next
    case False
    then show ?thesis using ns_tick_load [OF False] Suc.prems(3) by simp
  qed
  note s = ns_tick_screen [OF Suc.prems(1,2)]
  show ?case
    using Suc.IH [OF ns_tick_ok [OF Suc.prems(1)] s(2) k] s(1) by (simp add: funpow_Suc_right del: funpow.simps)
qed

subsection \<open>The interface of notifications\<close>

text \<open>
  What the other components rely on: with the system ready, notifying never throws, puts exactly
  one new notification on the screen and leaves everything else of the world that a view
  (\<open>outside\<close>) shows.
\<close>

locale notifier =
  fixes notify :: "jstr \<Rightarrow> val \<Rightarrow> val \<Rightarrow> world \<Rightarrow> (exn + unit) \<times> world"
    and ready :: "world \<Rightarrow> bool"
    and screen :: "world \<Rightarrow> nat list"
    and outside :: "world \<Rightarrow> 'v"
  assumes notify_shows: "ready w \<Longrightarrow>
    \<exists>w' n. notify ty ti me w = (Inr (), w') \<and> ready w' \<and> screen w' = screen w @ [n] \<and> outside w' = outside w"
begin

lemma notify_all:
  "ready w \<Longrightarrow> \<exists>w' ns. for_each msgs (\<lambda>(ty, ti, me). notify ty ti me) w = (Inr (), w') \<and> ready w' \<and>
     screen w' = screen w @ ns \<and> length ns = length msgs \<and> outside w' = outside w"
proof (induction msgs arbitrary: w)
  case Nil
  then show ?case by (simp add: ret_def)
next
  case (Cons m msgs)
  obtain ty ti me where m: "m = (ty, ti, me)" by (metis surj_pair)
  obtain u n where u: "notify ty ti me w = (Inr (), u)" "ready u" "screen u = screen w @ [n]" "outside u = outside w"
    using notify_shows [OF Cons.prems] by blast
  from Cons.IH [OF u(2)] obtain w' ns where "for_each msgs (\<lambda>(ty, ti, me). notify ty ti me) u = (Inr (), w')"
      "ready w'" "screen w' = screen u @ ns" "length ns = length msgs" "outside w' = outside u"
    by blast
  then show ?case using u
    by (intro exI [of _ w'] exI [of _ "n # ns"]) (simp add: m seq_Inr)
qed

text \<open>A failure report: an error on the console, then one notification.\<close>

lemma report_failure:
  assumes "ready w" and step: "ready (snd (report w)) \<and> screen (snd (report w)) = screen w \<and> fst (report w) = Inr ()"
  shows "\<exists>w' n. seq report (notify ty ti me) w = (Inr (), w') \<and> ready w' \<and> screen w' = screen w @ [n] \<and>
           outside w' = outside (snd (report w))"
proof -
  have "seq report (notify ty ti me) w = notify ty ti me (snd (report w))"
    using step by (cases "report w") (simp add: seq_Inr)
  then show ?thesis using notify_shows [of "snd (report w)"] step by metis
qed

end

text \<open>
  What showing a notification leaves alone: everything but the nodes, the document, the timers and
  the close buttons.  Of these the old ones stay, and what is new comes after them (\<open>extends\<close>).
\<close>

definition rest_of where
  "rest_of (w :: world) =
     ((objs w, body w, quirks w, store w, quota w, pathname w, search w, url_ok w, console w, clock w),
      (requests w, readers w, ajax w, clicks w, reloads w, current_file w, container w),
      (click_listeners w, htmx_listeners w, clipboard w, selected_element w, selected_path w))"

definition extends :: "world \<Rightarrow> world \<Rightarrow> bool" where
  "extends w v \<longleftrightarrow> length (nodes w) \<le> length (nodes v) \<and> (\<forall>a < length (nodes w). node_at v a = node_at w a) \<and>
     (\<forall>a < length (nodes w). container w \<noteq> Some a \<longrightarrow> all_children a (forest v) = all_children a (forest w)) \<and>
     (\<forall>s. element_by_id v s = element_by_id w s) \<and> (\<exists>ts. timers v = timers w @ ts)"

lemma with_notification_rest [simp]: "rest_of (with_notification w c ty ti me to) = rest_of w"
  by (simp add: rest_of_def) (simp add: notification_defs)

lemma showNotification_step:
  assumes ok: "ns_ok w"
  shows "\<exists>w'. showNotification ty ti me w = (Inr (), w') \<and> ns_ok w' \<and>
     on_screen w' = on_screen w @ [length (nodes w)] \<and> rest_of w' = rest_of w \<and> extends w w'"
proof -
  obtain c where c: "c < length (nodes w)" "container w = Some c" using ok by (auto simp: ns_ok_def)
  have tree: "tree_ok w" using ok by (simp add: ns_ok_def)
  obtain w' where w': "ns_show ty ti me Undefined w = (Inr (length (nodes w)), w')" "ns_ok w'"
      "on_screen w' = on_screen w @ [length (nodes w)]" using ns_show_ok [OF ok] by blast
  have n: "w' = with_notification w c ty ti me Undefined"
    using w'(1) ns_show_container [OF tree c(2,1)] by simp
  then have "rest_of w' = rest_of w" by simp
  moreover have "extends w w'"
    using with_notification_tree [OF tree c(1)] c(2) by (simp add: n extends_def) (simp add: notification_defs)
  ultimately show ?thesis using w' by (simp add: showNotification_def bnd_Inr ret_def)
qed

lemma showNotification_extends:
  "ns_ok w \<Longrightarrow> showNotification ty ti me w = (Inr (), w') \<Longrightarrow> extends w w'"
  using showNotification_step by (metis prod.inject)

interpretation ns: notifier showNotification ns_ok on_screen rest_of
  by unfold_locales (use showNotification_step in blast)

subsection \<open>Properties\<close>

text \<open>The sample page with one of its elements as the container.\<close>

definition sample_ready :: world where
  "sample_ready = sample_page\<lparr>container := Some 4\<rparr>"

lemma sample_ready_ok: "ns_ok sample_ready" "timers sample_ready = []" "objs sample_ready = []"
  by (auto simp: ns_ok_def sample_ready_def tree_ok_def timers_ok_def sample_page_def node_at_def
      blank_def less_Suc_eq)

definition sample_shown :: world where
  "sample_shown = with_notification sample_ready 4 (js ''info'') (Str (js ''INFO'')) (Str (js ''hello'')) Undefined"

lemma default_positive: "positive (shown_timer h Undefined)"
  by code_simp

lemma sample_shown_step:
  "ns_show (js ''info'') (Str (js ''INFO'')) (Str (js ''hello'')) Undefined sample_ready = (Inr 5, sample_shown)"
  "ns_ok sample_shown" "timers sample_shown = [\<lparr>timer_id = 1, due = delay_of default_timeout, task = AutoClose 5\<rparr>]"
proof -
  show s: "ns_show (js ''info'') (Str (js ''INFO'')) (Str (js ''hello'')) Undefined sample_ready = (Inr 5, sample_shown)"
    using ns_show_container [of sample_ready 4 "js ''info''" "Str (js ''INFO'')" "Str (js ''hello'')" Undefined] sample_ready_ok(1)
    by (simp add: ns_ok_def sample_shown_def) (simp add: sample_ready_def sample_page_def)
  show "ns_ok sample_shown"
    using ns_show_ok [OF sample_ready_ok(1), of "js ''info''" "Str (js ''INFO'')" "Str (js ''hello'')" Undefined] s by auto
  show "timers sample_shown = [\<lparr>timer_id = 1, due = delay_of default_timeout, task = AutoClose 5\<rparr>]"
    using default_positive by (simp add: sample_shown_def auto_timer_def Let_def shown_timer_def)
      (simp add: sample_ready_def sample_page_def)
qed

text \<open>C1: Whatever happens to the notification system (a notification is shown, a close button
  clicked, the next timer fires) keeps its invariant: the document is a tree, the container is a
  node of it, timers are distinct and belong to notifications, a notification remembers exactly
  its pending auto-close timer, and every notification on the screen that was shown with a timeout
  has a timer that will close or remove it.\<close>

theorem notifications_invariant:
  assumes "ns_step w w'" "ns_ok w"
  shows "ns_ok w'"
  using assms(1)
proof (cases rule: ns_step.cases)
  case (shown ty ti me to n)
  then show ?thesis using ns_show_ok [OF assms(2), of ty ti me to] by auto
next
  case (clicked b)
  have t: "timers_ok w" using assms(2) by (simp add: ns_ok_def)
  show ?thesis
  proof (cases "map_of (close_buttons w) b")
    case None
    then show ?thesis using clicked assms(2) by (simp add: click_close_def ret_def)
  next
    case (Some a)
    then have "a < length (nodes w)" using timers_okD(6) [OF t] by (auto dest: map_of_SomeD)
    moreover have "w' = snd (ns_close a w)" using clicked Some by (simp add: click_close_def)
    ultimately show ?thesis using ns_close_ok [OF assms(2)] by simp
  qed
next
  case ticked
  then show ?thesis using ns_tick_ok [OF assms(2)] by simp
qed

lemma notifications_invariant_witness:
  "ns_ok (ns_tick sample_shown)"
  by (rule notifications_invariant [OF ns_step.ticked]) (simp_all add: sample_shown_step next_due_def)

text \<open>C17: With the container in place show appends one notification of its type as the last one on
  the screen, sets its auto-close timer when the timeout is positive, and leaves ids, older nodes,
  storage, console and requests alone.\<close>

theorem show_notification:
  assumes ok: "ns_ok w"
  shows "\<exists>w'. ns_show ty ti me to w = (Inr (length (nodes w)), w') \<and>
     on_screen w' = on_screen w @ [length (nodes w)] \<and>
     classes (node_at w' (length (nodes w))) = tokens (js ''notification '' @ ty) \<and>
     timers w' = timers w @ auto_timer w to \<and>
     (\<forall>s. element_by_id w' s = element_by_id w s) \<and>
     (\<forall>a < length (nodes w). node_at w' a = node_at w a) \<and> rest_of w' = rest_of w"
proof -
  obtain c where c: "c < length (nodes w)" "container w = Some c" using ok by (auto simp: ns_ok_def)
  have tree: "tree_ok w" using ok by (simp add: ns_ok_def)
  let ?w = "with_notification w c ty ti me to"
  have "classes (node_at ?w (length (nodes w))) = tokens (js ''notification '' @ ty)"
    by (simp add: notification_defs node_at_def shown_nodes_def)
  then show ?thesis
    using ns_show_container [OF tree c(2,1)] with_notification_tree [OF tree c(1)] c(2)
    by (simp add: on_screen_def)
qed

lemma show_notification_witness:
  "\<exists>w'. ns_show (js ''error'') Undefined Null (Num zero) sample_ready = (Inr 5, w') \<and> on_screen w' = [5] \<and> timers w' = []"
proof -
  have "\<not> positive (shown_timer h (Num zero))" for h
    by (simp add: shown_timer_def to_number_def zero_def positive_def)
  moreover have "length (nodes sample_ready) = 5" "on_screen sample_ready = []"
    by (simp_all add: sample_ready_def sample_page_def on_screen_def)
  ultimately show ?thesis
    using show_notification [OF sample_ready_ok(1), of "js ''error''" Undefined Null "Num zero"]
    by (auto simp: auto_timer_def Let_def sample_ready_ok)
qed

text \<open>Before the container exists show throws a TypeError: the document and the timers stay, only
  detached nodes are left behind.\<close>

lemma show_before_init:
  assumes "tree_ok w" "container w = None"
  shows "\<exists>w'. ns_show ty ti me to w = (Inl TypeError, w') \<and> timers w' = timers w \<and>
     document w' = document w \<and> length (nodes w) < length (nodes w')"
proof -
  have "forest w \<noteq> []" using assms(1) by (simp add: tree_ok_def)
  then show ?thesis using ns_show_no_container [OF assms]
    by (simp add: assembled_def Let_def document_def)
qed

lemma show_before_init_witness:
  "\<exists>w'. ns_show (js ''info'') Null Null Undefined sample_page = (Inl TypeError, w') \<and> document w' = document sample_page"
  using show_before_init [of sample_page "js ''info''" Null Null Undefined] sample_tree
  by (auto simp: sample_page_def)

text \<open>C2: When only notification timers are pending, firing them (their load counts the closings still
  to come) empties the timers; exactly the notifications with a pending timer leave the screen,
  and no notification keeps an unfired timeout.\<close>

theorem notifications_drain:
  assumes "ns_ok w" "\<forall>t \<in> set (timers w). is_ns_task (task t)"
  defines "w' \<equiv> (ns_tick ^^ load (timers w)) w"
  shows "timers w' = [] \<and> on_screen w' = filter (\<lambda>a. \<not> will_go w a) (on_screen w) \<and>
     (\<forall>a \<in> set (on_screen w'). timeout_id (node_at w' a) = None)"
proof -
  have d: "ns_ok w'" "timers w' = []" "on_screen w' = filter (\<lambda>a. \<not> will_go w a) (on_screen w)"
    using ns_drain [OF assms(1,2) order_refl] by (simp_all add: w'_def)
  have "timeout_id (node_at w' a) = None" if "a \<in> set (on_screen w')" for a
    using d(1,2) that by (auto simp: ns_ok_def on_screen_def will_go_def)
  with d show ?thesis by blast
qed

lemma notifications_drain_witness:
  "timers ((ns_tick ^^ 2) sample_shown) = [] \<and> on_screen ((ns_tick ^^ 2) sample_shown) = []"
proof -
  have "load (timers sample_shown) = 2" "will_go sample_shown 5" "on_screen sample_shown = [5]"
    using sample_shown_step(3) ns_show_ok [OF sample_ready_ok(1), of "js ''info''" "Str (js ''INFO'')" "Str (js ''hello'')" Undefined]
    by (auto simp: load_def will_go_def sample_shown_step(1)) (simp add: sample_ready_def sample_page_def on_screen_def)
  then show ?thesis
    using notifications_drain [OF sample_shown_step(2)] sample_shown_step(3) by simp
qed

text \<open>C20: A notification shown while no timer is pending stays on the screen until its timeout, is
  still there while it fades, and is gone half a second later.\<close>

theorem notification_times_out:
  assumes ok: "ns_ok w" and quiet: "timers w = []" and t: "positive (shown_timer (objs w) to)"
    and shw: "ns_show ty ti me to w = (Inr n, u)"
  shows "on_screen u = on_screen w @ [n] \<and> on_screen (ns_tick u) = on_screen w @ [n] \<and>
     on_screen (ns_tick (ns_tick u)) = on_screen w \<and>
     clock (ns_tick (ns_tick u)) = clock w + delay_of (shown_timer (objs w) to) + 500"
proof -
  let ?t = "\<lparr>timer_id = next_timer w, due = clock w + delay_of (shown_timer (objs w) to), task = AutoClose n\<rparr>"
  let ?f = "\<lparr>timer_id = next_timer w + 1, due = due ?t + 500, task = FadeOut n\<rparr>"
  obtain c where c: "c < length (nodes w)" "container w = Some c" using ok by (auto simp: ns_ok_def)
  have tree: "tree_ok w" using ok by (simp add: ns_ok_def)
  have u: "u = with_notification w c ty ti me to" "n = length (nodes w)"
    using shw ns_show_container [OF tree c(2,1)] by simp_all
  have u_ok: "ns_ok u" "on_screen u = on_screen w @ [n]"
    using ns_show_ok [OF ok, of ty ti me to] shw by auto
  have T: "timers u = [?t]" "next_timer u = next_timer w + 1" "clock u = clock w"
    using quiet t by (simp_all add: u auto_timer_def Let_def)
  have id: "timeout_id (node_at u n) = Some (next_timer w)"
    using timers_okD(4) [of u ?t n] u_ok(1) T by (simp add: ns_ok_def)
  have one: "timers (ns_tick u) = [?f]" "clock (ns_tick u) = due ?t"
    using T id by (simp_all add: ns_tick_def next_due_def ns_close_step take_timer_def)
  have screen1: "on_screen (ns_tick u) = on_screen u"
    using T c(2) by (simp add: ns_tick_def next_due_def ns_close_step on_screen_def) (simp add: u)
  have "load (timers u) \<le> 2" using T by (simp add: load_def)
  moreover have "\<forall>t \<in> set (timers u). is_ns_task (task t)" using T by simp
  ultimately have "on_screen ((ns_tick ^^ 2) u) = filter (\<lambda>a. \<not> will_go u a) (on_screen u)"
    using ns_drain [OF u_ok(1)] by blast
  moreover have "will_go u a \<longleftrightarrow> a = n" for a using T by (auto simp: will_go_def)
  moreover have "n \<notin> set (on_screen w)"
    using children_addrs(2) [of c "forest w"] tree c(2) u(2) by (auto simp: on_screen_def tree_ok_def)
  then have "filter (\<lambda>a. a \<noteq> n) (on_screen w) = on_screen w" by (auto intro: filter_True)
  ultimately have "on_screen (ns_tick (ns_tick u)) = on_screen w"
    using u_ok(2) by (simp add: numeral_2_eq_2)
  moreover have "clock (ns_tick (ns_tick u)) = due ?f"
  proof -
    have "next_due (timers (ns_tick u)) = Some ?f" by (simp add: one(1) next_due_def)
    then show ?thesis using one(2) by (simp add: ns_tick_def [of "ns_tick u"] ns_remove_step)
  qed
  ultimately show ?thesis using u_ok(2) screen1 by simp
qed

lemma notification_times_out_witness:
  "on_screen (ns_tick (ns_tick sample_shown)) = on_screen sample_ready \<and>
     clock (ns_tick (ns_tick sample_shown)) = 5500"
proof -
  have "clock sample_ready = 0" "delay_of default_timeout = 5000"
    by (simp add: sample_ready_def sample_page_def) code_simp
  then show ?thesis
    using notification_times_out [OF sample_ready_ok(1,2) default_positive sample_shown_step(1)]
    by (simp add: shown_timer_def)
qed

lemma init_effect:
  assumes tree: "tree_ok w" and b: "body w = Some b" "b < length (nodes w)"
    and none: "container w = None" and t: "timers_ok w"
  shows "\<exists>w'. ns_init w = (Inr (), w') \<and> ns_ok w' \<and> on_screen w' = [] \<and>
     all_children b (forest w') = all_children b (forest w) @ [length (nodes w)] \<and>
     (\<forall>s. element_by_id w' s = element_by_id w s) \<and> ns_init w' = (Inr (), w') \<and>
     container w' \<noteq> None \<and> w' = w\<lparr>forest := forest w', container := container w', nodes := nodes w'\<rparr> \<and>
     (\<forall>a < length (nodes w). node_at w' a = node_at w a) \<and> length (nodes w) \<le> length (nodes w')"
proof -
  define n where "n = length (nodes w)"
  let ?nd = "blank\<lparr>classes := tokens (js ''notification-container'')\<rparr>"
  let ?v = "w\<lparr>forest := forest w @ [Node n []], container := Some n, nodes := nodes w @ [?nd]\<rparr>"
  let ?w = "?v\<lparr>forest := map (graft b (Node n [])) (forest w)\<rparr>"
  have d: "distinct (all_addrs (forest w))" "set (all_addrs (forest w)) = {..<n}" "forest w \<noteq> []"
    using tree by (simp_all add: tree_ok_def n_def)
  have nF: "n \<notin> set (all_addrs (forest w))" using d by simp
  have bF: "b \<in> set (all_addrs (forest w))" "b \<noteq> n" using b d by (simp_all add: n_def)
  have s1: "seq (modify (\<lambda>w. w\<lparr>container := Some n\<rparr>))
      (seq (set_class_name n (js ''notification-container'')) (bnd (gets body) (\<lambda>b. bnd (non_null b) (\<lambda>b. append_child b n))))
      (w\<lparr>nodes := nodes w @ [blank], forest := forest w @ [Node n []]\<rparr>) = append_child b n ?v"
    using b by (simp add: seq_Inr set_class_name_step list_update_append nth_append n_def non_null_def)
  have "below n (forest w @ [Node n []]) = [n]"
    using nF by (simp add: below_append) (simp add: below_def)
  moreover have "attach b n (forest w @ [Node n []]) = map (graft b (Node n [])) (forest w)"
    using nF prune_absent(2) [OF nF] by (simp add: attach_def subtree_in_append prune_all_append)
  ultimately have "append_child b n ?v = (Inr (), ?w)" using bF by (simp add: append_child_step)
  then have run: "ns_init w = (Inr (), ?w)"
    using none s1 by (simp add: ns_init_def bnd_Inr [where m = create_element, OF create_element_step] flip: n_def)
  have m: "mset (all_addrs (forest ?w)) = mset (all_addrs (forest w) @ [n])"
    using mset_graft(2) [OF d(1), of b "Node n []"] bF by simp
  have tree': "tree_ok ?w"
  proof -
    have "distinct (all_addrs (forest ?w))" using mset_eq_imp_distinct_iff [OF m] d nF by simp
    moreover have "set (all_addrs (forest ?w)) = {..<Suc n}" using mset_eq_setD [OF m] d(2) by (simp add: lessThan_Suc)
    ultimately show ?thesis using d(3) by (simp add: tree_ok_def flip: n_def)
  qed
  have nodes: "node_at ?w a = (if a = n then ?nd else node_at w a)" if "a < length (nodes ?w)" for a
    using that by (simp add: node_at_def nth_append n_def)
  have timeouts: "a < length (nodes ?w) \<and> timeout_id (node_at ?w a) = Some i \<longleftrightarrow>
      a < length (nodes w) \<and> timeout_id (node_at w a) = Some i" for a i
    using nodes [of a] by (auto simp: n_def blank_def less_Suc_eq)
  have "timers_ok ?w"
    unfolding timers_ok_def
  proof (intro conjI)
    show "\<forall>a < length (nodes ?w). \<forall>i. timeout_id (node_at ?w a) = Some i \<longrightarrow> i < next_timer ?w"
    proof (intro allI impI)
      fix a i
      assume "a < length (nodes ?w)" "timeout_id (node_at ?w a) = Some i"
      then show "i < next_timer ?w" using timers_okD(3) [OF t, of a i] timeouts [of a i] by simp
    qed
    show "\<forall>t \<in> set (timers ?w). \<forall>a. task t = AutoClose a \<longleftrightarrow>
        a < length (nodes ?w) \<and> timeout_id (node_at ?w a) = Some (timer_id t)"
      using timers_okD(4) [OF t] unfolding timeouts by simp
  qed (use timers_okD(1,2) [OF t] in simp, use timers_okD(2) [OF t] in simp,
       use timers_okD(5) [OF t] less_SucI in fastforce, use timers_okD(6) [OF t] less_SucI in fastforce)
  moreover have kids: "all_children n (forest ?w) = []"
    using children_graft_new(2) [OF nF, of "Node n []"] by simp
  ultimately have "ns_ok ?w" using tree' unfolding ns_ok_def by (auto simp: n_def)
  moreover have "on_screen ?w = []" using kids by (simp add: on_screen_def)
  moreover have "all_children b (forest ?w) = all_children b (forest w) @ [n]"
    using children_graft(2) [OF d(1), of b "Node n []"] bF by simp
  moreover have "element_by_id ?w s = element_by_id w s" for s
  proof (rule element_by_id_graft [OF d(3)])
    show "ident (node_at ?w x) = ident (node_at w x)" if "x \<in> set (addrs (document w))" for x
    proof -
      have "x < n" using that d by (cases "forest w") (auto simp: document_def)
      then show ?thesis using nodes [of x] by (simp add: n_def)
    qed
  qed (use nodes in \<open>auto simp: n_def blank_def\<close>)
  moreover have "ns_init ?w = (Inr (), ?w)" by (simp add: ns_init_def ret_def)
  moreover have "\<forall>a < length (nodes w). node_at ?w a = node_at w a" using nodes by (auto simp: n_def)
  moreover have "?w = w\<lparr>forest := forest ?w, container := container ?w, nodes := nodes ?w\<rparr>" by simp
  ultimately show ?thesis using run by (intro exI [of _ ?w]) (simp add: n_def)
qed

text \<open>init makes the container as the last child of the body, with an empty screen and every id as
  before; a second init does nothing.\<close>

lemma init_container:
  assumes "tree_ok w" "body w = Some b" "b < length (nodes w)" "container w = None" "timers_ok w"
  shows "\<exists>w'. ns_init w = (Inr (), w') \<and> ns_ok w' \<and> on_screen w' = [] \<and>
     all_children b (forest w') = all_children b (forest w) @ [length (nodes w)] \<and>
     (\<forall>s. element_by_id w' s = element_by_id w s) \<and> ns_init w' = (Inr (), w')"
  using init_effect [OF assms] by blast

lemma init_container_witness:
  "\<exists>w'. ns_init sample_page = (Inr (), w') \<and> ns_ok w' \<and> on_screen w' = [] \<and> ns_init w' = (Inr (), w')"
  using init_container [OF sample_tree, of 1]
  by (auto simp: sample_page_def timers_ok_def node_at_def blank_def less_Suc_eq)

end
