(* ===== verification/Requests.thy ===== *)
theory Requests
  imports Notifications
begin

section \<open>Requests to the server\<close>

text \<open>
  \<open>sendData\<close>, \<open>getData\<close> and \<open>send_file\<close> of \<open>utils.js\<close>: each opens a request, installs a closure
  for \<open>onreadystatechange\<close> and sends.  The closures are \<open>send_change\<close>, \<open>get_change\<close> and
  \<open>file_change\<close>; they read the state, the status and the response of the request when the browser
  calls them.  What a callback does is a parameter (\<open>run\<close>): it is code of the page that makes the
  request.  The events of the network are a step relation on the states of a request.
\<close>

subsection \<open>The code\<close>

definition DONE :: nat where "DONE = 4"

definition call_back :: "(nat \<Rightarrow> nat \<Rightarrow> jstr \<Rightarrow> unit js_prog) \<Rightarrow> callback \<Rightarrow> nat \<Rightarrow> jstr \<Rightarrow> unit js_prog" where
  "call_back run callback st resp =
     (case callback of
        NotFunction \<Rightarrow> ret ()
      | Function arity f \<Rightarrow>
          if st = 200 \<or> 1 \<le> arity then run f st resp
          else if st = 200 then run f st resp
          else ret ())"

definition status_line :: "nat \<Rightarrow> jstr \<Rightarrow> val" where
  "status_line st resp = Str (nat_text st @ js '' '' @ resp)"

definition send_change ::
  "(nat \<Rightarrow> nat \<Rightarrow> jstr \<Rightarrow> unit js_prog) \<Rightarrow> jstr \<Rightarrow> jstr \<Rightarrow> jstr \<Rightarrow> callback \<Rightarrow> nat \<Rightarrow> nat \<Rightarrow> jstr \<Rightarrow> unit js_prog" where
  "send_change run path contentType verb callback state st resp =
     (if state = DONE then
        seq (call_back run callback st resp)
            (if st \<noteq> 200 then
               seq (log_at ''error'' [status_line st resp])
                   (showNotification (js ''error'') (Str (js ''Error sending request''))
                     (Str (js ''Path: '' @ path @ 10 # js ''Content Type: '' @ contentType
                           @ 10 # js ''Verb: '' @ verb)))
             else ret ())
      else ret ())"

definition sendData :: "jstr \<Rightarrow> jstr \<Rightarrow> val \<Rightarrow> jstr \<Rightarrow> callback \<Rightarrow> unit js_prog" where
  "sendData path verb data contentType callback =
     bnd new_request (\<lambda>xhr.
     seq (open_request xhr verb path)
    (seq (set_content_type xhr contentType)
    (seq (set_on_change xhr (OnSend path contentType verb callback))
         (if \<not> nullish data then (\<lambda>w. send_request xhr (TextBody (to_string (objs w) data)) w)
          else send_request xhr NoBody))))"

definition get_change ::
  "(nat \<Rightarrow> nat \<Rightarrow> jstr \<Rightarrow> unit js_prog) \<Rightarrow> jstr \<Rightarrow> jstr \<Rightarrow> callback \<Rightarrow> nat \<Rightarrow> nat \<Rightarrow> jstr \<Rightarrow> unit js_prog" where
  "get_change run path verb callback state st resp =
     (if state = DONE then
        seq (call_back run callback st resp)
            (if st \<noteq> 200 then
               seq (log_at ''error'' [status_line st resp])
                   (showNotification (js ''error'') (Str (js ''Error sending no body request''))
                     (Str (js ''Path: '' @ path @ 10 # js ''Verb: '' @ verb)))
             else ret ())
      else ret ())"

definition getData :: "jstr \<Rightarrow> jstr \<Rightarrow> callback \<Rightarrow> unit js_prog" where
  "getData path verb callback =
     bnd new_request (\<lambda>xhr.
     seq (open_request xhr verb path)
    (seq (set_on_change xhr (OnGet path verb callback))
         (send_request xhr NoBody)))"

text \<open>
  In \<open>send_file\<close> the message of the notification names \<open>verb\<close>, which is no variable there: the
  read throws before the notification is shown.
\<close>

definition file_change :: "jstr \<Rightarrow> jstr \<Rightarrow> nat option \<Rightarrow> nat option \<Rightarrow> nat \<Rightarrow> nat \<Rightarrow> jstr \<Rightarrow> unit js_prog" where
  "file_change path contentType out outputCode state st resp =
     (if state = DONE then
        seq (case outputCode of None \<Rightarrow> ret () | Some a \<Rightarrow> set_content a (nat_text st))
       (seq (case out of None \<Rightarrow> ret () | Some a \<Rightarrow> set_content a resp)
            (if st \<noteq> 200 then
               seq (log_at ''error'' [status_line st resp]) (throw ReferenceError)
             else ret ()))
      else ret ())"

definition send_file :: "jstr \<Rightarrow> payload \<Rightarrow> jstr \<Rightarrow> nat option \<Rightarrow> nat option \<Rightarrow> unit js_prog" where
  "send_file path data contentType out outputCode =
     bnd new_request (\<lambda>xhr.
     seq (open_request xhr (js ''POST'') path)
    (seq (set_content_type xhr contentType)
    (seq (set_on_change xhr (OnFile path contentType out outputCode))
         (send_request xhr data))))"

subsection \<open>The network\<close>

text \<open>
  The events of a request: the headers arrive, some of the body, all of it; or it fails, which
  leaves status 0 and no text.  \<open>apply_event\<close> changes the request, \<open>allowed\<close> says when an event can
  come, \<open>fire\<close> is the browser calling the closure; an exception from it ends there.
\<close>

datatype net_event = Headers nat | Loading | Loaded jstr | Failed

fun allowed :: "net_event \<Rightarrow> nat \<Rightarrow> bool" where
  "allowed (Headers _) s \<longleftrightarrow> s = 1"
| "allowed Loading s \<longleftrightarrow> s = 2 \<or> s = 3"
| "allowed (Loaded _) s \<longleftrightarrow> s = 2 \<or> s = 3"
| "allowed Failed s \<longleftrightarrow> s = 1 \<or> s = 2 \<or> s = 3"

fun apply_event :: "net_event \<Rightarrow> request \<Rightarrow> request" where
  "apply_event (Headers st) r = r\<lparr>ready_state := 2, req_status := st\<rparr>"
| "apply_event Loading r = r\<lparr>ready_state := 3\<rparr>"
| "apply_event (Loaded t) r = r\<lparr>ready_state := 4, req_response := t\<rparr>"
| "apply_event Failed r = r\<lparr>ready_state := 4, req_status := 0, req_response := []\<rparr>"

definition change_of :: "(nat \<Rightarrow> nat \<Rightarrow> jstr \<Rightarrow> unit js_prog) \<Rightarrow> handler \<Rightarrow> nat \<Rightarrow> nat \<Rightarrow> jstr \<Rightarrow> unit js_prog" where
  "change_of run k =
     (case k of
        OnSend path contentType verb callback \<Rightarrow> send_change run path contentType verb callback
      | OnGet path verb callback \<Rightarrow> get_change run path verb callback
      | OnFile path contentType out outputCode \<Rightarrow> file_change path contentType out outputCode)"

definition deliver :: "(nat \<Rightarrow> nat \<Rightarrow> jstr \<Rightarrow> unit js_prog) \<Rightarrow> nat \<Rightarrow> net_event \<Rightarrow> world \<Rightarrow> world" where
  "deliver change x e w =
     (let u = set_request x (apply_event e) w; r = requests u ! x
      in snd (change (ready_state r) (req_status r) (req_response r) u))"

inductive net_step :: "(nat \<Rightarrow> nat \<Rightarrow> jstr \<Rightarrow> unit js_prog) \<Rightarrow> nat \<Rightarrow> world \<Rightarrow> net_event \<Rightarrow> world \<Rightarrow> bool" for run x where
  net_stepI: "x < length (requests w) \<Longrightarrow> sent (requests w ! x) \<Longrightarrow> allowed e (ready_state (requests w ! x)) \<Longrightarrow>
     on_change (requests w ! x) = Some k \<Longrightarrow> net_step run x w e (deliver (change_of run k) x e w)"

inductive_simps net_step_iff: "net_step run x w e w'"

inductive net_steps :: "(nat \<Rightarrow> nat \<Rightarrow> jstr \<Rightarrow> unit js_prog) \<Rightarrow> nat \<Rightarrow> world \<Rightarrow> net_event list \<Rightarrow> world \<Rightarrow> bool" for run x where
  net_steps_Nil: "net_steps run x w [] w"
| net_steps_Cons: "net_step run x w e u \<Longrightarrow> net_steps run x u es w' \<Longrightarrow> net_steps run x w (e # es) w'"

inductive_cases net_steps_NilE: "net_steps run x w [] w'"
inductive_cases net_steps_ConsE: "net_steps run x w (e # es) w'"

text \<open>The request after a list of events.\<close>

definition after_events :: "net_event list \<Rightarrow> request \<Rightarrow> request" where
  "after_events es r = foldl (\<lambda>r e. apply_event e r) r es"

fun final :: "net_event \<Rightarrow> bool" where
  "final (Loaded _) \<longleftrightarrow> True"
| "final Failed \<longleftrightarrow> True"
| "final _ \<longleftrightarrow> False"

subsection \<open>The interface of a request's closure\<close>

text \<open>
  A closure that does nothing before the request is done.  Then whatever events come first, the
  whole of a request's effect is one call of the closure on the finished request.
\<close>

locale request_handler =
  fixes change :: "nat \<Rightarrow> nat \<Rightarrow> jstr \<Rightarrow> world \<Rightarrow> (exn + unit) \<times> world"
  assumes quiet: "state \<noteq> DONE \<Longrightarrow> change state st resp w = (Inr (), w)"
begin

lemma deliver_quiet:
  assumes "x < length (requests w)" "\<not> final e"
  shows "deliver change x e w = set_request x (apply_event e) w"
proof -
  have "ready_state (requests (set_request x (apply_event e) w) ! x) \<noteq> DONE"
    using assms by (cases e) (auto simp: set_request_def DONE_def)
  then show ?thesis by (simp add: deliver_def Let_def quiet)
qed

lemma deliver_all:
  assumes "x < length (requests w)" "\<forall>e \<in> set es. \<not> final e"
  shows "foldl (\<lambda>w e. deliver change x e w) w es = set_request x (after_events es) w"
  using assms
proof (induction es arbitrary: w)
  case Nil
  then show ?case by (simp add: set_request_def after_events_def)
next
  case (Cons e es)
  have "x < length (requests (set_request x (apply_event e) w))"
    using Cons.prems by (simp add: set_request_def)
  with Cons show ?case
    by (simp add: deliver_quiet) (simp add: set_request_def after_events_def)
qed

lemma effect_at_end:
  assumes "x < length (requests w)" "\<forall>e \<in> set es. \<not> final e" "final e"
  shows "foldl (\<lambda>w e. deliver change x e w) w (es @ [e]) =
    (let r = after_events (es @ [e]) (requests w ! x)
     in snd (change DONE (req_status r) (req_response r) (set_request x (\<lambda>_. r) w)))"
proof -
  have "ready_state (after_events (es @ [e]) (requests w ! x)) = DONE"
    using assms(3) by (cases e) (simp_all add: after_events_def DONE_def)
  then show ?thesis
    using assms(1) by (simp add: deliver_all [OF assms(1,2)])
      (simp add: deliver_def set_request_def after_events_def Let_def)
qed

end

interpretation send: request_handler "send_change run path contentType verb callback"
  for run path contentType verb callback
  by unfold_locales (simp add: send_change_def ret_def)

interpretation get: request_handler "get_change run path verb callback" for run path verb callback
  by unfold_locales (simp add: get_change_def ret_def)

interpretation upload: request_handler "file_change path contentType out outputCode"
  for path contentType out outputCode
  by unfold_locales (simp add: file_change_def ret_def)

interpretation any: request_handler "change_of run k" for run k
  by unfold_locales (cases k; simp add: change_of_def send.quiet get.quiet upload.quiet)

text \<open>The closure of a request is the same all along.\<close>

lemma on_change_events [simp]: "on_change (apply_event e r) = on_change r" "sent (apply_event e r) = sent r"
  by (cases e; simp)+

lemma net_steps_deliver:
  "net_steps run x w es w' \<Longrightarrow> x < length (requests w) \<Longrightarrow> on_change (requests w ! x) = Some k \<Longrightarrow>
     \<forall>e \<in> set (butlast es). \<not> final e \<Longrightarrow> w' = foldl (\<lambda>w e. deliver (change_of run k) x e w) w es"
proof (induction rule: net_steps.induct)
  case (net_steps_Cons w e u es w')
  then have u: "u = deliver (change_of run k) x e w" by (auto simp: net_step_iff)
  show ?case
  proof (cases "es = []")
    case True
    then show ?thesis using net_steps_Cons.hyps(2) u by (auto elim: net_steps_NilE)
  next
    case False
    then have "\<not> final e" "\<forall>e \<in> set (butlast es). \<not> final e" using net_steps_Cons.prems by auto
    then show ?thesis
      using net_steps_Cons u any.deliver_quiet [of x w e run k] by (simp add: set_request_def)
  qed
qed simp

lemma request_done:
  assumes "net_steps run x w (es @ [e]) w'" "on_change (requests w ! x) = Some k"
    and "\<forall>e \<in> set es. \<not> final e" "final e"
  shows "w' = (let r = after_events (es @ [e]) (requests w ! x)
               in snd (change_of run k DONE (req_status r) (req_response r) (set_request x (\<lambda>_. r) w)))"
proof -
  have x: "x < length (requests w)"
    using assms(1) by (cases es) (auto elim!: net_steps_ConsE simp: net_step_iff)
  show ?thesis
    using net_steps_deliver [OF assms(1) x assms(2)] any.effect_at_end [OF x assms(3,4)] assms(3) by simp
qed

text \<open>C7: However the events of a request arrive, its closure acts once, when the request is done: the
  whole effect of the events equals one call on the finished request.\<close>

theorem request_effect_once:
  assumes "net_steps run x w (es @ [e]) w'" "on_change (requests w ! x) = Some k"
    and "\<forall>e \<in> set es. \<not> final e" "final e"
  shows "w' = (let r = after_events (es @ [e]) (requests w ! x)
               in snd (change_of run k DONE (req_status r) (req_response r) (set_request x (\<lambda>_. r) w)))"
  by (rule request_done [OF assms])

definition sample_request :: world where
  "sample_request = sample_page\<lparr>requests :=
     [\<lparr>req_method = js ''GET'', req_url = js ''/x'', req_headers = [], req_mime = None, req_body = NoBody, sent = True,
       ready_state = 1, req_status = 0, req_response = [], on_change = Some (OnGet (js ''/x'') (js ''GET'') (Function 0 7))\<rparr>]\<rparr>"

lemma request_effect_once_witness:
  "\<exists>w'. net_steps (\<lambda>f st resp. reload) 0 sample_request [Headers 200, Loading, Loaded (js ''ok'')] w' \<and> reloads w' = 1"
proof -
  let ?run = "\<lambda>(f :: nat) (st :: nat) (resp :: jstr). reload"
  let ?k = "OnGet (js ''/x'') (js ''GET'') (Function 0 7)"
  let ?es = "[Headers 200, Loading, Loaded (js ''ok'')]"
  define w' where "w' = foldl (\<lambda>w e. deliver (change_of ?run ?k) 0 e w) sample_request ?es"
  have "net_steps ?run 0 sample_request ?es w'"
    unfolding w'_def foldl.simps
    by (rule net_steps_Cons [OF net_stepI [where k = ?k] net_steps_Cons [OF net_stepI [where k = ?k]
          net_steps_Cons [OF net_stepI [where k = ?k] net_steps_Nil]]])
      (simp_all add: sample_request_def deliver_def Let_def set_request_def change_of_def
        get_change_def DONE_def ret_def)
  then have w': "net_steps ?run 0 sample_request ([Headers 200, Loading] @ [Loaded (js ''ok'')]) w'" by simp
  have "w' = snd (change_of ?run (OnGet (js ''/x'') (js ''GET'') (Function 0 7)) DONE 200 (js ''ok'')
      (set_request 0 (\<lambda>_. after_events [Headers 200, Loading, Loaded (js ''ok'')] (requests sample_request ! 0)) sample_request))"
    using request_effect_once [OF w', of "OnGet (js ''/x'') (js ''GET'') (Function 0 7)"]
    by (simp add: sample_request_def after_events_def Let_def)
  then have "reloads w' = 1"
    by (simp add: change_of_def get_change_def call_back_def DONE_def reload_def seq_def bnd_def modify_def ret_def
        set_request_def sample_request_def sample_page_def)
  with w' show ?thesis by auto
qed

subsection \<open>Sending\<close>

text \<open>The request a call of \<open>sendData\<close> leaves behind.\<close>

definition issued :: "jstr \<Rightarrow> jstr \<Rightarrow> (jstr \<times> jstr) list \<Rightarrow> payload \<Rightarrow> handler \<Rightarrow> request" where
  "issued m path hs b k =
     \<lparr>req_method = m, req_url = path, req_headers = hs, req_mime = None,
      req_body = (if m \<in> {js ''GET'', js ''HEAD''} then NoBody else b), sent = True,
      ready_state = 1, req_status = 0, req_response = [], on_change = Some k\<rparr>"

definition body_of :: "heap \<Rightarrow> val \<Rightarrow> payload" where
  "body_of h data = (if nullish data then NoBody else TextBody (to_string h data))"

lemmas request_steps = new_request_def open_request_def set_content_type_def set_on_change_def
  send_request_def set_request_def bnd_def seq_def modify_def

text \<open>The request object when it was not opened, or not sent.\<close>

definition unsent :: "jstr \<Rightarrow> jstr \<Rightarrow> nat \<Rightarrow> request" where
  "unsent m path state =
     \<lparr>req_method = m, req_url = path, req_headers = [], req_mime = None, req_body = NoBody, sent = False,
      ready_state = state, req_status = 0, req_response = [], on_change = None\<rparr>"

lemma sendData_ok:
  assumes "method_of verb = Inr m" "url_ok w path" "header_value contentType = Inr t"
  shows "sendData path verb data contentType callback w =
    (Inr (), w\<lparr>requests := requests w @
       [issued m path [(js ''Content-Type'', t)] (body_of (objs w) data) (OnSend path contentType verb callback)]\<rparr>)"
  using assms by (simp add: sendData_def request_steps issued_def body_of_def)

lemma getData_ok:
  assumes "method_of verb = Inr m" "url_ok w path"
  shows "getData path verb callback w =
    (Inr (), w\<lparr>requests := requests w @ [issued m path [] NoBody (OnGet path verb callback)]\<rparr>)"
  using assms by (simp add: getData_def request_steps issued_def)

lemma put_method: "method_of (js ''PUT'') = Inr (js ''PUT'')"
  and post_method: "method_of (js ''POST'') = Inr (js ''POST'')"
  by (simp_all add: method_of_def js_def is_token_unit_def upper_def standard_methods_def forbidden_methods_def)

lemma send_file_ok:
  assumes "url_ok w path" "header_value contentType = Inr t"
  shows "send_file path data contentType out code w =
    (Inr (), w\<lparr>requests := requests w @
       [issued (js ''POST'') path [(js ''Content-Type'', t)] data (OnFile path contentType out code)]\<rparr>)"
  using assms by (simp add: send_file_def request_steps issued_def post_method)

text \<open>sendData sends one request with the method, address, content type and body, or throws the
  exception of the first check that refuses, leaving an unsent request.\<close>

lemma sendData_sends:
  "sendData path verb data contentType callback w =
     (case method_of verb of
        Inl ex \<Rightarrow> (Inl ex, w\<lparr>requests := requests w @ [unsent [] [] 0]\<rparr>)
      | Inr m \<Rightarrow>
          if \<not> url_ok w path
          then (Inl (DOMException ''SyntaxError''), w\<lparr>requests := requests w @ [unsent [] [] 0]\<rparr>)
          else case header_value contentType of
            Inl ex \<Rightarrow> (Inl ex, w\<lparr>requests := requests w @ [unsent m path 1]\<rparr>)
          | Inr t \<Rightarrow>
              (Inr (), w\<lparr>requests := requests w @
                 [issued m path [(js ''Content-Type'', t)] (body_of (objs w) data)
                    (OnSend path contentType verb callback)]\<rparr>))"
proof (cases "method_of verb")
  case (Inl ex)
  then show ?thesis by (simp add: sendData_def request_steps unsent_def)
next
  case m: (Inr m)
  show ?thesis
  proof (cases "url_ok w path")
    case False
    then show ?thesis using m by (simp add: sendData_def request_steps unsent_def)
  next
    case True
    show ?thesis
    proof (cases "header_value contentType")
      case (Inl ex)
      then show ?thesis using m True by (simp add: sendData_def request_steps unsent_def)
    next
      case (Inr t)
      then show ?thesis using m True sendData_ok [OF m True Inr] by simp
    qed
  qed
qed

subsection \<open>Completion\<close>

lemma ns_ok_console [simp]: "ns_ok (w\<lparr>console := c\<rparr>) = ns_ok w"
  and on_screen_console [simp]: "on_screen (w\<lparr>console := c\<rparr>) = on_screen w"
  by (simp_all add: ns_ok_def tree_ok_def timers_ok_def will_go_def on_screen_def split: option.splits)

lemma log_at_step: "log_at level args w = (Inr (), w\<lparr>console := console w @ [(level, args)]\<rparr>)"
  by (simp add: log_at_def modify_def)

lemma extends_console [simp]: "extends (w\<lparr>console := c\<rparr>) v = extends w v"
proof -
  have "element_by_id (w\<lparr>console := c\<rparr>) s = element_by_id w s" for s
    by (rule element_by_id_cong) (simp_all add: node_at_def)
  then show ?thesis by (simp add: extends_def node_at_def)
qed

lemma report_error:
  assumes ok: "ns_ok w"
  shows "\<exists>w' n. seq (log_at ''error'' [line]) (showNotification ty ti me) w = (Inr (), w') \<and> ns_ok w' \<and>
     on_screen w' = on_screen w @ [n] \<and>
     rest_of w' = rest_of (w\<lparr>console := console w @ [(''error'', [line])]\<rparr>) \<and> extends w w'"
proof -
  let ?u = "w\<lparr>console := console w @ [(''error'', [line])]\<rparr>"
  have u: "ns_ok ?u" using ok by simp
  obtain w' n where w': "seq (log_at ''error'' [line]) (showNotification ty ti me) w = (Inr (), w')" "ns_ok w'"
      "on_screen w' = on_screen w @ [n]" "rest_of w' = rest_of ?u"
    using ns.report_failure [OF ok, of "log_at ''error'' [line]" ty ti me] ok by (auto simp: log_at_step)
  then have "showNotification ty ti me ?u = (Inr (), w')" by (simp add: seq_Inr log_at_step)
  then have "extends w w'" using showNotification_extends [OF u] by simp
  with w' show ?thesis by blast
qed

text \<open>Whether the callback is called.\<close>

definition calls :: "callback \<Rightarrow> nat \<Rightarrow> bool" where
  "calls callback st \<longleftrightarrow> (case callback of NotFunction \<Rightarrow> False | Function arity f \<Rightarrow> st = 200 \<or> 1 \<le> arity)"

lemma call_back_calls:
  "call_back run callback st resp =
     (if calls callback st then case callback of Function _ f \<Rightarrow> run f st resp | _ \<Rightarrow> ret () else ret ())"
  by (cases callback) (auto simp: call_back_def calls_def)

text \<open>C22: When an answer other than 200 arrives and the callback returns, one error is logged and one
  notification appears after what the callback left on the screen. Every older element keeps its
  properties, its id and, but for the container, its children, and every older timer stays; the
  objects, the storage, the address, the requests, what htmx was asked, the listeners, the
  remembered file, the selection, the clipboard and the reloads are those the callback left.\<close>

theorem failed_request_reported:
  assumes cb: "call_back run callback st resp w = (Inr (), u)" and ok: "ns_ok u" and st: "st \<noteq> 200"
  shows "\<exists>w' n. send_change run path contentType verb callback DONE st resp w = (Inr (), w') \<and> ns_ok w' \<and>
     on_screen w' = on_screen u @ [n] \<and>
     rest_of w' = rest_of (u\<lparr>console := console u @ [(''error'', [status_line st resp])]\<rparr>) \<and> extends u w'"
  using report_error [OF ok] st
  by (simp add: send_change_def seq_Inr [where m = "call_back run callback st resp", OF cb])

lemma failed_request_reported_witness:
  "\<exists>w' n. send_change (\<lambda>f st resp. ret ()) (js ''/x'') (js ''text/plain'') (js ''PUT'') (Function 2 0) DONE 500 (js ''no'')
      sample_ready = (Inr (), w') \<and> on_screen w' = on_screen sample_ready @ [n]"
  using failed_request_reported [of "\<lambda>f st resp. ret ()" "Function 2 0" 500 "js ''no''" sample_ready sample_ready
      "js ''/x''" "js ''text/plain''" "js ''PUT''"]
  by (auto simp: call_back_def ret_def sample_ready_ok)

text \<open>On an answer 200 the closures of sendData and getData are the same: the call of the
  callback, if there is one.\<close>

lemma successful_request:
  "send_change run path contentType verb callback DONE 200 resp =
     (case callback of NotFunction \<Rightarrow> ret () | Function arity f \<Rightarrow> run f 200 resp) \<and>
   get_change run path verb callback DONE 200 resp =
     (case callback of NotFunction \<Rightarrow> ret () | Function arity f \<Rightarrow> run f 200 resp)"
proof -
  have "seq m (ret ()) = m" for m :: "unit js_prog"
    by (simp add: fun_eq_iff seq_def bnd_def ret_def split: sum.splits prod.splits)
  then show ?thesis by (cases callback) (simp_all add: send_change_def get_change_def call_back_def)
qed

text \<open>What an answer puts into an element for it, when there is one.\<close>

definition filled :: "nat option \<Rightarrow> jstr \<Rightarrow> world \<Rightarrow> world" where
  "filled out s w = (case out of None \<Rightarrow> w | Some a \<Rightarrow> snd (set_content a s w))"

lemma filled_node:
  "a < length (nodes w) \<Longrightarrow>
     node_at (filled out s w) a = (if out = Some a then (node_at w a)\<lparr>content := s\<rparr> else node_at w a)"
  by (cases out) (auto simp: filled_def set_content_def modify_def set_node_def node_at_def nth_list_update)

lemma filled_frame [simp]:
  "length (nodes (filled out s w)) = length (nodes w)" "requests (filled out s w) = requests w"
  "console (filled out s w) = console w" "timers (filled out s w) = timers w" "store (filled out s w) = store w"
  "close_buttons (filled out s w) = close_buttons w"
  by (cases out; simp add: filled_def set_content_def modify_def set_node_def)+

lemma file_change_done:
  "file_change path contentType out code DONE st resp w =
     (let v = filled out resp (filled code (nat_text st) w)
      in if st = 200 then (Inr (), v)
         else (Inl ReferenceError, v\<lparr>console := console w @ [(''error'', [status_line st resp])]\<rparr>))"
  by (cases out; cases code)
    (simp_all add: file_change_def filled_def Let_def seq_def bnd_def ret_def throw_def log_at_step set_content_def
      modify_def set_node_def)

text \<open>C34: Whatever the network reports before, only the end of an upload counts: the status and the
  answer are put into the elements for them, every other element, the timers, the close buttons
  and the storage stay; an answer 200 logs nothing, and any other one logs one line and ends in a
  ReferenceError before its notification.\<close>

theorem upload_answered:
  assumes steps: "net_steps run x w (es @ [e]) w'" and quiet: "\<forall>e \<in> set es. \<not> final e" "final e"
    and change: "on_change (requests w ! x) = Some (OnFile path contentType out code)"
  shows "let r = after_events (es @ [e]) (requests w ! x); failed = (req_status r \<noteq> 200)
     in fst (file_change path contentType out code DONE (req_status r) (req_response r) (set_request x (\<lambda>_. r) w)) =
          (if failed then Inl ReferenceError else Inr ()) \<and>
        (\<forall>a < length (nodes w). node_at w' a =
           (if out = Some a then (node_at w a)\<lparr>content := req_response r\<rparr>
            else if code = Some a then (node_at w a)\<lparr>content := nat_text (req_status r)\<rparr>
            else node_at w a)) \<and>
        console w' = console w @ (if failed then [(''error'', [status_line (req_status r) (req_response r)])] else []) \<and>
        requests w' = (requests w)[x := r] \<and> length (nodes w') = length (nodes w) \<and>
        timers w' = timers w \<and> close_buttons w' = close_buttons w \<and> store w' = store w"
proof -
  define r where "r = after_events (es @ [e]) (requests w ! x)"
  have x: "x < length (requests w)" using steps by (cases es) (auto elim!: net_steps_ConsE simp: net_step_iff)
  have w': "w' = snd (file_change path contentType out code DONE (req_status r) (req_response r) (set_request x (\<lambda>_. r) w))"
    using request_done [OF steps change quiet] by (simp add: change_of_def r_def Let_def)
  have u: "node_at (set_request x (\<lambda>_. r) w) = node_at w" "requests (set_request x (\<lambda>_. r) w) = (requests w)[x := r]"
    using x by (simp_all add: set_request_def node_at_def fun_eq_iff)
  have f: "length (nodes (set_request x (\<lambda>_. r) w)) = length (nodes w)" "console (set_request x (\<lambda>_. r) w) = console w"
    "timers (set_request x (\<lambda>_. r) w) = timers w" "store (set_request x (\<lambda>_. r) w) = store w"
    "close_buttons (set_request x (\<lambda>_. r) w) = close_buttons w"
    by (simp_all add: set_request_def)
  have c: "node_at (v\<lparr>console := c\<rparr>) a = node_at v a" for v c a by (simp add: node_at_def)
  show ?thesis
    unfolding w' file_change_done Let_def
    by (simp add: filled_node u f c flip: r_def)
qed

text \<open>An upload that is too big, with an element for the status.\<close>

definition uploaded :: world where
  "uploaded = sample_page\<lparr>requests :=
     [issued (js ''POST'') (js ''/x'') [] NoBody (OnFile (js ''/x'') (js ''text/plain'') None (Some 4))]\<rparr>"

lemma upload_answered_witness:
  "\<exists>w'. net_steps (\<lambda>f st resp. ret ()) 0 uploaded [Headers 413, Loaded (js ''big'')] w' \<and>
     content (node_at w' 4) = nat_text 413 \<and> length (console w') = 1 \<and> length (nodes w') = 5"
proof -
  let ?run = "\<lambda>(f :: nat) (st :: nat) (resp :: jstr). ret ()" and ?k = "OnFile (js ''/x'') (js ''text/plain'') None (Some 4)"
  let ?es = "[Headers 413, Loaded (js ''big'')]"
  define w' where "w' = foldl (\<lambda>w e. deliver (change_of ?run ?k) 0 e w) uploaded ?es"
  have steps: "net_steps ?run 0 uploaded ?es w'"
    unfolding w'_def foldl.simps
    by (rule net_steps_Cons [OF net_stepI [where k = ?k] net_steps_Cons [OF net_stepI [where k = ?k] net_steps_Nil]])
      (simp_all add: uploaded_def issued_def deliver_def Let_def set_request_def change_of_def file_change_def
        DONE_def ret_def)
  then have s: "net_steps ?run 0 uploaded ([Headers 413] @ [Loaded (js ''big'')]) w'" by simp
  have "on_change (requests uploaded ! 0) = Some ?k" "length (nodes uploaded) = 5" "console uploaded = []"
    "req_status (after_events [Headers 413, Loaded (js ''big'')] (requests uploaded ! 0)) = 413"
    by (simp_all add: uploaded_def issued_def after_events_def sample_page_def)
  then show ?thesis using upload_answered [OF s] steps by (auto simp: Let_def)
qed

end
