(* ===== verification/Accordion.thy ===== *)
theory Accordion
  imports Forms
begin

section \<open>Panels and their remembered status\<close>

text \<open>
  The accordion functions of \<open>utils.js\<close>.  A panel is open when its element has the class
  \<open>in\<close>; the status of every panel of every page is kept in \<open>localStorage\<close>, under
  \<open>accordionStatus\<close>, as the \<open>JSON\<close> text of one object with a property per page and panel.
\<close>

subsection \<open>The code\<close>

definition status_item :: jstr where "status_item = js ''accordionStatus''"

definition getAccordionStatus :: "val js_prog" where
  "getAccordionStatus =
     bnd (get_item status_item) (\<lambda>item.
       json_parse_val (Str (case item of None \<Rightarrow> js ''{}'' | Some s \<Rightarrow> s)))"

text \<open>An object literal, and \<open>target[key] = v\<close> for a key that is no array index: writing to a
  primitive or an array does not show in its text.\<close>

definition new_object :: "(jstr \<times> val) list \<Rightarrow> val js_prog" where
  "new_object ps = (\<lambda>w. (Inr (Ref (length (objs w))), w\<lparr>objs := objs w @ [Obj ps]\<rparr>))"

definition set_member :: "val \<Rightarrow> jstr \<Rightarrow> val \<Rightarrow> unit js_prog" where
  "set_member target key v =
     (case target of
        Undefined \<Rightarrow> throw TypeError
      | Null \<Rightarrow> throw TypeError
      | Ref r \<Rightarrow> (\<lambda>w. case objs w ! r of
          Obj _ \<Rightarrow> put_member r key v w
        | Arr _ \<Rightarrow> (Inr (), w))
      | _ \<Rightarrow> ret ())"

definition panel_key :: "jstr \<Rightarrow> jstr \<Rightarrow> jstr" where
  "panel_key path elementId = path @ js ''.'' @ elementId"

definition setAccordionStatus :: "jstr \<Rightarrow> jstr \<Rightarrow> unit js_prog" where
  "setAccordionStatus elementId status =
     bnd getAccordionStatus (\<lambda>panelStatus.
     bnd (gets pathname) (\<lambda>path.
     bnd (new_object [(js ''elementId'', Str elementId), (js ''status'', Str status), (js ''path'', Str path)]) (\<lambda>entry.
     seq (set_member panelStatus (panel_key path elementId) entry)
    (bnd (json_stringify panelStatus) (\<lambda>text w. set_item status_item (to_string (objs w) text) w)))))"

definition panel_open :: "world \<Rightarrow> nat \<Rightarrow> bool" where
  "panel_open w el \<longleftrightarrow> js ''in'' \<in> set (classes (node_at w el))"

definition toggleAccordion :: "jstr \<Rightarrow> unit js_prog" where
  "toggleAccordion elementId =
     bnd (get_element elementId) (\<lambda>el w.
       if panel_open w el then
         seq (log_at ''log'' [Str (js ''CLOSE '' @ elementId)])
        (seq (modify (set_node el (class_remove (js ''in''))))
             (setAccordionStatus elementId (js ''closed''))) w
       else
         seq (log_at ''log'' [Str (js ''OPEN '' @ elementId)])
        (seq (modify (set_node el (class_add (js ''in''))))
             (setAccordionStatus elementId (js ''open''))) w)"

definition closeAccordion :: "jstr \<Rightarrow> unit js_prog" where
  "closeAccordion elementId =
     bnd (get_element elementId) (\<lambda>el w.
       if panel_open w el then
         seq (log_at ''log'' [Str (js ''CLOSE '' @ elementId)])
        (seq (modify (set_node el (class_remove (js ''in''))))
             (setAccordionStatus elementId (js ''closed''))) w
       else (Inr (), w))"

definition isAccordionOpen :: "jstr \<Rightarrow> bool js_prog" where
  "isAccordionOpen elementId = bnd (get_element elementId) (\<lambda>el. gets (\<lambda>w. panel_open w el))"

definition openAccordion :: "jstr \<Rightarrow> unit js_prog" where
  "openAccordion elementId =
     seq (log_at ''log'' [Str (js ''OPEN '' @ elementId)])
         (bnd (set_timeout (OpenPanel elementId) 250) (\<lambda>_. ret ()))"

text \<open>What the timer of \<open>openAccordion\<close> does.\<close>

definition open_panel :: "jstr \<Rightarrow> unit js_prog" where
  "open_panel elementId =
     bnd (get_element elementId) (\<lambda>el w.
       if \<not> panel_open w el then
         seq (log_at ''log'' [Str (js ''OPEN'')])
        (seq (modify (set_node el (class_add (js ''in''))))
             (setAccordionStatus elementId (js ''open''))) w
       else (Inr (), w))"

subsection \<open>The interface of keyed stores\<close>

locale keyed_store =
  fixes lookup :: "'s \<Rightarrow> 'k \<Rightarrow> 'v option" and update :: "'k \<Rightarrow> 'v \<Rightarrow> 's \<Rightarrow> 's" and invar :: "'s \<Rightarrow> bool"
  assumes lookup_update: "invar s \<Longrightarrow> lookup (update k v s) = (lookup s)(k \<mapsto> v)"
    and invar_update: "invar s \<Longrightarrow> invar (update k v s)"
begin

lemma lookup_same: "invar s \<Longrightarrow> lookup (update k v s) k = Some v"
  and lookup_other: "invar s \<Longrightarrow> k' \<noteq> k \<Longrightarrow> lookup (update k v s) k' = lookup s k'"
  by (simp_all add: lookup_update)

lemma update_twice: "invar s \<Longrightarrow> lookup (update k v (update k u s)) = lookup (update k v s)"
  by (simp add: lookup_update invar_update)

lemma update_commute:
  "invar s \<Longrightarrow> k \<noteq> k' \<Longrightarrow> lookup (update k v (update k' v' s)) = lookup (update k' v' (update k v s))"
  by (simp add: lookup_update invar_update fun_upd_twist)

text \<open>A history of updates is the map of the last value of each key.\<close>

lemma lookup_updates:
  "invar s \<Longrightarrow> invar (foldl (\<lambda>s (k, v). update k v s) s kvs) \<and>
     lookup (foldl (\<lambda>s (k, v). update k v s) s kvs) = lookup s ++ map_of (rev kvs)"
  by (induction kvs arbitrary: s) (auto simp: lookup_update invar_update map_add_upd_left)

end

interpretation props: keyed_store map_of put_prop props_ok
  by unfold_locales simp_all

interpretation local: keyed_store map_of put_item "\<lambda>_. True"
  by unfold_locales (simp_all add: put_item_def update_conv')

subsection \<open>The stored statuses\<close>

text \<open>
  What the storage says: the properties of the object under \<open>accordionStatus\<close>, none when the item
  is missing; no value when the item is not the text of an object.
\<close>

definition status_text :: "world \<Rightarrow> jstr" where
  "status_text w = (case map_of (store w) status_item of None \<Rightarrow> js ''{}'' | Some s \<Rightarrow> s)"

definition statuses :: "world \<Rightarrow> (jstr \<times> json) list option" where
  "statuses w = (case json_parse (status_text w) of Some (JObj ps) \<Rightarrow> Some ps | _ \<Rightarrow> None)"

definition entry_json :: "jstr \<Rightarrow> jstr \<Rightarrow> jstr \<Rightarrow> json" where
  "entry_json i st path =
     JObj [(js ''elementId'', JStr i), (js ''status'', JStr st), (js ''path'', JStr path)]"

definition new_statuses :: "world \<Rightarrow> jstr \<Rightarrow> jstr \<Rightarrow> (jstr \<times> json) list \<Rightarrow> (jstr \<times> json) list" where
  "new_statuses w i st ps = put_prop (panel_key (pathname w) i) (entry_json i st (pathname w)) ps"

text \<open>There is room for a status in the storage.\<close>

definition fits :: "world \<Rightarrow> jstr \<Rightarrow> jstr \<Rightarrow> bool" where
  "fits w i st =
     (case statuses w of None \<Rightarrow> False | Some ps \<Rightarrow>
        stored_size (put_item status_item (json_text (JObj (new_statuses w i st ps))) (store w)) \<le> quota w)"

lemma wf_entry [simp]: "wf_json (entry_json i st path)" "via_text (entry_json i st path) = entry_json i st path"
proof -
  have "\<not> is_index_key (js ''elementId'')" "\<not> is_index_key (js ''status'')" "\<not> is_index_key (js ''path'')"
    by code_simp+
  then show "wf_json (entry_json i st path)" "via_text (entry_json i st path) = entry_json i st path"
    by (simp_all add: entry_json_def props_ok_def key_before_def)
qed

text \<open>A property table and the tree of its values, entry by entry.\<close>

definition denotes :: "heap \<Rightarrow> nat list \<Rightarrow> (jstr \<times> val) list \<Rightarrow> (jstr \<times> json) list \<Rightarrow> bool" where
  "denotes h st qs ps \<longleftrightarrow> list_all2 (\<lambda>(k, v) (k', j). k = k' \<and> tree h st v = Inr (Some j)) qs ps"

lemma denotes_tree: "denotes h st qs ps \<Longrightarrow> tree_props h st qs = Inr ps"
  unfolding denotes_def
proof (induction qs ps rule: list_all2_induct)
  case (Cons p qs q ps)
  then show ?case by (cases p; cases q) auto
qed simp

lemma tree_denotes: "tree_props h st qs = Inr ps \<Longrightarrow> length ps = length qs \<Longrightarrow> denotes h st qs ps"
proof (induction qs arbitrary: ps)
  case (Cons p qs)
  obtain a ys where a: "tree h st (snd p) = Inr a" "tree_props h st qs = Inr ys"
      "ps = (case a of None \<Rightarrow> ys | Some x \<Rightarrow> (fst p, x) # ys)"
    using Cons.prems(1) by (cases "tree h st (snd p)"; cases "tree_props h st qs") auto
  have "length ys \<le> length qs" using a(2)
  proof (induction qs arbitrary: ys)
    case (Cons q qs)
    then show ?case
      by (cases "tree h st (snd q)"; cases "tree_props h st qs") (auto split: option.splits)
  qed simp
  then obtain x where "a = Some x" using a(3) Cons.prems(2) by (cases a) auto
  with a Cons show ?case by (cases p) (auto simp: denotes_def)
qed (simp add: denotes_def)

lemma denotes_keys: "denotes h st qs ps \<Longrightarrow> map fst ps = map fst qs"
  unfolding denotes_def by (induction qs ps rule: list_all2_induct) auto

lemma denotes_put:
  assumes d: "denotes h st qs ps" and v: "tree h st v = Inr (Some j)"
  shows "denotes h st (put_prop k v qs) (put_prop k j ps)"
proof -
  let ?R = "\<lambda>(k, v) (k', j). k = k' \<and> tree h st v = Inr (Some j)"
  have keys: "fst ` set ps = fst ` set qs" using denotes_keys [OF d] by (metis set_map)
  have tw: "list_all2 ?R (takeWhile (\<lambda>(k', _). P k') qs) (takeWhile (\<lambda>(k', _). P k') ps) \<and>
      list_all2 ?R (dropWhile (\<lambda>(k', _). P k') qs) (dropWhile (\<lambda>(k', _). P k') ps)" for P
    using d unfolding denotes_def by (induction qs ps rule: list_all2_induct) auto
  have mp: "list_all2 ?R (map (\<lambda>(k', v'). if k' = k then (k, v) else (k', v')) qs)
      (map (\<lambda>(k', v'). if k' = k then (k, j) else (k', v')) ps)"
    using d v unfolding denotes_def by (induction qs ps rule: list_all2_induct) (auto split: if_splits)
  have ap: "list_all2 ?R (qs @ [(k, v)]) (ps @ [(k, j)])"
    using d v unfolding denotes_def by (intro list_all2_appendI) auto
  show ?thesis
    using tw [of "\<lambda>k'. key_before k' k"] mp ap v keys unfolding denotes_def put_prop_def
    by (auto intro!: list_all2_appendI)
qed

subsection \<open>Setting a status\<close>

lemma statuses_text: "statuses w = Some ps \<longleftrightarrow> json_parse (status_text w) = Some (JObj ps)"
  by (auto simp: statuses_def split: option.splits json.splits)

lemma getAccordionStatus_step:
  "getAccordionStatus w = json_parse_val (Str (status_text w)) w"
  by (simp add: getAccordionStatus_def get_item_def status_text_def)

lemma build_props_length: "build_props ps h = (qs, h') \<Longrightarrow> length qs = length ps"
proof (induction ps arbitrary: h qs h')
  case (Cons p ps)
  then show ?case by (cases p) (auto split: prod.splits)
qed simp

text \<open>The new object, and the world when it is stored.\<close>

definition with_status :: "world \<Rightarrow> jstr \<Rightarrow> jstr \<Rightarrow> (jstr \<times> json) list \<Rightarrow> world" where
  "with_status w i st ps =
     w\<lparr>store := put_item status_item (json_text (JObj (new_statuses w i st ps))) (store w)\<rparr>"

lemma set_status_runs:
  assumes s: "statuses w = Some ps"
  shows "\<exists>new. setAccordionStatus i st w =
    (if fits w i st then (Inr (), (with_status w i st ps)\<lparr>objs := objs w @ new\<rparr>)
     else (Inl (DOMException ''QuotaExceededError''), w\<lparr>objs := objs w @ new\<rparr>))"
proof -
  have p: "json_parse (status_text w) = Some (JObj ps)" using s by (simp add: statuses_text)
  obtain qs h1 where b: "build_props ps (objs w) = (qs, h1)" by fastforce
  obtain n1 where n1: "h1 = objs w @ n1" using build_extends(3) [OF b] by blast
  define r where "r = length h1"
  define k where "k = panel_key (pathname w) i"
  define e where "e = Obj [(js ''elementId'', Str i), (js ''status'', Str st), (js ''path'', Str (pathname w))]"
  define H where "H = h1 @ [Obj (put_prop k (Ref (Suc r)) qs), e]"
  have parse: "getAccordionStatus w = (Inr (Ref r), w\<lparr>objs := h1 @ [Obj qs]\<rparr>)"
    by (simp add: getAccordionStatus_step json_parse_val_def parse_json_text [OF p] b r_def)
  have member: "set_member (Ref r) k (Ref (Suc r)) (w\<lparr>objs := h1 @ [Obj qs, e]\<rparr>) = (Inr (), w\<lparr>objs := H\<rparr>)"
    by (simp add: set_member_def put_member_def modify_def own_props_def r_def H_def nth_append list_update_append)
  have len: "length qs = length ps" using build_props_length [OF b] .
  have "tree_props H [r] qs = Inr ps"
    using tree_build(3) [OF b, of "[r]"] build_grows(3) [OF b] by (simp add: H_def r_def)
  then have "denotes H [r] qs ps" using len by (intro tree_denotes) auto
  moreover have "tree H [r] (Ref (Suc r)) = Inr (Some (entry_json i st (pathname w)))"
    by (simp add: H_def r_def nth_append e_def entry_json_def)
  ultimately have "tree_props H [r] (put_prop k (Ref (Suc r)) qs) = Inr (new_statuses w i st ps)"
    unfolding new_statuses_def k_def by (intro denotes_tree denotes_put)
  then have "tree H [] (Ref r) = Inr (Some (JObj (new_statuses w i st ps)))"
    by (simp add: H_def r_def nth_append)
  then have ser: "json_stringify (Ref r) (w\<lparr>objs := H\<rparr>) =
      (Inr (Str (json_text (JObj (new_statuses w i st ps)))), w\<lparr>objs := H\<rparr>)"
    by (simp add: json_stringify_def stringify_tree)
  have f: "fits w i st \<longleftrightarrow>
      stored_size (put_item status_item (json_text (JObj (new_statuses w i st ps))) (store w)) \<le> quota w"
    by (simp add: fits_def s)
  have alloc: "new_object [(js ''elementId'', Str i), (js ''status'', Str st), (js ''path'', Str (pathname w))]
      (w\<lparr>objs := h1 @ [Obj qs]\<rparr>) = (Inr (Ref (Suc r)), w\<lparr>objs := h1 @ [Obj qs, e]\<rparr>)"
    by (simp add: new_object_def r_def e_def)
  have "setAccordionStatus i st w =
     (if fits w i st then (Inr (), (with_status w i st ps)\<lparr>objs := H\<rparr>)
      else (Inl (DOMException ''QuotaExceededError''), w\<lparr>objs := H\<rparr>))"
    using member ser
    by (simp add: setAccordionStatus_def bnd_Inr seq_Inr parse alloc f set_item_def with_status_def flip: k_def)
  moreover have "H = objs w @ (n1 @ [Obj (put_prop k (Ref (Suc r)) qs), e])" by (simp add: H_def n1)
  ultimately show ?thesis by metis
qed

subsection \<open>The stored text as a keyed store\<close>

text \<open>The entry that a value of the stored object stands for: element id, status and page.\<close>

definition string_prop :: "(jstr \<times> json) list \<Rightarrow> string \<Rightarrow> jstr option" where
  "string_prop qs k = (case map_of qs (js k) of Some (JStr s) \<Rightarrow> Some s | _ \<Rightarrow> None)"

definition entry_of :: "json \<Rightarrow> (jstr \<times> jstr \<times> jstr) option" where
  "entry_of j =
     (case j of
        JObj qs \<Rightarrow>
          (case (string_prop qs ''elementId'', string_prop qs ''status'', string_prop qs ''path'') of
             (Some i, Some st, Some p) \<Rightarrow> Some (i, st, p)
           | _ \<Rightarrow> None)
      | _ \<Rightarrow> None)"

definition text_lookup :: "jstr \<Rightarrow> jstr \<Rightarrow> (jstr \<times> jstr \<times> jstr) option" where
  "text_lookup s k = (case json_parse s of Some (JObj ps) \<Rightarrow> Option.bind (map_of ps k) entry_of | _ \<Rightarrow> None)"

fun text_update :: "jstr \<Rightarrow> jstr \<times> jstr \<times> jstr \<Rightarrow> jstr \<Rightarrow> jstr" where
  "text_update k (i, st, p) s =
     (case json_parse s of Some (JObj ps) \<Rightarrow> json_text (JObj (put_prop k (entry_json i st p) ps)) | _ \<Rightarrow> s)"

definition text_ok :: "jstr \<Rightarrow> bool" where
  "text_ok s \<longleftrightarrow> (case json_parse s of Some (JObj _) \<Rightarrow> True | _ \<Rightarrow> False)"

lemma text_ok_parse: "text_ok s \<longleftrightarrow> (\<exists>ps. json_parse s = Some (JObj ps))"
  by (auto simp: text_ok_def split: option.splits json.splits)

lemma entry_of_entry [simp]: "entry_of (entry_json i st p) = Some (i, st, p)"
  by (simp add: entry_of_def entry_json_def string_prop_def)

lemma map_of_via_text: "map_of (via_text_props ps) k = map_option via_text (map_of ps k)"
  by (induction ps) (auto simp: via_text_props_map)

lemma via_text_JStr [simp]: "via_text j = JStr s \<longleftrightarrow> j = JStr s"
  by (cases j) (auto split: jnum.splits)

lemma string_prop_via_text [simp]: "string_prop (via_text_props qs) k = string_prop qs k"
proof (cases "map_of qs (js k)")
  case (Some y)
  then show ?thesis by (cases y) (auto simp: string_prop_def map_of_via_text split: jnum.splits)
qed (simp add: string_prop_def map_of_via_text)

lemma entry_of_via_text [simp]: "entry_of (via_text j) = entry_of j"
  by (cases j) (auto simp: entry_of_def split: jnum.splits)

lemma bind_via_text [simp]: "Option.bind (map_option via_text x) entry_of = Option.bind x entry_of"
  by (cases x) simp_all

lemma text_update_ok:
  assumes "json_parse s = Some (JObj ps)"
  shows "json_parse (text_update k (i, st, p) s) = Some (JObj (put_prop k (entry_json i st p) (via_text_props ps)))"
proof -
  have "wf_json (JObj ps)" using wf_json_parse [OF assms] .
  then have "wf_json (JObj (put_prop k (entry_json i st p) ps))"
    using put_prop_values [of ps wf_json "entry_json i st p" k] by (simp add: wf_json_props_all)
  then show ?thesis
    using assms put_prop_map [of k via_text "entry_json i st p" ps] by (simp add: via_text_props_map)
qed

interpretation coded: keyed_store text_lookup text_update text_ok
proof
  fix s k :: jstr and v :: "jstr \<times> jstr \<times> jstr" assume "text_ok s"
  then obtain ps where ps: "json_parse s = Some (JObj ps)" by (auto simp: text_ok_parse)
  obtain i st p where v: "v = (i, st, p)" by (cases v)
  note upd = text_update_ok [OF ps, of k i st p]
  have "props_ok ps" using wf_json_parse [OF ps] by simp
  then have "props_ok (via_text_props ps)" using wf_via_text(1) [OF wf_json_parse [OF ps]] by simp
  then show "text_lookup (text_update k v s) = (text_lookup s)(k \<mapsto> v)"
    using upd ps by (simp add: v text_lookup_def fun_eq_iff props.lookup_update map_of_via_text)
  show "text_ok (text_update k v s)" using upd by (auto simp: v text_ok_parse)
qed

declare text_update.simps [simp del]

subsection \<open>Writing a panel\<close>

text \<open>The text that setting a status stores, and the world after the class of a panel changed.\<close>

definition noted :: "world \<Rightarrow> jstr \<Rightarrow> jstr \<Rightarrow> jstr" where
  "noted w i st = text_update (panel_key (pathname w) i) (i, st, pathname w) (status_text w)"

definition room :: "world \<Rightarrow> jstr \<Rightarrow> bool" where
  "room w s \<longleftrightarrow> stored_size (put_item status_item s (store w)) \<le> quota w"

definition marked :: "world \<Rightarrow> nat \<Rightarrow> (node \<Rightarrow> node) \<Rightarrow> val list \<Rightarrow> obj list \<Rightarrow> world" where
  "marked w el f xs new =
     (set_node el f w)\<lparr>console := console w @ [(''log'', xs)], objs := objs w @ new\<rparr>"

definition kept :: "jstr \<Rightarrow> world \<Rightarrow> world" where
  "kept s w = w\<lparr>store := put_item status_item s (store w)\<rparr>"

lemma set_status:
  assumes "text_ok (status_text w)"
  shows "\<exists>new. setAccordionStatus i st w =
    (if room w (noted w i st) then (Inr (), kept (noted w i st) (w\<lparr>objs := objs w @ new\<rparr>))
     else (Inl (DOMException ''QuotaExceededError''), w\<lparr>objs := objs w @ new\<rparr>))"
proof -
  obtain ps where ps: "statuses w = Some ps" using assms by (auto simp: text_ok_parse statuses_text)
  then have ser: "json_text (JObj (new_statuses w i st ps)) = noted w i st"
    by (simp add: noted_def new_statuses_def statuses_text text_update.simps)
  obtain new where "setAccordionStatus i st w =
    (if fits w i st then (Inr (), (with_status w i st ps)\<lparr>objs := objs w @ new\<rparr>)
     else (Inl (DOMException ''QuotaExceededError''), w\<lparr>objs := objs w @ new\<rparr>))"
    using set_status_runs [OF ps, of i st] by blast
  moreover have "(with_status w i st ps)\<lparr>objs := objs w @ new\<rparr> = kept (noted w i st) (w\<lparr>objs := objs w @ new\<rparr>)"
    by (simp add: with_status_def kept_def ser)
  moreover have "fits w i st = room w (noted w i st)" by (simp add: fits_def room_def ps ser)
  ultimately show ?thesis by metis
qed

lemma status_frame [simp]:
  "status_text (set_node el f w) = status_text w" "status_text (w\<lparr>console := c\<rparr>) = status_text w"
  "status_text (w\<lparr>objs := h\<rparr>) = status_text w" "status_text (w\<lparr>timers := ts\<rparr>) = status_text w"
  "noted (set_node el f w) i st = noted w i st" "noted (w\<lparr>console := c\<rparr>) i st = noted w i st"
  "noted (w\<lparr>objs := h\<rparr>) i st = noted w i st" "room (set_node el f w) s = room w s"
  "room (w\<lparr>console := c\<rparr>) s = room w s" "room (w\<lparr>objs := h\<rparr>) s = room w s"
  by (simp_all add: status_text_def noted_def room_def)

lemma status_kept [simp]: "status_text (kept s w) = s"
  by (simp add: status_text_def kept_def local.lookup_update)

lemma kept_frame [simp]:
  "nodes (kept s w) = nodes w" "forest (kept s w) = forest w" "pathname (kept s w) = pathname w"
  "console (kept s w) = console w" "timers (kept s w) = timers w" "quota (kept s w) = quota w"
  "node_at (kept s w) a = node_at w a" "search (kept s w) = search w" "document (kept s w) = document w"
  "map_of (store (kept s w)) k = (if k = status_item then Some s else map_of (store w) k)"
  by (simp_all add: kept_def node_at_def document_def local.lookup_update)

lemma panel_write:
  assumes "text_ok (status_text w)"
  shows "\<exists>new. seq (log_at ''log'' xs) (seq (modify (set_node el f)) (setAccordionStatus i st)) w =
    (if room w (noted w i st) then (Inr (), kept (noted w i st) (marked w el f xs new))
     else (Inl (DOMException ''QuotaExceededError''), marked w el f xs new))"
proof -
  let ?v = "set_node el f (w\<lparr>console := console w @ [(''log'', xs)]\<rparr>)"
  have v: "?v = (set_node el f w)\<lparr>console := console w @ [(''log'', xs)]\<rparr>" by (simp add: set_node_def)
  obtain new where new: "setAccordionStatus i st ?v =
    (if room ?v (noted ?v i st) then (Inr (), kept (noted ?v i st) (?v\<lparr>objs := objs ?v @ new\<rparr>))
     else (Inl (DOMException ''QuotaExceededError''), ?v\<lparr>objs := objs ?v @ new\<rparr>))"
    using set_status [of ?v i st] assms by (auto simp del: set_node_simps(2))
  have m: "?v\<lparr>objs := objs ?v @ new\<rparr> = marked w el f xs new" by (simp add: v marked_def)
  have "seq (log_at ''log'' xs) (seq (modify (set_node el f)) (setAccordionStatus i st)) w = setAccordionStatus i st ?v"
    by (simp add: log_at_def seq_def bnd_def modify_def)
  with new show ?thesis unfolding m by (auto intro: exI [of _ new])
qed

text \<open>The class change of a panel and what is logged with it.\<close>

definition turn :: "bool \<Rightarrow> node \<Rightarrow> node" where
  "turn b = (if b then class_add (js ''in'') else class_remove (js ''in''))"

definition status_word :: "bool \<Rightarrow> jstr" where
  "status_word b = (if b then js ''open'' else js ''closed'')"

definition turned :: "world \<Rightarrow> nat \<Rightarrow> jstr \<Rightarrow> bool \<Rightarrow> val list \<Rightarrow> (exn + unit) \<times> world \<Rightarrow> bool" where
  "turned w el i b xs r \<longleftrightarrow>
     (\<exists>new. r = (if room w (noted w i (status_word b))
                then (Inr (), kept (noted w i (status_word b)) (marked w el (turn b) xs new))
                else (Inl (DOMException ''QuotaExceededError''), marked w el (turn b) xs new)))"

lemma write_turned:
  "text_ok (status_text w) \<Longrightarrow> turned w el i b xs
     (seq (log_at ''log'' xs) (seq (modify (set_node el (turn b))) (setAccordionStatus i (status_word b))) w)"
  unfolding turned_def by (rule panel_write)

lemma toggle_turned:
  assumes "element_by_id w i = Some el" "text_ok (status_text w)"
  shows "turned w el i (\<not> panel_open w el)
    [Str (if panel_open w el then js ''CLOSE '' @ i else js ''OPEN '' @ i)] (toggleAccordion i w)"
  using write_turned [OF assms(2), of el i "\<not> panel_open w el"]
  by (cases "panel_open w el") (simp_all add: toggleAccordion_def bnd_Inr turn_def status_word_def
      get_element_Some [OF assms(1)] del: seq_modify)

lemma close_turned:
  assumes "element_by_id w i = Some el" "text_ok (status_text w)" "panel_open w el"
  shows "turned w el i False [Str (js ''CLOSE '' @ i)] (closeAccordion i w)"
  using write_turned [OF assms(2), of el i False] assms(3)
  by (simp add: closeAccordion_def bnd_Inr turn_def status_word_def
      get_element_Some [OF assms(1)] del: seq_modify)

lemma open_turned:
  assumes "element_by_id w i = Some el" "text_ok (status_text w)" "\<not> panel_open w el"
  shows "turned w el i True [Str (js ''OPEN'')] (open_panel i w)"
  using write_turned [OF assms(2), of el i True] assms(3)
  by (simp add: open_panel_def bnd_Inr turn_def status_word_def
      get_element_Some [OF assms(1)] del: seq_modify)

lemma turn_classes: "js ''in'' \<in> set (classes (turn b n)) \<longleftrightarrow> b" "ident (turn b n) = ident n"
  by (auto simp: turn_def class_add_def class_remove_def)

definition recorded :: "world \<Rightarrow> jstr \<Rightarrow> (jstr \<times> jstr \<times> jstr) option" where
  "recorded w i = text_lookup (status_text w) (panel_key (pathname w) i)"

lemma panel_key_inj [simp]: "panel_key p i = panel_key p j \<longleftrightarrow> i = j"
  by (simp add: panel_key_def)

lemma turned_effect:
  assumes t: "turned w el i b xs r" and tree: "tree_ok w" and el: "element_by_id w i = Some el"
    and ok: "text_ok (status_text w)"
  shows "panel_open (snd r) el = b"
    and "a \<noteq> el \<Longrightarrow> node_at (snd r) a = node_at w a"
    and "element_by_id (snd r) j = element_by_id w j"
    and "tree_ok (snd r)" "text_ok (status_text (snd r))" "pathname (snd r) = pathname w"
    and "fst r = Inr () \<Longrightarrow> recorded (snd r) = (recorded w)(i \<mapsto> (i, status_word b, pathname w))"
    and "k \<noteq> status_item \<Longrightarrow> map_of (store (snd r)) k = map_of (store w) k"
    and "fst r \<noteq> Inr () \<Longrightarrow> fst r = Inl (DOMException ''QuotaExceededError'') \<and> recorded (snd r) = recorded w"
proof -
  have lt: "el < length (nodes w)" using element_by_id_lt [OF tree el] .
  obtain new where r: "r = (if room w (noted w i (status_word b))
      then (Inr (), kept (noted w i (status_word b)) (marked w el (turn b) xs new))
      else (Inl (DOMException ''QuotaExceededError''), marked w el (turn b) xs new))"
    using t unfolding turned_def by blast
  have m: "nodes (snd r) = nodes (set_node el (turn b) w)" "forest (snd r) = forest w"
      "pathname (snd r) = pathname w"
    by (simp_all add: r marked_def)
  then have n: "node_at (snd r) a = node_at (set_node el (turn b) w) a" for a by (simp add: node_at_def)
  show "panel_open (snd r) el = b" "a \<noteq> el \<Longrightarrow> node_at (snd r) a = node_at w a"
    using lt by (auto simp: panel_open_def n turn_classes)
  show "element_by_id (snd r) j = element_by_id w j"
    by (rule element_by_id_cong) (auto simp: n m node_at_set_node turn_classes)
  show "tree_ok (snd r)" using tree by (simp add: tree_ok_def m)
  have up: "text_ok (noted w i (status_word b))"
    using ok by (simp add: noted_def coded.invar_update)
  have st: "status_text (snd r) = (if fst r = Inr () then noted w i (status_word b) else status_text w)"
    by (simp add: r marked_def)
  show "text_ok (status_text (snd r))" using ok up by (simp add: st)
  show "pathname (snd r) = pathname w" by (rule m)
  show "recorded (snd r) = (recorded w)(i \<mapsto> (i, status_word b, pathname w))" if "fst r = Inr ()"
    using that ok by (simp add: recorded_def st m noted_def coded.lookup_update fun_eq_iff)
  show "map_of (store (snd r)) k = map_of (store w) k" if "k \<noteq> status_item"
    using that by (simp add: r marked_def)
  show "fst r = Inl (DOMException ''QuotaExceededError'') \<and> recorded (snd r) = recorded w" if "fst r \<noteq> Inr ()"
    using that by (simp add: r marked_def recorded_def fun_eq_iff split: if_splits)
qed


subsection \<open>Properties\<close>

lemma sample_status: "status_text sample_page = js ''{}''" "json_parse (js ''{}'') = Some (JObj [])"
  "pathname sample_page = js ''/a''" "store sample_page = []" "quota sample_page = 5000000"
  "panel_open sample_page 4 = False"
proof -
  show "json_parse (js ''{}'') = Some (JObj [])" by code_simp
qed (simp_all add: status_text_def sample_page_def panel_open_def node_at_def blank_def)

text \<open>A text of \<open>n\<close> units is quoted in at most \<open>6 * n + 2\<close> units.\<close>

lemma length_quote_unit: "length (quote_unit c) \<le> 6" "length (escape_unit c) = 6"
  by (simp_all add: quote_unit_def escape_unit_def)

lemma length_quote_units: "length (quote_units s) \<le> 6 * length s"
proof (induction s rule: quote_units.induct)
  case (3 c d cs)
  then show ?case using length_quote_unit(1) [of c] by (auto simp: length_quote_unit(2))
qed (auto simp: length_quote_unit)

lemma length_quote: "length (quote_string s) \<le> 6 * length s + 2"
  using length_quote_units [of s] by (simp add: quote_string_def)

lemma first_status_length:
  assumes "store w = []"
  shows "length (noted w i st) \<le> 12 * length (pathname w) + 12 * length i + 6 * length st + 144"
proof -
  have "length (noted w i st) =
      length (quote_string (panel_key (pathname w) i)) + length (quote_string (js ''elementId'')) +
      length (quote_string i) + length (quote_string (js ''status'')) + length (quote_string st) +
      length (quote_string (js ''path'')) + length (quote_string (pathname w)) + 10"
    by (simp add: noted_def assms status_text_def sample_status(2) text_update.simps put_prop_def
        json_text_def entry_json_def wrap_def)
  moreover have "length (quote_string (js t)) \<le> 6 * length t + 2" for t
    using length_quote [of "js t"] by simp
  from this [of "''elementId''"] this [of "''status''"] this [of "''path''"]
  have "length (quote_string (js ''elementId'')) + length (quote_string (js ''status'')) +
      length (quote_string (js ''path'')) \<le> 120" by simp
  ultimately show ?thesis
    using length_quote [of "panel_key (pathname w) i"] length_quote [of i] length_quote [of st]
      length_quote [of "pathname w"] by (simp add: panel_key_def)
qed

lemma room_empty: "store w = [] \<Longrightarrow> room w s \<longleftrightarrow> 15 + length s \<le> quota w"
  by (simp add: room_def stored_size_def put_item_def status_item_def numeral_eq_Suc)

lemma status_word_length: "length (status_word b) \<le> 6"
  by (simp add: status_word_def)

lemma room_first:
  assumes "store w = []" "12 * length (pathname w) + 12 * length i + 200 \<le> quota w"
  shows "room w (noted w i (status_word b))"
  using first_status_length [OF assms(1), of i "status_word b"] status_word_length [of b] assms(2)
  unfolding room_empty [OF assms(1)] by linarith

lemma sample_room: "room sample_page (noted sample_page (js ''p'') (status_word b))"
  by (rule room_first) (simp_all add: sample_status)

text \<open>C27: On an empty storage a toggle never exceeds a quota of 12 times the lengths of the path and
  the id plus 200 units: it returns and records the status.\<close>

theorem first_status_fits:
  assumes tree: "tree_ok w" and el: "element_by_id w i = Some el" and empty: "store w = []"
    and quota: "12 * length (pathname w) + 12 * length i + 200 \<le> quota w"
  shows "\<exists>w'. toggleAccordion i w = (Inr (), w') \<and>
     recorded w' i = Some (i, status_word (\<not> panel_open w el), pathname w) \<and> stored_size (store w') \<le> quota w"
proof -
  have ok: "text_ok (status_text w)" by (simp add: status_text_def empty sample_status(2) text_ok_parse)
  note t = toggle_turned [OF el ok]
  note eff = turned_effect [OF t tree el ok]
  obtain w' where w': "toggleAccordion i w = (Inr (), w')" "stored_size (store w') \<le> quota w"
    using t room_first [OF empty quota] unfolding turned_def by (force simp: room_def kept_def marked_def)
  with eff(7) show ?thesis by (intro exI [of _ w']) simp
qed

lemma first_status_fits_witness:
  "\<exists>w'. toggleAccordion (js ''p'') sample_page = (Inr (), w') \<and>
     recorded w' (js ''p'') = Some (js ''p'', js ''open'', js ''/a'') \<and> stored_size (store w') \<le> 5000000"
  using first_status_fits [OF sample_tree sample_ids(3)] by (simp add: sample_status status_word_def)

text \<open>C14: With room in the storage and a stored text that is the text of an object, toggleAccordion
  flips the panel, records the new status under the page and id, leaves every other recorded
  status, every other node and every other item of the storage as it was.\<close>

theorem toggle_panel:
  assumes tree: "tree_ok w" and el: "element_by_id w i = Some el" and ok: "text_ok (status_text w)"
    and room: "room w (noted w i (status_word (\<not> panel_open w el)))"
  shows "\<exists>w'. toggleAccordion i w = (Inr (), w') \<and> panel_open w' el = (\<not> panel_open w el) \<and>
     recorded w' = (recorded w)(i \<mapsto> (i, status_word (\<not> panel_open w el), pathname w)) \<and>
     (\<forall>a. a \<noteq> el \<longrightarrow> node_at w' a = node_at w a) \<and>
     (\<forall>k. k \<noteq> status_item \<longrightarrow> map_of (store w') k = map_of (store w) k)"
proof -
  note t = toggle_turned [OF el ok]
  note eff = turned_effect [OF t tree el ok]
  have "fst (toggleAccordion i w) = Inr ()" using t room by (auto simp: turned_def)
  with eff show ?thesis by (cases "toggleAccordion i w") auto
qed

lemma toggle_panel_witness:
  "\<exists>w'. toggleAccordion (js ''p'') sample_page = (Inr (), w') \<and> panel_open w' 4 \<and>
     recorded w' = (recorded sample_page)(js ''p'' \<mapsto> (js ''p'', js ''open'', js ''/a''))"
  using toggle_panel [of sample_page "js ''p''" 4] sample_tree sample_ids(3) sample_room [of True]
  by (auto simp: sample_status text_ok_parse status_word_def)

text \<open>After n toggles that all return, the panel is in its old state when n is even and in the other
  one when n is odd, and the recorded status says so.\<close>

lemma toggle_parity:
  assumes tree: "tree_ok w" and el: "element_by_id w i = Some el" and ok: "text_ok (status_text w)"
    and runs: "for_each (replicate n ()) (\<lambda>_. toggleAccordion i) w = (Inr (), w')"
  shows "panel_open w' el = (panel_open w el = even n) \<and>
     recorded w' i = (if n = 0 then recorded w i else Some (i, status_word (panel_open w' el), pathname w))"
  using assms
proof (induction n arbitrary: w)
  case 0
  then show ?case by (simp add: ret_def)
next
  case (Suc n)
  note t = toggle_turned [OF Suc.prems(2,3)]
  note eff = turned_effect [OF t Suc.prems(1,2,3)]
  obtain u where u: "toggleAccordion i w = (Inr (), u)"
      "for_each (replicate n ()) (\<lambda>_. toggleAccordion i) u = (Inr (), w')"
    using Suc.prems(4) by (auto simp: seq_def bnd_def split: prod.splits sum.splits)
  with eff Suc.prems(2) Suc.IH [of u] show ?case by (cases n) (auto simp: ret_def)
qed

lemma sample_first: "\<exists>w'. for_each (replicate 1 ()) (\<lambda>_. toggleAccordion (js ''p'')) sample_page = (Inr (), w')"
proof -
  have "text_ok (status_text sample_page)" by (simp add: sample_status text_ok_parse)
  from toggle_turned [OF sample_ids(3) this] sample_room [of True]
  show ?thesis by (auto simp: turned_def sample_status seq_def bnd_def ret_def)
qed

lemma toggle_parity_witness:
  "\<exists>w'. for_each (replicate 1 ()) (\<lambda>_. toggleAccordion (js ''p'')) sample_page = (Inr (), w') \<and>
     panel_open w' 4 \<and> recorded w' (js ''p'') = Some (js ''p'', js ''open'', js ''/a'')"
proof -
  obtain w' where r: "for_each (replicate 1 ()) (\<lambda>_. toggleAccordion (js ''p'')) sample_page = (Inr (), w')"
    using sample_first by blast
  have "text_ok (status_text sample_page)" by (simp add: sample_status text_ok_parse)
  from toggle_parity [OF sample_tree sample_ids(3) this r] show ?thesis
    using r by (intro exI [of _ w']) (simp add: sample_status status_word_def)
qed

text \<open>The panels of the page show what the storage says about them.\<close>

definition in_step :: "world \<Rightarrow> bool" where
  "in_step w \<longleftrightarrow> (\<forall>i el j st p. element_by_id w i = Some el \<longrightarrow> recorded w i = Some (j, st, p) \<longrightarrow>
     (panel_open w el \<longleftrightarrow> st = js ''open''))"

datatype panel_op = Toggle jstr | Close jstr | Reopen jstr

fun run_panel :: "panel_op \<Rightarrow> unit js_prog" where
  "run_panel (Toggle i) = toggleAccordion i"
| "run_panel (Close i) = closeAccordion i"
| "run_panel (Reopen i) = open_panel i"

inductive panel_steps :: "world \<Rightarrow> world \<Rightarrow> bool" for w where
  start: "panel_steps w w"
| step: "panel_steps w u \<Longrightarrow> run_panel op u = (r, v) \<Longrightarrow> r \<noteq> Inl (DOMException ''QuotaExceededError'') \<Longrightarrow>
    panel_steps w v"

lemma status_word_open [simp]: "status_word b = js ''open'' \<longleftrightarrow> b"
  by (simp add: status_word_def)

lemma element_by_id_inj: "element_by_id w i = Some a \<Longrightarrow> element_by_id w j = Some a \<Longrightarrow> i = j"
  by (metis element_by_id_props)

lemma turned_in_step:
  assumes t: "turned w el i b xs r" and tree: "tree_ok w" and el: "element_by_id w i = Some el"
    and ok: "text_ok (status_text w)" and sync: "in_step w" and r: "fst r = Inr ()"
  shows "in_step (snd r)"
proof -
  note eff = turned_effect [OF t tree el ok]
  have "panel_open (snd r) a \<longleftrightarrow> st = js ''open''"
    if a: "element_by_id (snd r) j = Some a" and rec: "recorded (snd r) j = Some (k, st, p)" for j a k st p
  proof (cases "j = i")
    case True
    then show ?thesis using a rec eff(1,3,7) r el by auto
  next
    case False
    then have "a \<noteq> el" using a eff(3) el element_by_id_inj by metis
    then have "panel_open (snd r) a = panel_open w a" using eff(2) by (simp add: panel_open_def)
    then show ?thesis using False a rec eff(3,7) r sync by (auto simp: in_step_def)
  qed
  then show ?thesis unfolding in_step_def by blast
qed

definition panels_ok :: "world \<Rightarrow> bool" where
  "panels_ok w \<longleftrightarrow> tree_ok w \<and> text_ok (status_text w) \<and> in_step w"

lemma run_panel_cases:
  assumes ok: "text_ok (status_text w)"
  shows "snd (run_panel op w) = w \<or>
    (\<exists>el i b xs. element_by_id w i = Some el \<and> turned w el i b xs (run_panel op w))"
proof -
  define i where "i = (case op of Toggle i \<Rightarrow> i | Close i \<Rightarrow> i | Reopen i \<Rightarrow> i)"
  show ?thesis
  proof (cases "element_by_id w i")
    case None
    then show ?thesis
      by (cases op) (simp_all add: i_def toggleAccordion_def closeAccordion_def open_panel_def
        bnd_Inl get_element_None)
  next
    case (Some el)
    then show ?thesis
      using toggle_turned [OF Some ok] close_turned [OF Some ok] open_turned [OF Some ok] get_element_Some [OF Some]
      by (cases op; cases "panel_open w el")
        (fastforce simp: i_def closeAccordion_def open_panel_def bnd_Inr)+
  qed
qed

lemma panel_op_ok:
  assumes "panels_ok w" "run_panel op w = (r, v)" "r \<noteq> Inl (DOMException ''QuotaExceededError'')"
  shows "panels_ok v"
proof -
  have ok: "tree_ok w" "text_ok (status_text w)" "in_step w" using assms(1) by (simp_all add: panels_ok_def)
  have sr: "snd (run_panel op w) = v" "fst (run_panel op w) = r" using assms(2) by simp_all
  show ?thesis
  proof (cases "v = w")
    case False
    then obtain el i b xs where t: "element_by_id w i = Some el" "turned w el i b xs (run_panel op w)"
      using run_panel_cases [OF ok(2), of op] sr by auto
    note eff = turned_effect [OF t(2) ok(1) t(1) ok(2)]
    have "fst (run_panel op w) = Inr ()" using eff(9) assms(3) sr by auto
    with turned_in_step [OF t(2) ok(1) t(1) ok(2,3)] eff(4,5) sr show ?thesis by (simp add: panels_ok_def)
  qed (use assms(1) in simp)
qed

text \<open>C5: Through every sequence of toggles, closings and timed openings of panels, as long as none
  ends in a QuotaExceededError, the stored text stays that of an object and every panel of the
  page shows what the storage says about it.\<close>

theorem panels_invariant:
  assumes "panel_steps w v" "panels_ok w"
  shows "panels_ok v"
  using assms by induction (auto intro: panel_op_ok)

lemma panels_invariant_witness:
  "\<exists>v. panel_steps sample_page v \<and> panel_open v 4 \<and> panels_ok v"
proof -
  have ok: "text_ok (status_text sample_page)" by (simp add: sample_status text_ok_parse)
  have "recorded sample_page i = None" for i
    by (simp add: recorded_def sample_status text_lookup_def)
  then have p: "panels_ok sample_page" using ok sample_tree by (simp add: panels_ok_def in_step_def)
  obtain v where v: "toggleAccordion (js ''p'') sample_page = (Inr (), v)" "panel_open v 4"
    using toggle_turned [OF sample_ids(3) ok] turned_effect(1) [OF toggle_turned sample_tree sample_ids(3) ok]
      sample_ids(3) ok sample_room [of True]
    by (auto simp: turned_def sample_status)
  then have "panel_steps sample_page v"
    using panel_steps.step [OF panel_steps.start, where op = "Toggle (js ''p'')" and r = "Inr ()"] by simp
  with panels_invariant [OF this p] v show ?thesis by blast
qed

text \<open>C28: When the stored text is the text of an object but the storage has no room for the new one,
  the toggle throws QuotaExceededError after the class has changed: the panel has flipped but the
  recorded status has not.\<close>

theorem quota_breaks_step:
  assumes tree: "tree_ok w" and el: "element_by_id w i = Some el" and ok: "text_ok (status_text w)"
    and full: "\<not> room w (noted w i (status_word (\<not> panel_open w el)))"
  shows "\<exists>w'. toggleAccordion i w = (Inl (DOMException ''QuotaExceededError''), w') \<and>
     panel_open w' el = (\<not> panel_open w el) \<and> recorded w' = recorded w \<and> store w' = store w"
proof -
  note t = toggle_turned [OF el ok]
  note eff = turned_effect [OF t tree el ok]
  obtain w' where new: "toggleAccordion i w = (Inl (DOMException ''QuotaExceededError''), w')" "store w' = store w"
    using t full unfolding turned_def if_not_P [OF full] by (force simp: marked_def)
  show ?thesis using eff(1,9) unfolding new(1) by (intro exI [of _ w']) (simp add: new(2))
qed

definition full_page :: world where
  "full_page = sample_page\<lparr>quota := 10\<rparr>"

lemma quota_breaks_step_witness:
  "\<exists>w'. toggleAccordion (js ''p'') full_page = (Inl (DOMException ''QuotaExceededError''), w') \<and>
     panel_open w' 4 \<and> recorded w' = recorded full_page"
proof -
  have f: "status_text full_page = js ''{}''" "element_by_id full_page (js ''p'') = Some 4"
    "\<not> panel_open full_page 4" by code_simp+
  have t: "tree_ok full_page" using sample_tree by (simp add: tree_ok_def full_page_def)
  have "text_ok (status_text full_page)" by (simp add: f sample_status text_ok_parse)
  moreover have "\<not> room full_page (noted full_page (js ''p'') (status_word (\<not> panel_open full_page 4)))"
    using room_empty [of full_page] by (simp add: full_page_def sample_page_def)
  ultimately show ?thesis using quota_breaks_step [OF t f(2)] f(3) by blast
qed

text \<open>C29: When the stored text is no JSON, or null, toggleAccordion throws SyntaxError, or TypeError,
  after the class has changed, and the storage stays corrupted.\<close>

theorem corrupted_status:
  assumes tree: "tree_ok w" and el: "element_by_id w i = Some el"
    and bad: "json_parse (status_text w) = None \<or> json_parse (status_text w) = Some JNull"
  shows "\<exists>w'. toggleAccordion i w =
       (Inl (if json_parse (status_text w) = None then SyntaxError else TypeError), w') \<and>
     panel_open w' el = (\<not> panel_open w el) \<and> store w' = store w"
proof -
  have s: "setAccordionStatus i st v = (Inl (if json_parse (status_text w) = None then SyntaxError else TypeError),
      if json_parse (status_text w) = None then v else
        snd (new_object [(js ''elementId'', Str i), (js ''status'', Str st), (js ''path'', Str (pathname v))] v))"
    if "status_text v = status_text w" for v st
    using bad that by (auto simp: setAccordionStatus_def getAccordionStatus_step json_parse_val_def
      parse_json_def bnd_def seq_def new_object_def set_member_def throw_def gets_def)
  have lt: "el < length (nodes w)" using element_by_id_lt [OF tree el] .
  show ?thesis
    using lt by (simp add: toggleAccordion_def bnd_Inr get_element_Some [OF el] log_at_def seq_Inr s
      panel_open_def new_object_def modify_def class_add_def class_remove_def)
qed

definition corrupted_page :: world where
  "corrupted_page = sample_page\<lparr>store := [(status_item, js ''{a'')]\<rparr>"

lemma corrupted_status_witness:
  "\<exists>w'. toggleAccordion (js ''p'') corrupted_page = (Inl SyntaxError, w') \<and> panel_open w' 4 \<and>
     store w' = store corrupted_page"
proof -
  have f: "json_parse (status_text corrupted_page) = None" "element_by_id corrupted_page (js ''p'') = Some 4"
    "\<not> panel_open corrupted_page 4" by code_simp+
  have "tree_ok corrupted_page" using sample_tree by (simp add: tree_ok_def corrupted_page_def)
  from corrupted_status [OF this f(2)] f show ?thesis by auto
qed

text \<open>C33: The keys of two panels whose ids have no dot are equal only for the same page and the same
  id; with a dot in an id two pages can share a key (the witness has both).\<close>

theorem panel_key_unique:
  assumes "46 \<notin> set i" "46 \<notin> set j" "panel_key p i = panel_key q j"
  shows "p = q \<and> i = j"
proof -
  have "rev i @ 46 # rev p = rev j @ 46 # rev q"
    using arg_cong [OF assms(3), of rev] by (simp add: panel_key_def js_def)
  moreover have c: "takeWhile (\<lambda>c. c \<noteq> 46) (rev xs @ 46 # ys) = rev xs" if "46 \<notin> set xs" for xs ys :: jstr
  proof -
    have "\<forall>x \<in> set xs. x \<noteq> 46" using that by auto
    then show ?thesis by (simp add: takeWhile_append)
  qed
  ultimately have "rev i = rev j" using c [OF assms(1)] c [OF assms(2)] by metis
  then show ?thesis using assms(3) by (simp add: panel_key_def)
qed

lemma panel_key_unique_witness:
  "46 \<notin> set (js ''p'') \<and> panel_key (js ''/a'') (js ''p'') = panel_key (js ''/a'') (js ''p'') \<and>
   js ''/a'' = js ''/a'' \<and> js ''p'' = js ''p'' \<and>
   panel_key (js ''/a'') (js ''b.p'') = panel_key (js ''/a.b'') (js ''p'')"
proof -
  have "46 \<notin> set (js ''p'')" by code_simp
  moreover have "panel_key (js ''/a'') (js ''b.p'') = panel_key (js ''/a.b'') (js ''p'')" by code_simp
  ultimately show ?thesis
    using panel_key_unique [of "js ''p''" "js ''p''" "js ''/a''" "js ''/a''"] by simp
qed

end
