(* ===== verification/Params.thy ===== *)
theory Params
  imports Browser
begin

section \<open>The parameters of the address\<close>

text \<open>
  \<open>utils.js\<close>, \<open>async_file_send\<close> and \<open>loadPanels\<close> read \<open>window.location.search\<close> through a proxy of
  \<open>URLSearchParams\<close>.  The parser follows the \<open>URL\<close> standard: the query is split at \<open>&\<close> and \<open>=\<close>,
  \<open>+\<close> is a blank, escapes are bytes and the bytes are decoded as \<open>UTF-8\<close>, wrong sequences giving
  the replacement character.
\<close>

subsection \<open>Characters and code units\<close>

text \<open>The scalar values of a string, lone surrogates replaced, and back.\<close>

fun scalars :: "jstr \<Rightarrow> nat list" where
  "scalars [] = []"
| "scalars [c] = [if is_high c \<or> is_low c then 0xFFFD else unat c]"
| "scalars (c # d # s) =
     (if is_high c \<and> is_low d
      then (0x10000 + (unat c - 0xD800) * 1024 + (unat d - 0xDC00)) # scalars s
      else (if is_high c \<or> is_low c then 0xFFFD else unat c) # scalars (d # s))"

definition units_of_scalar :: "nat \<Rightarrow> jstr" where
  "units_of_scalar n =
     (if n < 0x10000 then [of_nat n]
      else [of_nat (0xD800 + (n - 0x10000) div 1024), of_nat (0xDC00 + (n - 0x10000) mod 1024)])"

definition units_of :: "nat list \<Rightarrow> jstr" where
  "units_of ns = concat (map units_of_scalar ns)"

subsection \<open>\<open>UTF-8\<close>\<close>

definition utf8_bytes :: "nat \<Rightarrow> nat list" where
  "utf8_bytes n =
     (if n < 0x80 then [n]
      else if n < 0x800 then [0xC0 + n div 64, 0x80 + n mod 64]
      else if n < 0x10000 then [0xE0 + n div 4096, 0x80 + n div 64 mod 64, 0x80 + n mod 64]
      else [0xF0 + n div 262144, 0x80 + n div 4096 mod 64, 0x80 + n div 64 mod 64, 0x80 + n mod 64])"

definition utf8_encode :: "nat list \<Rightarrow> nat list" where
  "utf8_encode ns = concat (map utf8_bytes ns)"

text \<open>A lead byte gives the number of bytes to come, the range of the next one, and its bits.\<close>

definition utf8_lead :: "nat \<Rightarrow> (nat \<times> nat \<times> nat \<times> nat) option" where
  "utf8_lead b =
     (if b < 0x80 then Some (0, 0, 0, b)
      else if 0xC2 \<le> b \<and> b \<le> 0xDF then Some (1, 0x80, 0xBF, b - 0xC0)
      else if 0xE0 \<le> b \<and> b \<le> 0xEF
      then Some (2, if b = 0xE0 then 0xA0 else 0x80, if b = 0xED then 0x9F else 0xBF, b - 0xE0)
      else if 0xF0 \<le> b \<and> b \<le> 0xF4
      then Some (3, if b = 0xF0 then 0x90 else 0x80, if b = 0xF4 then 0x8F else 0xBF, b - 0xF0)
      else None)"

fun utf8_rest :: "nat \<Rightarrow> nat \<Rightarrow> nat \<Rightarrow> nat \<Rightarrow> nat list \<Rightarrow> nat \<times> nat list" where
  "utf8_rest k lo hi n [] = (if k = 0 then n else 0xFFFD, [])"
| "utf8_rest k lo hi n (b # bs) =
     (if k = 0 then (n, b # bs)
      else if lo \<le> b \<and> b \<le> hi then utf8_rest (k - 1) 0x80 0xBF (n * 64 + (b - 0x80)) bs
      else (0xFFFD, b # bs))"

lemma utf8_rest_0 [simp]: "utf8_rest 0 lo hi n bs = (n, bs)"
  by (cases bs) simp_all

lemma utf8_rest_length: "length (snd (utf8_rest k lo hi n bs)) \<le> length bs"
  by (induction k lo hi n bs rule: utf8_rest.induct) auto

function utf8_decode :: "nat list \<Rightarrow> nat list" where
  "utf8_decode [] = []"
| "utf8_decode (b # bs) =
     (case utf8_lead b of
        None \<Rightarrow> 0xFFFD # utf8_decode bs
      | Some (k, lo, hi, n) \<Rightarrow>
          fst (utf8_rest k lo hi n bs) # utf8_decode (snd (utf8_rest k lo hi n bs)))"
  by pat_completeness auto
termination
  by (relation "measure length") (auto simp: less_Suc_eq_le utf8_rest_length simp del: utf8_rest.simps)

subsection \<open>Escapes and pairs\<close>

definition hex_byte :: "nat \<Rightarrow> nat option" where
  "hex_byte b = (if b < 128 then hex_value (of_nat b) else None)"

fun percent_decode :: "nat list \<Rightarrow> nat list" where
  "percent_decode (b # c # d # bs) =
     (if b = 37
      then case (hex_byte c, hex_byte d) of
             (Some x, Some y) \<Rightarrow> (16 * x + y) # percent_decode bs
           | _ \<Rightarrow> b # percent_decode (c # d # bs)
      else b # percent_decode (c # d # bs))"
| "percent_decode bs = bs"

fun split_at :: "'a \<Rightarrow> 'a list \<Rightarrow> 'a list list" where
  "split_at x [] = [[]]"
| "split_at x (y # ys) =
     (if y = x then [] # split_at x ys
      else case split_at x ys of [] \<Rightarrow> [[y]] | zs # zss \<Rightarrow> (y # zs) # zss)"

definition form_decode :: "nat list \<Rightarrow> jstr" where
  "form_decode bs = units_of (utf8_decode (percent_decode (map (\<lambda>b. if b = 43 then 32 else b) bs)))"

definition form_pair :: "nat list \<Rightarrow> jstr \<times> jstr" where
  "form_pair part =
     (form_decode (takeWhile (\<lambda>b. b \<noteq> 61) part), form_decode (tl (dropWhile (\<lambda>b. b \<noteq> 61) part)))"

definition search_params :: "jstr \<Rightarrow> (jstr \<times> jstr) list" where
  "search_params s =
     (let query = (case s of [] \<Rightarrow> [] | c # t \<Rightarrow> if c = 63 then t else s)
      in map form_pair (filter (\<lambda>part. part \<noteq> []) (split_at 38 (utf8_encode (scalars query)))))"

text \<open>
  A property of the proxy: the first value with that name, or \<open>null\<close>.
\<close>

definition get_param :: "jstr \<Rightarrow> jstr \<Rightarrow> jstr option" where
  "get_param s name = map_of (search_params s) name"

lemma no_params [simp]: "get_param [] k = None"
  by (simp add: get_param_def search_params_def utf8_encode_def)

subsection \<open>The interface of encodings\<close>

locale codec =
  fixes enc :: "'a \<Rightarrow> 'b" and dec :: "'b \<Rightarrow> 'a" and valid :: "'a \<Rightarrow> bool"
  assumes dec_enc: "valid x \<Longrightarrow> dec (enc x) = x"
begin

lemma enc_inj: "valid x \<Longrightarrow> valid y \<Longrightarrow> enc x = enc y \<Longrightarrow> x = y"
  by (metis dec_enc)

end

locale two_codecs = first: codec enc1 dec1 valid1 + second: codec enc2 dec2 valid2
  for enc1 :: "'a \<Rightarrow> 'b" and dec1 valid1 and enc2 :: "'b \<Rightarrow> 'c" and dec2 valid2 +
  assumes valid_enc: "valid1 x \<Longrightarrow> valid2 (enc1 x)"

sublocale two_codecs \<subseteq> both: codec "\<lambda>x. enc2 (enc1 x)" "\<lambda>y. dec1 (dec2 y)" valid1
  by unfold_locales (simp add: second.dec_enc valid_enc first.dec_enc)

subsection \<open>Strings without lone surrogates\<close>

fun paired :: "jstr \<Rightarrow> bool" where
  "paired [] \<longleftrightarrow> True"
| "paired [c] \<longleftrightarrow> \<not> is_high c \<and> \<not> is_low c"
| "paired (c # d # s) \<longleftrightarrow>
     (if is_high c then is_low d \<and> paired s else \<not> is_low c \<and> paired (d # s))"

definition scalar_ok :: "nat \<Rightarrow> bool" where
  "scalar_ok n \<longleftrightarrow> n < 0x110000 \<and> \<not> (0xD800 \<le> n \<and> n \<le> 0xDFFF)"

lemma unat_high: "is_high c \<longleftrightarrow> 0xD800 \<le> unat c \<and> unat c \<le> 0xDBFF"
  and unat_low: "is_low c \<longleftrightarrow> 0xDC00 \<le> unat c \<and> unat c \<le> 0xDFFF"
  by (simp_all add: is_high_def is_low_def word_le_nat_alt)

lemma unat_unit16: "unat (c :: unit16) < 65536"
  using unsigned_less [of c, where 'a = nat] by simp

lemma scalars_pair:
  assumes "is_high c" "is_low d"
  shows "units_of_scalar (0x10000 + (unat c - 0xD800) * 1024 + (unat d - 0xDC00)) = [c, d]"
proof -
  have d: "unat d - 0xDC00 < 1024" using assms(2) unfolding unat_low by linarith
  have "(0x10000 + (unat c - 0xD800) * 1024 + (unat d - 0xDC00) - 0x10000) div 1024 = unat c - 0xD800"
    "(0x10000 + (unat c - 0xD800) * 1024 + (unat d - 0xDC00) - 0x10000) mod 1024 = unat d - 0xDC00"
    using d by simp_all
  moreover have "0xD800 + (unat c - 0xD800) = unat c" "0xDC00 + (unat d - 0xDC00) = unat d"
    using assms by (simp_all add: unat_high unat_low)
  ultimately show ?thesis unfolding units_of_scalar_def by (simp only:) simp
qed

lemma units_scalars: "paired s \<Longrightarrow> units_of (scalars s) = s"
proof (induction s rule: paired.induct)
  case (2 c)
  then show ?case using unat_unit16 [of c] by (simp add: units_of_def units_of_scalar_def)
next
  case (3 c d s)
  show ?case
  proof (cases "is_high c")
    case True
    then show ?thesis using 3 scalars_pair [of c d] by (simp add: units_of_def)
  next
    case False
    then show ?thesis using 3 unat_unit16 [of c] by (simp add: units_of_def units_of_scalar_def)
  qed
qed (simp add: units_of_def)

lemma scalars_ok: "\<forall>n \<in> set (scalars s). scalar_ok n"
proof (induction s rule: scalars.induct)
  case (2 c)
  then show ?case using unat_unit16 [of c] by (auto simp: scalar_ok_def unat_high unat_low)
next
  case (3 c d s)
  have pair: "scalar_ok (0x10000 + (unat c - 0xD800) * 1024 + (unat d - 0xDC00))" if "is_high c" "is_low d"
  proof -
    have "unat c - 0xD800 \<le> 0x3FF" "unat d - 0xDC00 \<le> 0x3FF"
      using that unfolding unat_high unat_low by linarith+
    then show ?thesis unfolding scalar_ok_def by linarith
  qed
  have one: "scalar_ok (if is_high c \<or> is_low c then 0xFFFD else unat c)"
    using unat_unit16 [of c] unfolding unat_high unat_low scalar_ok_def by auto
  show ?case
  proof (cases "is_high c \<and> is_low d")
    case True
    then show ?thesis using 3(1) pair by simp
  next
    case False
    then have "scalars (c # d # s) = (if is_high c \<or> is_low c then 0xFFFD else unat c) # scalars (d # s)"
      by auto
    then show ?thesis using 3(2) [OF False] one by simp
  qed
qed simp

interpretation utf16: codec scalars units_of paired
  by unfold_locales (rule units_scalars)


subsection \<open>\<open>UTF-8\<close> and back\<close>

lemma utf8_one:
  assumes "scalar_ok n"
  shows "utf8_decode (utf8_bytes n @ bs) = n # utf8_decode bs"
proof -
  consider "n < 0x80" | "0x80 \<le> n" "n < 0x800" | "0x800 \<le> n" "n < 0x10000" | "0x10000 \<le> n" "n < 0x110000"
    using assms unfolding scalar_ok_def by linarith
  then show ?thesis
  proof cases
    case 1
    then show ?thesis by (simp add: utf8_bytes_def utf8_lead_def)
  next
    case 2
    have "2 \<le> n div 64" "n div 64 < 32" using 2 by linarith+
    then have "utf8_lead (0xC0 + n div 64) = Some (1, 0x80, 0xBF, n div 64)" by (simp add: utf8_lead_def)
    moreover have "n mod 64 \<le> 63" using mod_less_divisor [of 64 n] by linarith
    ultimately show ?thesis using 2 by (simp add: utf8_bytes_def)
  next
    case 3
    define a b c where "a = n div 4096" and "b = n div 64 mod 64" and "c = n mod 64"
    have n: "n = (a * 64 + b) * 64 + c" "b < 64" "c < 64"
      using div_mult2_eq [of n 64 64] by (simp_all add: a_def b_def c_def)
    have n': "n = a * 4096 + b * 64 + c" using n(1) by simp
    have a: "a < 16" using 3 n' by linarith
    have low: "32 \<le> b" if "a = 0" using that 3 n' n(3) by linarith
    have high: "b < 32" if "a = 13" using that assms n' n(2,3) unfolding scalar_ok_def by linarith
    have lead: "utf8_lead (0xE0 + a) = Some (2, if a = 0 then 0xA0 else 0x80, if a = 13 then 0x9F else 0xBF, a)"
      using a by (simp add: utf8_lead_def)
    have r: "(if a = 0 then 0xA0 else 0x80) \<le> 0x80 + b" "0x80 + b \<le> (if a = 13 then 0x9F else 0xBF)"
      using n(2) low high by auto
    have "utf8_bytes n = [0xE0 + a, 0x80 + b, 0x80 + c]" using 3 by (simp add: utf8_bytes_def a_def b_def c_def)
    then show ?thesis using r lead n(3) by (simp add: numeral_2_eq_2) (simp add: n')
  next
    case 4
    define a b c d where "a = n div 262144" and "b = n div 4096 mod 64" and "c = n div 64 mod 64" and "d = n mod 64"
    have "n div 64 div 64 = n div 4096" "n div 4096 div 64 = n div 262144"
      using div_mult2_eq [of n 64 64] div_mult2_eq [of n 4096 64] by simp_all
    then have n: "n = ((a * 64 + b) * 64 + c) * 64 + d" "b < 64" "c < 64" "d < 64"
      using div_mult_mod_eq [of n 64] div_mult_mod_eq [of "n div 64" 64] div_mult_mod_eq [of "n div 4096" 64]
      by (simp_all add: a_def b_def c_def d_def)
    have n': "n = a * 262144 + b * 4096 + c * 64 + d" using n(1) by simp
    have a: "a < 5" using 4 n' by linarith
    have low: "16 \<le> b" if "a = 0" using that 4 n' n(3,4) by linarith
    have high: "b < 16" if "a = 4" using that 4 n' n(3,4) by linarith
    have lead: "utf8_lead (0xF0 + a) = Some (3, if a = 0 then 0x90 else 0x80, if a = 4 then 0x8F else 0xBF, a)"
      using a by (simp add: utf8_lead_def)
    have r: "(if a = 0 then 0x90 else 0x80) \<le> 0x80 + b" "0x80 + b \<le> (if a = 4 then 0x8F else 0xBF)"
      using n(2) low high by auto
    have "utf8_bytes n = [0xF0 + a, 0x80 + b, 0x80 + c, 0x80 + d]"
      using 4 by (simp add: utf8_bytes_def a_def b_def c_def d_def)
    then show ?thesis using r lead n(3,4) by (simp add: numeral_3_eq_3) (simp add: n')
  qed
qed

lemma utf8_decode_encode: "\<forall>n \<in> set ns. scalar_ok n \<Longrightarrow> utf8_decode (utf8_encode ns) = ns"
  by (induction ns) (simp_all add: utf8_encode_def utf8_one)

interpretation utf8: codec utf8_encode utf8_decode "\<lambda>ns. \<forall>n \<in> set ns. scalar_ok n"
  by unfold_locales (rule utf8_decode_encode)

interpretation text8: two_codecs scalars units_of paired utf8_encode utf8_decode "\<lambda>ns. \<forall>n \<in> set ns. scalar_ok n"
  by unfold_locales (simp add: scalars_ok)


subsection \<open>Queries\<close>

text \<open>What a page writes to pass parameters: every byte escaped.\<close>

definition escape_byte :: "nat \<Rightarrow> jstr" where
  "escape_byte b = [37, hex_digit (b div 16), hex_digit (b mod 16)]"

definition escape_text :: "jstr \<Rightarrow> jstr" where
  "escape_text s = concat (map escape_byte (utf8_encode (scalars s)))"

definition query_of :: "(jstr \<times> jstr) list \<Rightarrow> jstr" where
  "query_of ps = 63 # join_with [38] (map (\<lambda>(k, v). escape_text k @ 61 # escape_text v) ps)"

lemma hex_digit_small: "n < 16 \<Longrightarrow> unat (hex_digit n) < 128 \<and> unat (hex_digit n) \<notin> {37, 38, 43, 61}"
proof -
  have "\<forall>n \<in> set [0..<16]. unat (hex_digit n) < 128 \<and> unat (hex_digit n) \<notin> {37, 38, 43, 61}" by code_simp
  then show "n < 16 \<Longrightarrow> ?thesis" by simp
qed

lemma hex_byte_digit [simp]: "n < 16 \<Longrightarrow> hex_byte (unat (hex_digit n)) = Some n"
  using hex_digit_small [of n] by (simp add: hex_byte_def)

lemma utf8_bytes_256: "scalar_ok n \<Longrightarrow> \<forall>b \<in> set (utf8_bytes n). b < 256"
  by (auto simp: utf8_bytes_def scalar_ok_def)

lemma text_bytes_256: "\<forall>b \<in> set (utf8_encode (scalars s)). b < 256"
  using scalars_ok [of s] utf8_bytes_256 by (auto simp: utf8_encode_def)

text \<open>Units below 128 are their own bytes.\<close>

definition plain :: "jstr \<Rightarrow> bool" where
  "plain s \<longleftrightarrow> (\<forall>c \<in> set s. unat c < 128)"

lemma scalars_plain: "plain s \<Longrightarrow> scalars s = map unat s"
  by (induction s rule: scalars.induct) (auto simp: plain_def unat_high unat_low)

lemma encode_plain: "plain s \<Longrightarrow> utf8_encode (scalars s) = map unat s"
  unfolding scalars_plain by (induction s) (auto simp: utf8_encode_def utf8_bytes_def plain_def)

definition escape_units :: "nat list \<Rightarrow> nat list" where
  "escape_units bs = concat (map (\<lambda>b. map unat (escape_byte b)) bs)"

lemma escape_plain: "plain (escape_text s)"
  using text_bytes_256 [of s] hex_digit_small by (auto simp: plain_def escape_text_def escape_byte_def)

lemma unat_escape: "map unat (escape_text s) = escape_units (utf8_encode (scalars s))"
  by (simp add: escape_text_def escape_units_def map_concat comp_def)

lemma percent_escape: "\<forall>b \<in> set bs. b < 256 \<Longrightarrow> percent_decode (escape_units bs) = bs"
proof (induction bs)
  case (Cons b bs)
  then have "b div 16 < 16" by auto
  with Cons show ?case by (simp add: escape_units_def escape_byte_def)
qed (simp add: escape_units_def)

lemma escape_units_chars: "\<forall>b \<in> set bs. b < 256 \<Longrightarrow> set (escape_units bs) \<inter> {38, 43, 61} = {}"
  using hex_digit_small by (induction bs) (fastforce simp: escape_units_def escape_byte_def)+

lemma form_decode_escape: "paired s \<Longrightarrow> form_decode (map unat (escape_text s)) = s"
proof -
  assume s: "paired s"
  let ?bs = "utf8_encode (scalars s)"
  have "map (\<lambda>b. if b = 43 then 32 else b) (escape_units ?bs) = escape_units ?bs"
    using escape_units_chars [OF text_bytes_256 [of s]] by (intro map_idI) auto
  then show ?thesis
    using s text8.both.dec_enc [OF s] by (simp add: form_decode_def unat_escape percent_escape [OF text_bytes_256])
qed

lemma split_at_none: "x \<notin> set xs \<Longrightarrow> split_at x xs = [xs]"
  by (induction xs) auto

lemma split_at_append: "x \<notin> set xs \<Longrightarrow> split_at x (xs @ x # ys) = xs # split_at x ys"
  by (induction xs) auto

lemma split_at_join:
  "xs \<noteq> [] \<Longrightarrow> \<forall>ys \<in> set xs. x \<notin> set ys \<Longrightarrow> split_at x (join_with [x] xs) = xs"
proof (induction xs)
  case (Cons ys xs)
  show ?case
  proof (cases xs)
    case Nil
    then show ?thesis using Cons.prems by (simp add: split_at_none)
  next
    case (Cons zs zss)
    then show ?thesis using Cons.IH Cons.prems by (simp add: split_at_append)
  qed
qed simp


lemma map_join_with: "map f (join_with sep xs) = join_with (map f sep) (map (map f) xs)"
  by (induction sep xs rule: join_with.induct) simp_all

lemma set_join_with: "set (join_with sep xs) \<subseteq> set sep \<union> (\<Union>x \<in> set xs. set x)"
  by (induction sep xs rule: join_with.induct) auto

lemma plain_join: "plain sep \<Longrightarrow> \<forall>x \<in> set xs. plain x \<Longrightarrow> plain (join_with sep xs)"
  using set_join_with [of sep xs] unfolding plain_def by blast

lemma pair_bytes_decode:
  assumes "paired k" "paired v"
  shows "form_pair (map unat (escape_text k @ 61 # escape_text v)) = (k, v)"
proof -
  let ?e = "escape_units (utf8_encode (scalars k))"
  have "\<forall>b \<in> set ?e. b \<noteq> 61" using escape_units_chars [OF text_bytes_256 [of k]] by auto
  then have "takeWhile (\<lambda>b. b \<noteq> 61) (?e @ 61 # ys) = ?e" "dropWhile (\<lambda>b. b \<noteq> 61) (?e @ 61 # ys) = 61 # ys" for ys
    by (simp_all add: takeWhile_append dropWhile_append)
  then show ?thesis
    using form_decode_escape [OF assms(1)] form_decode_escape [OF assms(2)]
    by (simp add: form_pair_def flip: unat_escape)
qed

text \<open>Reading the query that encodes a list of names and values gives the list back, and a
  parameter is the first value of its name, for all texts without lone surrogates.\<close>

lemma query_roundtrip:
  assumes "\<forall>(k, v) \<in> set ps. paired k \<and> paired v"
  shows "search_params (query_of ps) = ps \<and> get_param (query_of ps) = map_of ps"
proof -
  let ?parts = "map (\<lambda>(k, v). escape_text k @ 61 # escape_text v) ps"
  let ?bytes = "map (map unat) ?parts"
  have "plain (escape_text k @ 61 # escape_text v)" for k v
    using escape_plain [of k] escape_plain [of v] by (auto simp: plain_def)
  then have "plain (join_with [38] ?parts)" by (intro plain_join) (auto simp: plain_def)
  then have bytes: "utf8_encode (scalars (join_with [38] ?parts)) = join_with [38] ?bytes"
    by (simp add: encode_plain map_join_with)
  have parts: "filter (\<lambda>part. part \<noteq> []) (split_at 38 (join_with [38] ?bytes)) = ?bytes"
  proof (cases "ps = []")
    case False
    have "38 \<notin> set (map unat (escape_text s))" for s
      using escape_units_chars [OF text_bytes_256 [of s]] by (auto simp: unat_escape)
    then have "\<forall>ys \<in> set ?bytes. 38 \<notin> set ys" by fastforce
    moreover have "?bytes \<noteq> []" using False by simp
    ultimately have "split_at 38 (join_with [38] ?bytes) = ?bytes" by (intro split_at_join)
    then show ?thesis by (auto simp: filter_id_conv)
  qed simp
  have "map form_pair ?bytes = ps"
    using assms pair_bytes_decode by (induction ps) auto
  then have "search_params (query_of ps) = ps"
    by (simp add: search_params_def query_of_def bytes parts del: map_map)
  then show ?thesis by (simp add: get_param_def fun_eq_iff)
qed

lemma query_roundtrip_witness:
  "get_param (query_of [(js ''path'', js ''a b&c'')]) (js ''path'') = Some (js ''a b&c'') \<and>
   get_param (js ''?path=x%20y+z&path=q'') (js ''path'') = Some (js ''x y z'')"
proof -
  have "paired (js ''path'')" "paired (js ''a b&c'')"
    "get_param (js ''?path=x%20y+z&path=q'') (js ''path'') = Some (js ''x y z'')" by code_simp+
  then show ?thesis using query_roundtrip [of "[(js ''path'', js ''a b&c'')]"] by simp
qed

subsection \<open>\<open>encodeURI\<close>\<close>

text \<open>
  Units of addresses stay, the separators \<open>&\<close>, \<open>+\<close>, \<open>=\<close> and \<open>#\<close> among them; every other scalar value
  becomes its escaped bytes.  A lone surrogate is a \<open>URIError\<close>.
\<close>

definition uri_safe :: "nat \<Rightarrow> bool" where
  "uri_safe n \<longleftrightarrow> n < 128 \<and>
     (is_digit (of_nat n) \<or> 65 \<le> n \<and> n \<le> 90 \<or> 97 \<le> n \<and> n \<le> 122 \<or>
      of_nat n \<in> set (39 # js '';/?:@&=+$,-_.!~*()#''))"

definition upper_hex :: "nat \<Rightarrow> unit16" where
  "upper_hex n = of_nat (if n < 10 then 48 + n else 55 + n)"

definition uri_units :: "nat \<Rightarrow> jstr" where
  "uri_units n =
     (if uri_safe n then [of_nat n]
      else concat (map (\<lambda>b. [37, upper_hex (b div 16), upper_hex (b mod 16)]) (utf8_bytes n)))"

definition encodeURI :: "jstr \<Rightarrow> exn + jstr" where
  "encodeURI s = (if paired s then Inr (concat (map uri_units (scalars s))) else Inl URIError)"

text \<open>The bytes of an encoded text.\<close>

lemma upper_hex_small: "n < 16 \<Longrightarrow> unat (upper_hex n) < 128 \<and> unat (upper_hex n) \<notin> {35, 37, 38, 43, 61} \<and>
    hex_byte (unat (upper_hex n)) = Some n"
proof -
  have "\<forall>n \<in> set [0..<16]. unat (upper_hex n) < 128 \<and> unat (upper_hex n) \<notin> {35, 37, 38, 43, 61} \<and>
    hex_byte (unat (upper_hex n)) = Some n" by code_simp
  then show "n < 16 \<Longrightarrow> ?thesis" by simp
qed

lemma uri_safe_not: "uri_safe n \<Longrightarrow> n \<noteq> 37"
proof
  assume "uri_safe n" "n = 37"
  moreover have "\<not> uri_safe 37" by code_simp
  ultimately show False by simp
qed

definition uri_bytes :: "nat \<Rightarrow> nat list" where
  "uri_bytes n = map unat (uri_units n)"

lemma uri_bytes_cases:
  "uri_bytes n = (if uri_safe n then [n]
     else concat (map (\<lambda>b. [37, unat (upper_hex (b div 16)), unat (upper_hex (b mod 16))]) (utf8_bytes n)))"
  by (auto simp: uri_bytes_def uri_units_def uri_safe_def map_concat comp_def unat_of_nat)

lemma percent_keep: "b \<noteq> 37 \<Longrightarrow> percent_decode (b # bs) = b # percent_decode bs"
  by (cases bs; cases "tl bs") auto

lemma percent_uri_bytes:
  "\<forall>b \<in> set bs. b < 256 \<Longrightarrow>
     percent_decode (concat (map (\<lambda>b. [37, unat (upper_hex (b div 16)), unat (upper_hex (b mod 16))]) bs) @ cs) =
     bs @ percent_decode cs"
proof (induction bs)
  case (Cons b bs)
  then have "b div 16 < 16" by auto
  with Cons show ?case using upper_hex_small [of "b div 16"] upper_hex_small [of "b mod 16"] by simp
qed simp

lemma percent_uri:
  assumes "scalar_ok n"
  shows "percent_decode (uri_bytes n @ cs) = utf8_bytes n @ percent_decode cs"
proof (cases "uri_safe n")
  case True
  then have "n < 128" by (simp add: uri_safe_def)
  then show ?thesis using True uri_safe_not [OF True] by (simp add: uri_bytes_cases utf8_bytes_def percent_keep)
next
  case False
  then show ?thesis using percent_uri_bytes [OF utf8_bytes_256 [OF assms]] by (simp add: uri_bytes_cases)
qed

lemma uri_bytes_in:
  assumes "\<not> uri_safe n" "c \<in> set (uri_bytes n)"
  obtains b where "b \<in> set (utf8_bytes n)" "c \<in> {37, unat (upper_hex (b div 16)), unat (upper_hex (b mod 16))}"
proof -
  have "c \<in> set (concat (map (\<lambda>b. [37, unat (upper_hex (b div 16)), unat (upper_hex (b mod 16))]) (utf8_bytes n)))"
    using assms by (simp only: uri_bytes_cases if_False)
  then obtain b where "b \<in> set (utf8_bytes n)" "c \<in> set [37, unat (upper_hex (b div 16)), unat (upper_hex (b mod 16))]"
    unfolding set_concat set_map by blast
  with that show ?thesis by simp
qed

lemma uri_bytes_128:
  assumes "scalar_ok n" "c \<in> set (uri_bytes n)"
  shows "c < 128"
proof (cases "uri_safe n")
  case True
  then show ?thesis using assms(2) by (simp add: uri_bytes_cases uri_safe_def)
next
  case False
  then obtain b where b: "b \<in> set (utf8_bytes n)" "c \<in> {37, unat (upper_hex (b div 16)), unat (upper_hex (b mod 16))}"
    using uri_bytes_in assms(2) by blast
  have "b div 16 < 16" using utf8_bytes_256 [OF assms(1)] b(1) by auto
  then show ?thesis using b(2) upper_hex_small [of "b div 16"] upper_hex_small [of "b mod 16"] by auto
qed

lemma uri_bytes_units:
  assumes "scalar_ok n" "c \<in> set (uri_bytes n)" "c \<in> {35, 38, 43}"
  shows "c = n"
proof (cases "uri_safe n")
  case False
  then obtain b where b: "b \<in> set (utf8_bytes n)" "c \<in> {37, unat (upper_hex (b div 16)), unat (upper_hex (b mod 16))}"
    using uri_bytes_in assms(2) by blast
  have "b div 16 < 16" using utf8_bytes_256 [OF assms(1)] b(1) by auto
  then show ?thesis using b(2) assms(3) upper_hex_small [of "b div 16"] upper_hex_small [of "b mod 16"] by auto
qed (use assms(2) in \<open>simp add: uri_bytes_cases\<close>)

text \<open>A server reads \<open>+\<close> as a space, and nothing else differently.\<close>

definition plus_byte :: "nat \<Rightarrow> nat" where "plus_byte b = (if b = 43 then 32 else b)"

definition plus_unit :: "unit16 \<Rightarrow> unit16" where "plus_unit c = (if c = 43 then 32 else c)"

lemma plus_scalar: "scalar_ok n \<Longrightarrow> scalar_ok (plus_byte n)"
  by (simp add: scalar_ok_def plus_byte_def)

lemma unat_numeral_43: "unat (43 :: unit16) = 43"
  by simp

lemma plus_units: "\<forall>n \<in> set ns. scalar_ok n \<Longrightarrow> units_of (map plus_byte ns) = map plus_unit (units_of ns)"
proof (induction ns)
  case (Cons n ns)
  have "units_of_scalar (plus_byte n) = map plus_unit (units_of_scalar n)"
  proof (cases "n < 0x10000")
    case True
    then have "unat (of_nat n :: unit16) = n" by (simp add: unat_of_nat)
    then have "of_nat n = (43 :: unit16) \<longleftrightarrow> n = 43" by (metis of_nat_numeral unat_numeral_43)
    with True show ?thesis by (simp add: units_of_scalar_def plus_byte_def plus_unit_def)
  next
    case False
    let ?a = "(n - 0x10000) div 1024" and ?b = "(n - 0x10000) mod 1024"
    have "n - 0x10000 < 1024 * 1024" using Cons.prems False by (simp add: scalar_ok_def less_diff_conv2)
    then have "?a < 1024" by (simp only: less_mult_imp_div_less)
    then have "unat (of_nat (0xD800 + ?a) :: unit16) = 0xD800 + ?a" by (simp only: unat_of_nat) simp
    moreover have "?b < 1024" by simp
    then have "unat (of_nat (0xDC00 + ?b) :: unit16) = 0xDC00 + ?b" by (simp only: unat_of_nat) simp
    moreover have "plus_unit x = x" if "unat x = k + j" "43 < k" for x :: unit16 and k j
      using that unat_numeral_43 by (auto simp: plus_unit_def)
    ultimately have "plus_unit (of_nat (0xD800 + ?a)) = of_nat (0xD800 + ?a)"
      "plus_unit (of_nat (0xDC00 + ?b)) = of_nat (0xDC00 + ?b)"
      by (metis less_numeral_simps(4) numeral_less_iff semiring_norm(76,77,78,79,80,81))+
    moreover have "plus_byte n = n" using False by (simp add: plus_byte_def)
    ultimately show ?thesis using False by (simp only: units_of_scalar_def list.map if_False)
  qed
  with Cons show ?case by (simp add: units_of_def)
qed (simp add: units_of_def)

lemma percent_plus:
  assumes "scalar_ok n"
  shows "percent_decode (map plus_byte (uri_bytes n) @ cs) = utf8_bytes (plus_byte n) @ percent_decode cs"
proof (cases "n = 43")
  case True
  have "uri_bytes 43 = [43]" by code_simp
  then show ?thesis by (simp add: True plus_byte_def utf8_bytes_def percent_keep)
next
  case False
  then have "map plus_byte (uri_bytes n) = uri_bytes n"
    using uri_bytes_units [OF assms, of 43] by (intro map_idI) (auto simp: plus_byte_def)
  then show ?thesis using percent_uri [OF assms] False by (simp add: plus_byte_def)
qed

lemma decode_uri:
  assumes "\<forall>n \<in> set ns. scalar_ok n"
  shows "percent_decode (map plus_byte (concat (map uri_bytes ns))) = utf8_encode (map plus_byte ns)"
  using assms by (induction ns) (simp_all add: utf8_encode_def percent_plus)

lemma encodeURI_bytes:
  assumes "encodeURI s = Inr q"
  shows "paired s" "map unat q = concat (map uri_bytes (scalars s))"
  using assms by (auto simp: encodeURI_def uri_bytes_def [abs_def] map_concat comp_def split: if_splits)

lemma encodeURI_plain:
  assumes "encodeURI s = Inr q"
  shows "plain q"
proof -
  have "b < 128" if b: "b \<in> set (map unat q)" for b
  proof -
    obtain n where "n \<in> set (scalars s)" "b \<in> set (uri_bytes n)"
      using b unfolding encodeURI_bytes [OF assms] set_concat set_map by blast
    then show ?thesis using uri_bytes_128 scalars_ok [of s] by blast
  qed
  then show ?thesis by (auto simp: plain_def)
qed

lemma encodeURI_no_amp:
  assumes q: "encodeURI s = Inr q" and s: "38 \<notin> set s"
  shows "38 \<notin> set (map unat q)"
proof
  assume "38 \<in> set (map unat q)"
  then obtain n where n: "n \<in> set (scalars s)" "38 \<in> set (uri_bytes n)"
    unfolding encodeURI_bytes [OF q] set_concat set_map by blast
  then have "n = 38" using uri_bytes_units [of n 38] scalars_ok [of s] by blast
  then have "of_nat 38 \<in> set (units_of (scalars s))"
    using n(1) by (force simp: units_of_def units_of_scalar_def)
  then show False using s by (simp add: units_scalars [OF encodeURI_bytes(1) [OF q]])
qed

lemma plus_paired: "paired s \<Longrightarrow> paired (map plus_unit s)"
  by (induction s rule: paired.induct) (auto simp: plus_unit_def unat_high unat_low)

lemma form_decode_uri:
  assumes q: "encodeURI s = Inr q"
  shows "form_decode (map unat q) = map plus_unit s"
proof -
  note b = encodeURI_bytes [OF q]
  have ok: "\<forall>n \<in> set (map plus_byte (scalars s)). scalar_ok n" using scalars_ok [of s] plus_scalar by simp
  have "form_decode (map unat q) = units_of (utf8_decode (percent_decode (map plus_byte (map unat q))))"
    by (simp add: form_decode_def plus_byte_def [abs_def])
  also have "\<dots> = units_of (map plus_byte (scalars s))"
    using decode_uri scalars_ok [of s] utf8_decode_encode [OF ok] unfolding b(2) by simp
  also have "\<dots> = map plus_unit s" using plus_units scalars_ok [of s] by (simp add: units_scalars [OF b(1)])
  finally show ?thesis .
qed

lemma plain_paired: "plain s \<Longrightarrow> paired s"
  by (induction s rule: paired.induct) (auto simp: plain_def unat_high unat_low)

end
