(* ===== verification/Queries.thy ===== *)
theory Queries
  imports Params
begin

section \<open>A query on its way to the server\<close>

text \<open>
  What happens to the query of an address that a page builds: the browser drops the fragment and
  escapes what an address cannot hold, and the server takes the rest apart with \<open>queryToMap\<close> of
  \<open>protocol-common\<close> (\<open>RequestUtils.java\<close>), whose texts go through \<open>URLDecoder\<close>.
\<close>

subsection \<open>The browser\<close>

text \<open>
  The query of the standard for addresses: tabs and line ends go, everything from \<open>#\<close> is the fragment,
  and the units of the query escape set of \<open>http\<close> are escaped as bytes.
\<close>

definition query_escaped :: "nat \<Rightarrow> bool" where
  "query_escaped n \<longleftrightarrow> n \<le> 32 \<or> 127 \<le> n \<or> n \<in> {34, 35, 39, 60, 62}"

definition query_units :: "nat \<Rightarrow> jstr" where
  "query_units n =
     (if query_escaped n
      then concat (map (\<lambda>b. [37, upper_hex (b div 16), upper_hex (b mod 16)]) (utf8_bytes n)) else [of_nat n])"

definition sent_query :: "jstr \<Rightarrow> jstr" where
  "sent_query s =
     concat (map query_units (scalars (takeWhile (\<lambda>c. c \<noteq> 35) (filter (\<lambda>c. c \<notin> {9, 10, 13}) s))))"

subsection \<open>The server\<close>

text \<open>
  \<open>Integer.parseInt\<close> in base 16 on two units: digits, or one digit after a \<open>+\<close>; the result of a \<open>-\<close> is
  refused unless it is 0.
\<close>

definition escape_value :: "unit16 \<Rightarrow> unit16 \<Rightarrow> nat option" where
  "escape_value c d =
     (case (hex_value c, hex_value d) of
        (Some x, Some y) \<Rightarrow> Some (16 * x + y)
      | (None, Some y) \<Rightarrow> if c = 43 \<or> c = 45 \<and> y = 0 then Some y else None
      | _ \<Rightarrow> None)"

text \<open>
  \<open>URLDecoder.decode\<close>: a run of escapes is decoded together, \<open>+\<close> is a space.  \<open>None\<close> is the
  \<open>IllegalArgumentException\<close> of an escape that is none.
\<close>

fun escape_run :: "jstr \<Rightarrow> (nat list \<times> jstr) option" where
  "escape_run (p # c # d # s) =
     (if p \<noteq> 37 then Some ([], p # c # d # s)
      else case escape_value c d of
             None \<Rightarrow> None
           | Some b \<Rightarrow> map_option (\<lambda>(bs, t). (b # bs, t)) (escape_run s))"
| "escape_run s = (if s \<noteq> [] \<and> hd s = 37 then None else Some ([], s))"

lemma escape_run_length: "escape_run s = Some (bs, t) \<Longrightarrow> length t \<le> length s \<and> (s \<noteq> [] \<and> hd s = 37 \<longrightarrow> length t < length s)"
  by (induction s arbitrary: bs t rule: escape_run.induct) (fastforce split: if_splits option.splits)+

function url_decode :: "jstr \<Rightarrow> jstr option" where
  "url_decode [] = Some []"
| "url_decode (c # s) =
     (if c = 43 then map_option ((#) 32) (url_decode s)
      else if c = 37 then
        case escape_run (c # s) of
          None \<Rightarrow> None
        | Some (bs, t) \<Rightarrow> map_option ((@) (units_of (utf8_decode bs))) (url_decode t)
      else map_option ((#) c) (url_decode s))"
  by pat_completeness auto
termination
  by (relation "measure length") (auto dest: escape_run_length)

text \<open>
  \<open>queryToMap\<close>: the parts between ampersands, empty ones skipped; a part without \<open>=\<close> has the empty
  text as its value, and a later part with the same key replaces the earlier one.
\<close>

definition query_part :: "jstr \<Rightarrow> (jstr \<times> jstr) option" where
  "query_part part =
     (if 61 \<in> set part then
        case (url_decode (takeWhile (\<lambda>c. c \<noteq> 61) part), url_decode (tl (dropWhile (\<lambda>c. c \<noteq> 61) part))) of
          (Some k, Some v) \<Rightarrow> Some (k, v)
        | _ \<Rightarrow> None
      else map_option (\<lambda>k. (k, [])) (url_decode part))"

fun put_parts :: "jstr list \<Rightarrow> (jstr \<rightharpoonup> jstr) \<Rightarrow> (jstr \<rightharpoonup> jstr) option" where
  "put_parts [] m = Some m"
| "put_parts (part # parts) m = (case query_part part of None \<Rightarrow> None | Some (k, v) \<Rightarrow> put_parts parts (m(k \<mapsto> v)))"

definition queryToMap :: "jstr \<Rightarrow> (jstr \<rightharpoonup> jstr) option" where
  "queryToMap qs = put_parts (filter (\<lambda>part. part \<noteq> []) (split_at 38 qs)) Map.empty"

subsection \<open>Decoding\<close>

text \<open>A byte below 128 ends the sequence before it.\<close>

lemma utf8_rest_append:
  "128 \<le> lo \<or> k = 0 \<Longrightarrow> r = [] \<or> hd r < 128 \<Longrightarrow>
     utf8_rest k lo hi n (bs @ r) = (fst (utf8_rest k lo hi n bs), snd (utf8_rest k lo hi n bs) @ r)"
proof (induction k lo hi n bs rule: utf8_rest.induct)
  case (1 k lo hi n)
  then show ?case by (cases r) auto
qed auto

lemma utf8_lead_range: "utf8_lead b = Some (k, lo, hi, n) \<Longrightarrow> 128 \<le> lo \<or> k = 0"
  by (auto simp: utf8_lead_def split: if_splits)

lemma utf8_decode_append:
  assumes "r = [] \<or> hd r < 128"
  shows "utf8_decode (bs @ r) = utf8_decode bs @ utf8_decode r"
proof (induction bs rule: utf8_decode.induct)
  case (2 b bs)
  show ?case
  proof (cases "utf8_lead b")
    case (Some l)
    then obtain k lo hi n where l: "utf8_lead b = Some (k, lo, hi, n)" by (cases l) auto
    show ?thesis using 2(2) [OF l] utf8_rest_append [OF utf8_lead_range [OF l] assms] l by simp
  qed (use 2 in simp)
qed simp

lemma units_append: "units_of (xs @ ys) = units_of xs @ units_of ys"
  by (simp add: units_of_def)

lemma ascii_first: "b < 128 \<Longrightarrow> units_of (utf8_decode (b # bs)) = of_nat b # units_of (utf8_decode bs)"
  by (simp add: utf8_lead_def units_of_def units_of_scalar_def)

text \<open>A text whose escapes are all escapes is decoded to what its bytes mean.\<close>

fun escapes_ok :: "jstr \<Rightarrow> bool" where
  "escapes_ok (p # c # d # s) \<longleftrightarrow>
     (if p = 37 then hex_value c \<noteq> None \<and> hex_value d \<noteq> None \<and> escapes_ok s else escapes_ok (c # d # s))"
| "escapes_ok s \<longleftrightarrow> 37 \<notin> set s"

definition form_bytes :: "jstr \<Rightarrow> nat list" where
  "form_bytes s = percent_decode (map plus_byte (map unat s))"

lemma form_decode_bytes: "form_decode (map unat s) = units_of (utf8_decode (form_bytes s))"
  by (simp add: form_decode_def form_bytes_def plus_byte_def [abs_def])

lemma unit_eqs: "unat c = 37 \<longleftrightarrow> c = (37 :: unit16)" "unat c = 43 \<longleftrightarrow> c = (43 :: unit16)"
  by (simp_all add: word_unat_eq_iff)

lemma plus_byte_small: "n < 128 \<Longrightarrow> plus_byte n < 128" "plus_byte n = 37 \<longleftrightarrow> n = 37"
  by (simp_all add: plus_byte_def)

lemma form_bytes_keep: "c \<noteq> 37 \<Longrightarrow> form_bytes (c # s) = plus_byte (unat c) # form_bytes s"
  by (simp add: form_bytes_def percent_keep plus_byte_small unit_eqs)

lemma form_bytes_hd: "plain s \<Longrightarrow> s = [] \<or> hd s \<noteq> 37 \<Longrightarrow> form_bytes s = [] \<or> hd (form_bytes s) < 128"
  by (cases s) (auto simp: form_bytes_keep plus_byte_small plain_def, simp add: form_bytes_def)

lemma escapes_ok_keep: "c \<noteq> 37 \<Longrightarrow> escapes_ok (c # s) = escapes_ok s"
  by (cases s; cases "tl s") auto

lemma hex_plus: "hex_value c \<noteq> None \<Longrightarrow> unat c < 128 \<Longrightarrow> plus_byte (unat c) = unat c \<and> hex_byte (unat c) = hex_value c"
proof -
  have "hex_value 43 = None" by code_simp
  then show "hex_value c \<noteq> None \<Longrightarrow> unat c < 128 \<Longrightarrow> ?thesis"
    by (auto simp: plus_byte_def hex_byte_def unit_eqs)
qed

lemma form_bytes_escape:
  assumes "hex_value c = Some x" "hex_value d = Some y" "plain [c, d]"
  shows "form_bytes (37 # c # d # s) = (16 * x + y) # form_bytes s"
  using assms hex_plus [of c] hex_plus [of d] by (simp add: form_bytes_def plain_def) (simp add: plus_byte_def)

lemma escape_run_ok:
  "escapes_ok s \<Longrightarrow> plain s \<Longrightarrow>
     \<exists>bs t. escape_run s = Some (bs, t) \<and> form_bytes s = bs @ form_bytes t \<and> escapes_ok t \<and> plain t \<and>
       (t = [] \<or> hd t \<noteq> 37)"
proof (induction s rule: escape_run.induct)
  case (1 p c d s)
  show ?case
  proof (cases "p = 37")
    case True
    then obtain x y where h: "hex_value c = Some x" "hex_value d = Some y" and ok: "escapes_ok s"
      using 1(2) by auto
    have pl: "plain s" "plain [c, d]" using 1(3) by (auto simp: plain_def)
    have e: "escape_value c d = Some (16 * x + y)" by (simp add: escape_value_def h)
    obtain bs t where "escape_run s = Some (bs, t)" "form_bytes s = bs @ form_bytes t" "escapes_ok t" "plain t"
        "t = [] \<or> hd t \<noteq> 37"
      using 1(1) [OF _ e ok pl(1)] True by auto
    then show ?thesis using True e form_bytes_escape [OF h pl(2)] by auto
  qed (use 1 in auto)
qed (auto simp: form_bytes_def)

lemma url_decode_form:
  "escapes_ok s \<Longrightarrow> plain s \<Longrightarrow> url_decode s = Some (form_decode (map unat s))"
  unfolding form_decode_bytes
proof (induction s rule: url_decode.induct)
  case 1
  show ?case by (simp add: form_bytes_def units_of_def)
next
  case (2 c s)
  show ?case
  proof (cases "c = 37")
    case True
    obtain bs t where t: "escape_run (c # s) = Some (bs, t)" "form_bytes (c # s) = bs @ form_bytes t" "escapes_ok t"
        "plain t" "t = [] \<or> hd t \<noteq> 37"
      using escape_run_ok [OF 2(4,5)] by blast
    have "url_decode t = Some (units_of (utf8_decode (form_bytes t)))" using 2(2) [OF _ True t(1)] True t(3,4) by auto
    then show ?thesis
      using True t(1,2) utf8_decode_append [OF form_bytes_hd [OF t(4,5)]] by (simp add: units_append)
  next
    case False
    have s: "escapes_ok s" "plain s" using 2(4,5) escapes_ok_keep [OF False] by (simp_all add: plain_def)
    have "unat c < 128" using 2(5) by (simp add: plain_def)
    then show ?thesis
      using 2(1) [OF _ s] 2(3) [OF _ False s] False
      by (cases "c = 43") (simp_all add: form_bytes_keep ascii_first plus_byte_def unit_eqs del: utf8_decode.simps(2))
  qed
qed

subsection \<open>Sending an encoded text\<close>

text \<open>On the text of \<open>encodeURI\<close> the browser escapes the apostrophe only, and cuts at \<open>#\<close>.\<close>

definition sent_units :: "nat \<Rightarrow> jstr" where
  "sent_units n = (if n = 39 then [37, 50, 55] else uri_units n)"

lemma uri_safe_marks:
  "unat ` set (39 # js '';/?:@&=+$,-_.!~*()#'') \<subseteq>
     {33, 35, 36, 38, 39, 40, 41, 42, 43, 44, 45, 46, 47, 58, 59, 61, 63, 64, 95, 126}"
  by (simp add: js_def)

lemma uri_safe_range:
  assumes "uri_safe n"
  shows "32 < n \<and> n < 127 \<and> n \<notin> {34, 60, 62}"
proof -
  have n: "unat (of_nat n :: unit16) = n" using assms by (simp add: uri_safe_def unat_of_nat)
  consider "is_digit (of_nat n)" | "65 \<le> n \<and> n \<le> 90 \<or> 97 \<le> n \<and> n \<le> 122"
    | "of_nat n \<in> set (39 # js '';/?:@&=+$,-_.!~*()#'')"
    using assms unfolding uri_safe_def by blast
  then show ?thesis
  proof cases
    case 1
    then show ?thesis by (auto simp: is_digit_def word_le_nat_alt n)
  next
    case 3
    have "n \<in> {33, 35, 36, 38, 39, 40, 41, 42, 43, 44, 45, 46, 47, 58, 59, 61, 63, 64, 95, 126}"
      using subsetD [OF uri_safe_marks imageI [OF 3]] unfolding n .
    then show ?thesis by auto
  qed auto
qed

lemma escaped_in_uri: "c \<in> set (uri_units n) \<Longrightarrow> scalar_ok n \<Longrightarrow> query_escaped (unat c) \<Longrightarrow> n \<in> {35, 39}"
proof (cases "uri_safe n")
  case True
  have "n < 128" using True by (simp add: uri_safe_def)
  moreover assume "c \<in> set (uri_units n)" "query_escaped (unat c)"
  ultimately have "query_escaped n" using True by (simp add: uri_units_def unat_of_nat)
  then show ?thesis using uri_safe_range [OF True] by (auto simp: query_escaped_def)
next
  case False
  assume c: "c \<in> set (uri_units n)" and n: "scalar_ok n" and q: "query_escaped (unat c)"
  then have "unat c \<in> set (uri_bytes n)" by (auto simp: uri_bytes_def)
  then obtain b where b: "b \<in> set (utf8_bytes n)" "unat c \<in> {37, unat (upper_hex (b div 16)), unat (upper_hex (b mod 16))}"
    using uri_bytes_in [OF False] by blast
  have "\<forall>n \<in> set [0..<16]. \<not> query_escaped (unat (upper_hex n))" by code_simp
  moreover have "b div 16 < 16" "b mod 16 < 16" using utf8_bytes_256 [OF n] b(1) by auto
  moreover have "\<not> query_escaped 37" by (simp add: query_escaped_def)
  ultimately show ?thesis using b(2) q by auto
qed

lemma query_uri_units:
  assumes "scalar_ok n" "n \<noteq> 35"
  shows "concat (map (\<lambda>c. query_units (unat c)) (uri_units n)) = sent_units n"
proof (cases "n = 39")
  case True
  have "uri_units 39 = [39]" "query_units 39 = [37, 50, 55]" by code_simp+
  then show ?thesis by (simp add: True sent_units_def)
next
  case False
  have "query_units (unat c) = [c]" if "c \<in> set (uri_units n)" for c
    using escaped_in_uri [OF that assms(1)] assms(2) False by (auto simp: query_units_def)
  then have "map (\<lambda>c. query_units (unat c)) (uri_units n) = map (\<lambda>c. [c]) (uri_units n)" by simp
  then have "concat (map (\<lambda>c. query_units (unat c)) (uri_units n)) = uri_units n" by (simp only: concat_map_singleton map_ident)
  then show ?thesis using False by (simp add: sent_units_def)
qed

definition sent_text :: "jstr \<Rightarrow> jstr" where
  "sent_text a = concat (map sent_units (scalars a))"

lemma query_uri:
  assumes "\<forall>n \<in> set ns. scalar_ok n \<and> n \<noteq> 35"
  shows "concat (map (\<lambda>c. query_units (unat c)) (concat (map uri_units ns))) = concat (map sent_units ns)"
  using assms by (induction ns) (simp_all add: query_uri_units)

lemma upper_hex_value: "n < 16 \<Longrightarrow> hex_value (upper_hex n) = Some n \<and> unat (upper_hex n) < 128"
proof -
  have "\<forall>n \<in> set [0..<16]. hex_value (upper_hex n) = Some n \<and> unat (upper_hex n) < 128" by code_simp
  then show "n < 16 \<Longrightarrow> ?thesis" by simp
qed

lemma escapes_ok_hex:
  "\<forall>b \<in> set bs. b < 256 \<Longrightarrow>
     escapes_ok (concat (map (\<lambda>b. [37, upper_hex (b div 16), upper_hex (b mod 16)]) bs) @ s) = escapes_ok s"
proof (induction bs)
  case (Cons b bs)
  then have "b div 16 < 16" by auto
  with Cons show ?case using upper_hex_value [of "b div 16"] upper_hex_value [of "b mod 16"] by simp
qed simp

lemma sent_units_ok:
  assumes "scalar_ok n"
  shows "escapes_ok (sent_units n @ s) = escapes_ok s" "plain (sent_units n)"
    "percent_decode (map plus_byte (map unat (sent_units n)) @ cs) = utf8_bytes (plus_byte n) @ percent_decode cs"
proof -
  have h: "hex_value 50 = Some 2" "hex_value 55 = Some 7" "uri_safe 39" by code_simp+
  have q: "escapes_ok (37 # 50 # 55 # s) = escapes_ok s" by (simp add: h)
  show "escapes_ok (sent_units n @ s) = escapes_ok s"
  proof (cases "uri_safe n")
    case True
    then have "unat (of_nat n :: unit16) = n" by (simp add: uri_safe_def unat_of_nat)
    then have "of_nat n \<noteq> (37 :: unit16)" using uri_safe_not [OF True] unit_eqs(1) by metis
    then show ?thesis using True q by (simp add: sent_units_def uri_units_def escapes_ok_keep)
  next
    case False
    then show ?thesis using escapes_ok_hex [OF utf8_bytes_256 [OF assms]] h(3) by (auto simp: sent_units_def uri_units_def)
  qed
  show "plain (sent_units n)"
    using uri_bytes_128 [OF assms] by (auto simp: sent_units_def plain_def uri_bytes_def)
  have "hex_byte 50 = Some 2" "hex_byte 55 = Some 7" by (simp_all add: hex_byte_def h)
  then have "percent_decode (37 # 50 # 55 # cs) = utf8_bytes 39 @ percent_decode cs" by (simp add: utf8_bytes_def)
  then show "percent_decode (map plus_byte (map unat (sent_units n)) @ cs) = utf8_bytes (plus_byte n) @ percent_decode cs"
    using percent_plus [OF assms] by (cases "n = 39") (simp_all add: sent_units_def plus_byte_def uri_bytes_def)
qed

lemma sent_all_ok:
  assumes "\<forall>n \<in> set ns. scalar_ok n"
  shows "escapes_ok (concat (map sent_units ns)) \<and> plain (concat (map sent_units ns)) \<and>
    form_bytes (concat (map sent_units ns)) = utf8_encode (map plus_byte ns)"
  using assms
proof (induction ns)
  case (Cons n ns)
  let ?r = "concat (map sent_units ns)"
  have n: "scalar_ok n" using Cons(2) by simp
  have "form_bytes (sent_units n @ ?r) = utf8_bytes (plus_byte n) @ form_bytes ?r"
    using sent_units_ok(3) [OF n, of "map plus_byte (map unat ?r)"] by (simp only: form_bytes_def map_append)
  then show ?case using Cons sent_units_ok(1,2) [OF n] by (auto simp: plain_def utf8_encode_def)
qed (simp add: plain_def form_bytes_def utf8_encode_def)

lemma sent_text_ok:
  assumes "paired a"
  shows "escapes_ok (sent_text a)" "plain (sent_text a)" "url_decode (sent_text a) = Some (map plus_unit a)"
proof -
  note ok = sent_all_ok [OF scalars_ok [of a]]
  show e: "escapes_ok (sent_text a)" and p: "plain (sent_text a)" using ok by (simp_all add: sent_text_def)
  have "\<forall>n \<in> set (map plus_byte (scalars a)). scalar_ok n" using scalars_ok [of a] plus_scalar by simp
  then have "units_of (utf8_decode (form_bytes (sent_text a))) = map plus_unit a"
    using ok plus_units [OF scalars_ok [of a]] utf8_decode_encode by (simp add: sent_text_def units_scalars [OF assms])
  then show "url_decode (sent_text a) = Some (map plus_unit a)"
    using url_decode_form [OF e p] by (simp add: form_decode_bytes)
qed

text \<open>No ampersand is added.\<close>

lemma sent_text_amp:
  assumes "paired a" "38 \<notin> set a"
  shows "38 \<notin> set (sent_text a)"
proof
  assume "38 \<in> set (sent_text a)"
  then obtain n where n: "n \<in> set (scalars a)" "38 \<in> set (sent_units n)" by (auto simp: sent_text_def)
  then have "38 \<in> set (uri_units n)" by (auto simp: sent_units_def split: if_splits)
  then have "unat (38 :: unit16) \<in> unat ` set (uri_units n)" by (rule imageI)
  then have "n = 38" using uri_bytes_units [of n 38] scalars_ok [of a] n(1) by (simp add: uri_bytes_def)
  then have "of_nat 38 \<in> set (units_of (scalars a))" using n(1) by (force simp: units_of_def units_of_scalar_def)
  then show False using assms by (simp add: units_scalars)
qed

subsection \<open>Parts of a query\<close>

text \<open>A text without escapes is decoded unit by unit.\<close>

lemma url_decode_plain: "37 \<notin> set s \<Longrightarrow> url_decode s = Some (map plus_unit s)"
  by (induction s) (auto simp: plus_unit_def)

lemma query_part_value:
  assumes "61 \<notin> set k" "37 \<notin> set k" "43 \<notin> set k" "url_decode v = Some x"
  shows "query_part (k @ 61 # v) = Some (k, x)"
proof -
  have "map plus_unit k = k" using assms(3) by (intro map_idI) (auto simp: plus_unit_def)
  moreover have "takeWhile (\<lambda>c. c \<noteq> 61) (k @ 61 # v) = k" "dropWhile (\<lambda>c. c \<noteq> 61) (k @ 61 # v) = 61 # v"
    using assms(1) by (auto simp: takeWhile_append dropWhile_append)
  ultimately show ?thesis using url_decode_plain [OF assms(2)] assms(4) by (simp add: query_part_def)
qed

subsection \<open>The query of a page\<close>

lemma scalar_unit: "paired a \<Longrightarrow> n \<in> set (scalars a) \<Longrightarrow> n < 0x10000 \<Longrightarrow> of_nat n \<in> set a"
proof -
  assume a: "paired a" "n \<in> set (scalars a)" "n < 0x10000"
  then have "of_nat n \<in> set (units_of (scalars a))" by (force simp: units_of_def units_of_scalar_def)
  then show ?thesis by (simp only: units_scalars [OF a(1)])
qed

text \<open>A separator that is no surrogate cuts a text in two.\<close>

lemma paired_sep:
  "\<not> is_high c \<Longrightarrow> \<not> is_low c \<Longrightarrow> paired (a @ c # b) \<Longrightarrow>
     paired a \<and> paired b \<and> scalars (a @ c # b) = scalars a @ unat c # scalars b"
proof (induction a rule: paired.induct)
  case 1
  then show ?case by (cases b) auto
next
  case (2 x)
  then show ?case by (cases b) (auto split: if_splits)
next
  case (3 x y s)
  then show ?case by (auto split: if_splits)
qed

lemma paired_marks:
  "paired (a @ 35 # b) \<Longrightarrow> paired a \<and> paired b \<and> scalars (a @ 35 # b) = scalars a @ 35 # scalars b"
  "paired (a @ 38 # b) \<Longrightarrow> paired a \<and> paired b \<and> scalars (a @ 38 # b) = scalars a @ 38 # scalars b"
  using paired_sep [of 35 a b] paired_sep [of 38 a b] by (simp_all add: unat_high unat_low)

lemma split_first:
  assumes "c \<in> set q"
  obtains a b where "q = a @ c # b" "c \<notin> set a" "takeWhile (\<lambda>d. d \<noteq> c) q = a"
proof -
  obtain a b where q: "q = a @ c # b" "c \<notin> set a" using split_list_first [OF assms] by auto
  then have "takeWhile (\<lambda>d. d \<noteq> c) q = a" by (auto simp: takeWhile_append takeWhile_eq_all_conv)
  with q show ?thesis by (rule that)
qed

lemma takeWhile_none: "c \<notin> set q \<Longrightarrow> takeWhile (\<lambda>d. d \<noteq> c) q = q"
  by (auto simp: takeWhile_eq_all_conv)

lemma paired_takeWhile:
  assumes "paired q" "c \<in> {35, 38}"
  shows "paired (takeWhile (\<lambda>d. d \<noteq> c) q)"
proof (cases "c \<in> set q")
  case True
  then obtain a b where q: "q = a @ c # b" "takeWhile (\<lambda>d. d \<noteq> c) q = a" by (rule split_first)
  then have "paired a" using assms paired_marks [of a b] by blast
  then show ?thesis by (simp only: q(2))
qed (simp add: takeWhile_none assms(1))

text \<open>Units that the browser sends as they are.\<close>

definition quiet :: "jstr \<Rightarrow> bool" where
  "quiet s \<longleftrightarrow> (\<forall>c \<in> set s. \<not> query_escaped (unat c))"

lemma quiet_append [simp]: "quiet (s @ t) \<longleftrightarrow> quiet s \<and> quiet t"
  by (auto simp: quiet_def)

lemma quiet_sent: "quiet s \<Longrightarrow> concat (map (\<lambda>c. query_units (unat c)) s) = s"
  by (induction s) (auto simp: quiet_def query_units_def)

lemma quiet_units: "quiet s \<Longrightarrow> plain s \<and> 35 \<notin> set s \<and> filter (\<lambda>c. c \<notin> {9, 10, 13}) s = s"
  by (induction s) (auto simp: quiet_def plain_def query_escaped_def)

lemma sent_query_plain:
  assumes "plain s" "35 \<notin> set s" "filter (\<lambda>c. c \<notin> {9, 10, 13}) s = s"
  shows "sent_query s = concat (map (\<lambda>c. query_units (unat c)) s)"
    "sent_query (s @ 35 # t) = concat (map (\<lambda>c. query_units (unat c)) s)"
proof -
  have "takeWhile (\<lambda>c. c \<noteq> 35) s = s" "\<And>u. takeWhile (\<lambda>c. c \<noteq> 35) (s @ 35 # u) = s"
    using assms(2) by (auto simp: takeWhile_append takeWhile_eq_all_conv)
  then show "sent_query s = concat (map (\<lambda>c. query_units (unat c)) s)"
    "sent_query (s @ 35 # t) = concat (map (\<lambda>c. query_units (unat c)) s)"
    using assms(3) by (simp_all add: sent_query_def scalars_plain [OF assms(1)] comp_def)
qed

lemma uri_quiet:
  assumes "paired a" "35 \<notin> set a"
  shows "plain (concat (map uri_units (scalars a)))" "35 \<notin> set (concat (map uri_units (scalars a)))"
    "filter (\<lambda>c. c \<notin> {9, 10, 13}) (concat (map uri_units (scalars a))) = concat (map uri_units (scalars a))"
proof -
  let ?e = "concat (map uri_units (scalars a))"
  have e: "encodeURI a = Inr ?e" using assms(1) by (simp add: encodeURI_def)
  show p: "plain ?e" by (rule encodeURI_plain [OF e])
  have n: "n \<noteq> 35" if "n \<in> set (scalars a)" for n using scalar_unit [OF assms(1) that] assms(2) by auto
  have "c \<in> {39} \<or> \<not> query_escaped (unat c)" if c: "c \<in> set ?e" for c
  proof -
    obtain n where n': "n \<in> set (scalars a)" "c \<in> set (uri_units n)" using c by auto
    have "uri_units 39 = [39]" by code_simp
    then show ?thesis using escaped_in_uri [OF n'(2)] scalars_ok [of a] n [OF n'(1)] n' by auto
  qed
  then have q: "c = 39 \<or> \<not> query_escaped (unat c)" if "c \<in> set ?e" for c using that by blast
  then show "35 \<notin> set ?e" using q [of 35] by (auto simp: query_escaped_def)
  show "filter (\<lambda>c. c \<notin> {9, 10, 13}) ?e = ?e"
    by (rule filter_True) (use q in \<open>fastforce simp: query_escaped_def\<close>)
qed

text \<open>What is sent of an encoded text between two quiet ones: up to its first \<open>#\<close>.\<close>

lemma sent_query_uri:
  assumes e: "encodeURI q = Inr e" and k: "quiet k" and r: "quiet rest"
  shows "sent_query (k @ e @ rest) =
    k @ (if 35 \<in> set q then sent_text (takeWhile (\<lambda>c. c \<noteq> 35) q) else sent_text q @ rest)"
proof -
  have pq: "paired q" "e = concat (map uri_units (scalars q))" using e by (auto simp: encodeURI_def split: if_splits)
  have no: "n \<noteq> 35" if "35 \<notin> set a" "paired a" "n \<in> set (scalars a)" for a n
    using scalar_unit [OF that(2,3)] that(1) by auto
  have sent: "concat (map (\<lambda>c. query_units (unat c)) (concat (map uri_units (scalars a)))) = sent_text a"
    if "paired a" "35 \<notin> set a" for a
    using query_uri [of "scalars a"] scalars_ok [of a] no [OF that(2,1)] by (auto simp: sent_text_def)
  note qu = quiet_units [OF k] quiet_units [OF r]
  show ?thesis
  proof (cases "35 \<in> set q")
    case True
    then obtain a b where q: "q = a @ 35 # b" "35 \<notin> set a" and t: "takeWhile (\<lambda>c. c \<noteq> 35) q = a" by (rule split_first)
    have a: "paired a" "scalars q = scalars a @ 35 # scalars b" using paired_marks(1) [of a b] pq(1) q(1) by simp_all
    have "uri_units 35 = [35]" by code_simp
    then have s: "k @ e @ rest = (k @ concat (map uri_units (scalars a))) @ 35 # concat (map uri_units (scalars b)) @ rest"
      by (simp add: pq(2) a(2))
    show ?thesis unfolding s
      by (subst sent_query_plain(2)) (use True uri_quiet [OF a(1) q(2)] qu sent [OF a(1) q(2)] quiet_sent [OF k] t in
          \<open>auto simp: plain_def\<close>)
  next
    case False
    show ?thesis
      by (subst sent_query_plain(1)) (use False uri_quiet [OF pq(1) False] qu sent [OF pq(1) False] quiet_sent [OF k]
          quiet_sent [OF r] pq(2) in \<open>auto simp: plain_def\<close>)
  qed
qed

text \<open>The parts of the search: the texts of the numbers hold no separator.\<close>

lemma sent_text_parts:
  assumes "paired a"
  shows "\<exists>parts. split_at 38 (sent_text a @ r) = (sent_text (takeWhile (\<lambda>c. c \<noteq> 38) a) @ fst parts) # snd parts \<and>
    (38 \<in> set a \<longrightarrow> fst parts = []) \<and> (38 \<notin> set a \<longrightarrow> fst parts # snd parts = split_at 38 r)"
proof (cases "38 \<in> set a")
  case True
  then obtain b c where a: "a = b @ 38 # c" "38 \<notin> set b" and t: "takeWhile (\<lambda>c. c \<noteq> 38) a = b" by (rule split_first)
  then have p: "paired b" "scalars a = scalars b @ 38 # scalars c" using paired_marks(2) [of b c] assms by simp_all
  have "sent_units 38 = [38]" by code_simp
  then have "sent_text a @ r = sent_text b @ 38 # concat (map sent_units (scalars c)) @ r"
    by (simp add: sent_text_def p(2))
  then show ?thesis using split_at_append [OF sent_text_amp [OF p(1) a(2)]] True t by auto
next
  case False
  then have "takeWhile (\<lambda>c. c \<noteq> 38) a = a" by (rule takeWhile_none)
  moreover have "38 \<notin> set s \<Longrightarrow> split_at 38 (s @ r) = (s @ hd (split_at 38 r)) # tl (split_at 38 r) \<and> split_at 38 r \<noteq> []" for s
    by (induction s; cases r) (auto split: list.splits)
  ultimately show ?thesis using sent_text_amp [OF assms False] False by (intro exI [of _ "(hd (split_at 38 r), tl (split_at 38 r))"]) auto
qed

definition search_text :: "jstr \<Rightarrow> jstr \<Rightarrow> jstr \<Rightarrow> jstr" where
  "search_text e x y = js ''tpmql='' @ e @ js ''&start='' @ x @ js ''&limit='' @ y"

lemma search_split:
  assumes e: "encodeURI q = Inr e" and x: "quiet x" "38 \<notin> set x" and y: "quiet y" "38 \<notin> set y"
  shows "\<exists>ps. split_at 38 (sent_query (search_text e x y)) =
      (js ''tpmql='' @ sent_text (takeWhile (\<lambda>c. c \<notin> {35, 38}) q)) # ps \<and>
    (38 \<notin> set (takeWhile (\<lambda>c. c \<noteq> 35) q) \<longrightarrow>
       ps = (if 35 \<in> set q then [] else [js ''start='' @ x, js ''limit='' @ y]))"
proof -
  define a where "a = takeWhile (\<lambda>c. c \<noteq> 35) q"
  define r where "r = (if 35 \<in> set q then [] else js ''&start='' @ x @ js ''&limit='' @ y)"
  have "paired q" using e by (auto simp: encodeURI_def split: if_splits)
  then have pa: "paired a" using paired_takeWhile [of q 35] by (simp add: a_def)
  have k: "quiet (js ''tpmql='')" "quiet (js ''&start='')" "quiet (js ''&limit='')" by code_simp+
  have s: "sent_query (search_text e x y) = js ''tpmql='' @ sent_text a @ r"
    using sent_query_uri [OF e k(1), of "js ''&start='' @ x @ js ''&limit='' @ y"] k x(1) y(1) takeWhile_none [of 35 q]
    by (auto simp: search_text_def a_def r_def)
  obtain p ps where parts: "split_at 38 (sent_text a @ r) = (sent_text (takeWhile (\<lambda>c. c \<noteq> 38) a) @ p) # ps"
      "38 \<in> set a \<longrightarrow> p = []" "38 \<notin> set a \<longrightarrow> p # ps = split_at 38 r"
    using sent_text_parts [OF pa, of r] by force
  have "split_at 38 ((js ''start='' @ x) @ 38 # js ''limit='' @ y) = [js ''start='' @ x, js ''limit='' @ y]"
    by (subst split_at_append, use x(2) in \<open>simp add: js_def\<close>, subst split_at_none, use y(2) in \<open>simp add: js_def\<close>, simp)
  then have r1: "split_at 38 r = (if 35 \<in> set q then [[]] else [[], js ''start='' @ x, js ''limit='' @ y])"
    by (simp add: r_def js_def)
  then have "p = []" using parts(2,3) by (cases "38 \<in> set a") (auto split: if_splits)
  moreover have "takeWhile (\<lambda>c. c \<noteq> 38) a = takeWhile (\<lambda>c. c \<notin> {35, 38}) q" unfolding a_def by (induction q) auto
  ultimately have "split_at 38 (sent_query (search_text e x y)) =
      (js ''tpmql='' @ sent_text (takeWhile (\<lambda>c. c \<notin> {35, 38}) q)) # ps"
    using parts(1) by (simp only: s) (simp add: js_def)
  then show ?thesis using parts(3) r1 unfolding a_def by (auto split: if_splits)
qed

lemma search_sent:
  assumes e: "encodeURI q = Inr e"
    and x: "quiet x" "37 \<notin> set x" "38 \<notin> set x" and y: "quiet y" "37 \<notin> set y" "38 \<notin> set y"
  shows "query_part (hd (split_at 38 (sent_query (search_text e x y)))) =
      Some (js ''tpmql'', map plus_unit (takeWhile (\<lambda>c. c \<notin> {35, 38}) q))"
    "38 \<notin> set (takeWhile (\<lambda>c. c \<noteq> 35) q) \<Longrightarrow> queryToMap (sent_query (search_text e x y)) =
       Some (if 35 \<in> set q then [js ''tpmql'' \<mapsto> map plus_unit (takeWhile (\<lambda>c. c \<noteq> 35) q)]
             else [js ''tpmql'' \<mapsto> map plus_unit q, js ''start'' \<mapsto> map plus_unit x, js ''limit'' \<mapsto> map plus_unit y])"
proof -
  let ?a = "takeWhile (\<lambda>c. c \<noteq> 35) q" and ?b = "takeWhile (\<lambda>c. c \<notin> {35, 38}) q"
  obtain ps where ps: "split_at 38 (sent_query (search_text e x y)) = (js ''tpmql='' @ sent_text ?b) # ps"
      "38 \<notin> set ?a \<longrightarrow> ps = (if 35 \<in> set q then [] else [js ''start='' @ x, js ''limit='' @ y])"
    using search_split [OF e x(1,3) y(1,3)] by blast
  have "paired q" using e by (auto simp: encodeURI_def split: if_splits)
  moreover have b: "takeWhile (\<lambda>c. c \<noteq> 38) ?a = ?b" by (induction q) auto
  ultimately have pb: "paired ?b" using paired_takeWhile [of q 35] paired_takeWhile [of ?a 38] by simp
  have key: "query_part (js ''tpmql='' @ v) = Some (js ''tpmql'', w)" "query_part (js ''start='' @ v) = Some (js ''start'', w)"
      "query_part (js ''limit='' @ v) = Some (js ''limit'', w)" if "url_decode v = Some w" for v w
    using query_part_value [of "js ''tpmql''", OF _ _ _ that] query_part_value [of "js ''start''", OF _ _ _ that]
      query_part_value [of "js ''limit''", OF _ _ _ that] by (simp_all add: js_def)
  note first = key(1) [OF sent_text_ok(3) [OF pb]]
  show "query_part (hd (split_at 38 (sent_query (search_text e x y)))) = Some (js ''tpmql'', map plus_unit ?b)"
    unfolding ps(1) list.sel by (rule first)
  note starts = key(2) [OF url_decode_plain [OF x(2)]] key(3) [OF url_decode_plain [OF y(2)]]
  assume no: "38 \<notin> set ?a"
  have ba: "?b = ?a" by (rule trans [OF b [symmetric] takeWhile_none [OF no]])
  have "queryToMap (sent_query (search_text e x y)) =
      put_parts ((js ''tpmql='' @ sent_text ?b) # (if 35 \<in> set q then [] else [js ''start='' @ x, js ''limit='' @ y])) Map.empty"
    unfolding queryToMap_def ps(1) using ps(2) no by (simp add: js_def)
  then have "queryToMap (sent_query (search_text e x y)) =
       Some (if 35 \<in> set q then [js ''tpmql'' \<mapsto> map plus_unit ?a]
             else [js ''tpmql'' \<mapsto> map plus_unit ?a, js ''start'' \<mapsto> map plus_unit x, js ''limit'' \<mapsto> map plus_unit y])"
    unfolding ba
    by (cases "35 \<in> set q")
      (simp_all only: put_parts.simps if_True if_False option.case prod.case first [unfolded ba] starts simp_thms)
  moreover have "35 \<notin> set q \<Longrightarrow> ?a = q" by (rule takeWhile_none)
  ultimately show "queryToMap (sent_query (search_text e x y)) =
       Some (if 35 \<in> set q then [js ''tpmql'' \<mapsto> map plus_unit ?a]
             else [js ''tpmql'' \<mapsto> map plus_unit q, js ''start'' \<mapsto> map plus_unit x, js ''limit'' \<mapsto> map plus_unit y])"
    by (cases "35 \<in> set q") (simp_all only: if_True if_False simp_thms)
qed

end
