(* ===== verification/Upload.thy ===== *)
theory Upload
  imports Requests Params Forms
begin

section \<open>Uploads and downloads\<close>

text \<open>
  The upload functions of \<open>utils.js\<close>: a chosen file is remembered (\<open>currentFileData\<close>) when the page
  shows its name in a box, and sent by a button: its address, type and mode come from the address
  of the page or from the attributes of the input.  Also \<open>downloadURI\<close> and the \<open>json-enc\<close> extension of
  htmx.
\<close>

subsection \<open>The code\<close>

text \<open>The loop of \<open>find_child_within_tree\<close>, with the iterations that are left.\<close>

fun find_loop :: "nat \<Rightarrow> nat option \<Rightarrow> jstr \<Rightarrow> nat option js_prog" where
  "find_loop n parent selector =
     (if n = 0 then ret None
      else bnd (non_null parent) (\<lambda>p.
           bnd (query_selector p selector) (\<lambda>outputPath.
             case outputPath of
               None \<Rightarrow> bnd (parent_node p) (\<lambda>q. find_loop (n - 1) q selector)
             | Some a \<Rightarrow> ret (Some a))))"

declare find_loop.simps [simp del]

definition find_child_within_tree :: "nat option \<Rightarrow> jstr \<Rightarrow> nat option js_prog" where
  "find_child_within_tree item selector =
     bnd (non_null item) (\<lambda>i. bnd (parent_node i) (\<lambda>parent. find_loop 10 parent selector))"

text \<open>A parameter of the page, or else an attribute of the input.\<close>

definition setting :: "nat option \<Rightarrow> string \<Rightarrow> jstr option js_prog" where
  "setting evt name =
     bnd (gets (\<lambda>w. get_param (search w) (js name))) (\<lambda>p.
       case p of
         None \<Rightarrow> bnd (non_null evt) (\<lambda>target. gets (attribute target name))
       | Some v \<Rightarrow> ret (Some v))"

definition first_file :: "nat option \<Rightarrow> upload option js_prog" where
  "first_file evt =
     bnd (non_null evt) (\<lambda>target w.
       if role (node_at w target) = FileInput
       then (Inr (case files (node_at w target) of [] \<Rightarrow> None | f # _ \<Rightarrow> Some f), w)
       else (Inl TypeError, w))"

definition output_of :: "nat option \<Rightarrow> string \<Rightarrow> nat option js_prog" where
  "output_of evt suffix =
     bnd (non_null evt) (\<lambda>target.
     bnd (gets (\<lambda>w. ident (node_at w target))) (\<lambda>i.
       find_child_within_tree evt (js ''#'' @ i @ js suffix)))"

definition file_val :: "upload option \<Rightarrow> val" where
  "file_val f = (case f of None \<Rightarrow> Undefined | Some _ \<Rightarrow> Str (js ''[object File]''))"

definition async_file_send :: "unit js_prog" where
  "async_file_send =
     bnd (gets current_file) (\<lambda>evt.
     bnd (setting evt ''path'') (\<lambda>path.
     bnd (setting evt ''contentType'') (\<lambda>contentType.
     bnd (setting evt ''binary'') (\<lambda>bin.
       let binary = (case bin of None \<Rightarrow> True | Some s \<Rightarrow> s \<noteq> []);
           mime = (case contentType of
                     None \<Rightarrow> if binary then js ''application/octet-stream'' else js ''text/plain''
                   | Some t \<Rightarrow> t)
       in
     bnd (output_of evt ''Output'') (\<lambda>out.
     bnd (output_of evt ''Code'') (\<lambda>code.
     bnd (first_file evt) (\<lambda>fl_file.
     seq (log_at ''info'' [Str (js ''. file reader load''), file_val fl_file])
         (case fl_file of
            None \<Rightarrow> throw TypeError
          | Some f \<Rightarrow> modify (\<lambda>w. w\<lparr>readers := readers w @
              [\<lparr>read_file = f, read_binary = binary,
                read_path = (case path of None \<Rightarrow> js ''null'' | Some p \<Rightarrow> p),
                read_type = mime, read_output = out, read_code = code\<rparr>]\<rparr>)))))))))"

text \<open>\<open>display_file\<close>, when the reader has the file.\<close>

definition display_file :: "reader \<Rightarrow> unit js_prog" where
  "display_file r =
     seq (log_at ''info'' [Str (js ''. . got: ''),
            if read_binary r then Undefined else Num (round_num False (length (file_text (read_file r))) 1),
            Str (js ''[object ProgressEvent]'')])
         (send_file (read_path r)
            (if read_binary r then BytesBody (file_bytes (read_file r)) else TextBody (file_text (read_file r)))
            (read_type r) (read_output r) (read_code r))"

text \<open>The event: the \<open>n\<close>-th reader has finished.\<close>

definition reader_load :: "nat \<Rightarrow> unit js_prog" where
  "reader_load n =
     (\<lambda>w. if n < length (readers w)
          then display_file (readers w ! n) (w\<lparr>readers := take n (readers w) @ drop (Suc n) (readers w)\<rparr>)
          else (Inr (), w))"

definition async_file_clean :: "jstr \<Rightarrow> unit js_prog" where
  "async_file_clean item =
     bnd (gets (\<lambda>w. element_by_id w item)) (\<lambda>target.
     bnd (find_child_within_tree target (js ''#'' @ item @ js ''File'')) (\<lambda>outputPath.
     seq (case outputPath of None \<Rightarrow> ret () | Some a \<Rightarrow> assign_value a (Str []))
         (modify (\<lambda>w. w\<lparr>current_file := None\<rparr>))))"

definition handle_file_select :: "nat \<Rightarrow> unit js_prog" where
  "handle_file_select evt =
     seq (log_at ''info'' [Str (js ''[Event] file chooser'')])
    (bnd (output_of (Some evt) ''File'') (\<lambda>outputPath.
       case outputPath of
         None \<Rightarrow> async_file_send
       | Some a \<Rightarrow> bnd (gets (\<lambda>w. get_value (node_at w evt))) (\<lambda>v.
           seq (assign_value a v) (modify (\<lambda>w. w\<lparr>current_file := Some evt\<rparr>)))))"

definition click_link :: "nat \<Rightarrow> unit js_prog" where
  "click_link a = modify (\<lambda>w. w\<lparr>clicks := clicks w @ [a]\<rparr>)"

definition downloadURI :: "val \<Rightarrow> val \<Rightarrow> unit js_prog" where
  "downloadURI uri name =
     bnd create_element (\<lambda>link.
     seq (try_catch
            (seq (if \<not> nullish name
                  then (\<lambda>w. (Inr (), set_node link (\<lambda>n. n\<lparr>download := to_string (objs w) name\<rparr>) w))
                  else ret ())
            (seq (\<lambda>w. (Inr (), set_node link (\<lambda>n. n\<lparr>href := to_string (objs w) uri\<rparr>) w))
                 (click_link link)))
            (\<lambda>err. log_at ''log'' [Str (js ''[object Error]'')]))
         (remove_node link))"

text \<open>The extension \<open>json-enc\<close>: its event handler, with the object of the headers, and its encoder.\<close>

definition json_enc_event :: "jstr \<Rightarrow> nat \<Rightarrow> unit js_prog" where
  "json_enc_event name headers =
     (if name = js ''htmx:configRequest''
      then put_member headers (js ''Content-Type'') (Str (js ''application/json''))
      else ret ())"

definition json_enc_parameters :: "nat \<Rightarrow> val \<Rightarrow> val js_prog" where
  "json_enc_parameters xhr parameters = seq (override_mime xhr (js ''text/json'')) (json_stringify parameters)"

subsection \<open>The nearest ancestor\<close>

text \<open>What the loop computes: the first \<open>n\<close> ancestors, and the first of them that has a match.\<close>

fun ancestors :: "world \<Rightarrow> nat \<Rightarrow> nat option \<Rightarrow> nat list" where
  "ancestors w n parent =
     (if n = 0 then [] else case parent of None \<Rightarrow> [] | Some p \<Rightarrow> p # ancestors w (n - 1) (parent_of p (forest w)))"

declare ancestors.simps [simp del]

definition first_match :: "world \<Rightarrow> simple_selector list \<Rightarrow> nat \<Rightarrow> nat option" where
  "first_match w sel a = find (selector_matches w sel) (descendants w a)"

definition nearest :: "world \<Rightarrow> nat \<Rightarrow> simple_selector list \<Rightarrow> nat option \<Rightarrow> exn + nat option" where
  "nearest w n sel parent =
     (case find (\<lambda>a. first_match w sel a \<noteq> None) (ancestors w n parent) of
        Some a \<Rightarrow> Inr (first_match w sel a)
      | None \<Rightarrow> if length (ancestors w n parent) < n then Inl TypeError else Inr None)"

lemma find_loop_nearest:
  "parse_selector s = Some sel \<Longrightarrow> find_loop n parent s w = (nearest w n sel parent, w)"
proof (induction n arbitrary: parent)
  case 0
  then show ?case by (simp add: find_loop.simps ancestors.simps nearest_def ret_def)
next
  case (Suc n)
  show ?case
  proof (cases parent)
    case None
    then show ?thesis
      by (simp add: find_loop.simps ancestors.simps nearest_def non_null_def prog_simps)
  next
    case (Some p)
    have q: "query_selector p s w = (Inr (first_match w sel p), w)"
      using Suc.prems by (simp add: query_selector_def first_match_def gets_def)
    have up: "ancestors w (Suc n) (Some p) = p # ancestors w n (parent_of p (forest w))"
      by (simp add: ancestors.simps [of w "Suc n"])
    show ?thesis
    proof (cases "first_match w sel p")
      case None
      then show ?thesis using Suc.IH [OF Suc.prems] q up
        by (simp add: find_loop.simps [of "Suc n"] \<open>parent = Some p\<close> non_null_def bnd_Inr parent_node_def nearest_def)
    next
      case (Some b)
      then show ?thesis using q up
        by (simp add: find_loop.simps [of "Suc n"] \<open>parent = Some p\<close> non_null_def bnd_Inr nearest_def ret_def)
    qed
  qed
qed

lemma find_child_nearest:
  "parse_selector s = Some sel \<Longrightarrow>
     find_child_within_tree (Some i) s w = (nearest w 10 sel (parent_of i (forest w)), w)"
  by (simp add: find_child_within_tree_def non_null_def parent_node_def find_loop_nearest)

lemma find_child_value:
  "find_child_within_tree item s w =
    (case item of
       None \<Rightarrow> Inl TypeError
     | Some i \<Rightarrow>
         (case parse_selector s of
            Some sel \<Rightarrow> nearest w 10 sel (parent_of i (forest w))
          | None \<Rightarrow> if parent_of i (forest w) = None then Inl TypeError else Inl (DOMException ''SyntaxError'')), w)"
proof (cases item)
  case None
  then show ?thesis by (simp add: find_child_within_tree_def non_null_def prog_simps)
next
  case (Some i)
  show ?thesis
  proof (cases "parse_selector s")
    case None
    then show ?thesis
      using Some by (cases "parent_of i (forest w)")
        (simp_all add: find_child_within_tree_def non_null_def parent_node_def find_loop.simps
          query_selector_def prog_simps)
  next
    case (Some sel)
    then show ?thesis using find_child_nearest [OF Some] \<open>item = Some i\<close> by simp
  qed
qed

lemma ancestors_cong: "forest w = forest v \<Longrightarrow> ancestors w n p = ancestors v n p"
  by (induction n arbitrary: p) (simp_all add: ancestors.simps split: option.split)

text \<open>The search reads the tree, the nodes and the mode of the document only.\<close>

lemma find_child_cong:
  assumes "forest v = forest w" "nodes v = nodes w" "quirks v = quirks w"
  shows "find_child_within_tree item s v = (fst (find_child_within_tree item s w), v)"
proof -
  have m: "selector_matches v = selector_matches w"
    using assms by (intro ext) (simp add: selector_matches_def node_at_def)
  have f: "first_match v = first_match w"
    using assms by (intro ext) (simp add: first_match_def descendants_def m)
  have "nearest v = nearest w"
    unfolding nearest_def f using ancestors_cong [OF assms(1)] by (intro ext) simp
  then show ?thesis using assms by (auto simp: find_child_value split: option.split)
qed

subsection \<open>Sending a file\<close>

text \<open>What an upload uses: a parameter of the page, else an attribute of the input.\<close>

definition chosen :: "world \<Rightarrow> nat \<Rightarrow> string \<Rightarrow> jstr option" where
  "chosen w t name = (case get_param (search w) (js name) of Some v \<Rightarrow> Some v | None \<Rightarrow> attribute t name w)"

definition as_binary :: "world \<Rightarrow> nat \<Rightarrow> bool" where
  "as_binary w t \<longleftrightarrow> chosen w t ''binary'' \<noteq> Some []"

definition mime_of :: "world \<Rightarrow> nat \<Rightarrow> jstr" where
  "mime_of w t =
     (case chosen w t ''contentType'' of
        Some c \<Rightarrow> c | None \<Rightarrow> if as_binary w t then js ''application/octet-stream'' else js ''text/plain'')"

definition path_of :: "world \<Rightarrow> nat \<Rightarrow> jstr" where
  "path_of w t = (case chosen w t ''path'' of Some p \<Rightarrow> p | None \<Rightarrow> js ''null'')"

definition output_selector :: "world \<Rightarrow> nat \<Rightarrow> string \<Rightarrow> jstr" where
  "output_selector w t suffix = js ''#'' @ ident (node_at w t) @ js suffix"

lemma output_selector_cong: "nodes v = nodes w \<Longrightarrow> output_selector v = output_selector w"
  by (simp add: output_selector_def node_at_def fun_eq_iff)

definition new_reader :: "world \<Rightarrow> nat \<Rightarrow> upload \<Rightarrow> nat option \<Rightarrow> nat option \<Rightarrow> reader" where
  "new_reader w t f out code =
     \<lparr>read_file = f, read_binary = as_binary w t, read_path = path_of w t, read_type = mime_of w t,
      read_output = out, read_code = code\<rparr>"

lemma setting_chosen: "setting (Some t) name w = (Inr (chosen w t name), w)"
  by (simp add: setting_def chosen_def non_null_def prog_simps split: option.split)

lemma output_of_step: "output_of (Some t) suffix w = find_child_within_tree (Some t) (output_selector w t suffix) w"
  by (simp add: output_of_def output_selector_def non_null_def)

lemma send_starts_reader:
  assumes "current_file w = Some t" "role (node_at w t) = FileInput" "files (node_at w t) = f # fs"
    and "find_child_within_tree (Some t) (output_selector w t ''Output'') w = (Inr out, w)"
    and "find_child_within_tree (Some t) (output_selector w t ''Code'') w = (Inr code, w)"
  shows "async_file_send w =
    (Inr (), w\<lparr>console := console w @ [(''info'', [Str (js ''. file reader load''), file_val (Some f)])],
              readers := readers w @ [new_reader w t f out code]\<rparr>)"
proof -
  have bin: "(case chosen w t ''binary'' of None \<Rightarrow> True | Some s \<Rightarrow> s \<noteq> []) = as_binary w t"
    by (auto simp: as_binary_def split: option.split)
  have ff: "first_file (Some t) w = (Inr (Some f), w)"
    using assms(2,3) by (simp add: first_file_def non_null_def)
  show ?thesis
    using assms(1,4,5) ff
    by (simp add: async_file_send_def Let_def bnd_Inr setting_chosen output_of_step seq_Inr log_at_step
        bin new_reader_def mime_of_def path_of_def modify_def)
qed

definition payload_of :: "reader \<Rightarrow> payload" where
  "payload_of r =
     (if read_binary r then BytesBody (file_bytes (read_file r)) else TextBody (file_text (read_file r)))"

lemma display_file_step:
  assumes "url_ok w (read_path r)" "header_value (read_type r) = Inr ct"
  shows "\<exists>line. display_file r w = (Inr (), w\<lparr>console := console w @ [line], requests := requests w @
     [issued (js ''POST'') (read_path r) [(js ''Content-Type'', ct)] (payload_of r)
       (OnFile (read_path r) (read_type r) (read_output r) (read_code r))]\<rparr>)"
proof -
  have "url_ok (w\<lparr>console := c\<rparr>) (read_path r)" for c using assms(1) by simp
  then show ?thesis
    using send_file_ok [OF _ assms(2)] by (simp add: display_file_def seq_Inr log_at_step payload_of_def) blast
qed

subsection \<open>The upload of the storage page\<close>

text \<open>
  The part of \<open>storage.jte\<close> around its file input: \<open>html\<close>, \<open>body\<close>, five nested blocks, the form with
  the box and the input, each in a block of its own.
\<close>

definition picked :: upload where
  "picked = \<lparr>file_name = js ''a.zip'', file_bytes = [80, 75], file_text = js ''PK''\<rparr>"

definition storage_page :: world where
  "storage_page = sample_page\<lparr>
     nodes := [blank, blank, blank, blank, blank, blank\<lparr>ident := js ''accordion''\<rparr>, blank,
       blank\<lparr>ident := js ''collapseStorage''\<rparr>, blank, blank, blank,
       blank\<lparr>role := TextInput, ident := js ''uploadStorageFile'', stored := Str []\<rparr>, blank,
       blank\<lparr>role := FileInput, ident := js ''uploadStorage'', files := [picked],
         attrs := [(js ''contenttype'', js ''application/octet-stream''), (js ''binary'', js ''true''),
                   (js ''path'', js ''api/global/storage'')]\<rparr>],
     forest := [Node 0 [Node 1 [Node 2 [Node 3 [Node 4 [Node 5 [Node 6 [Node 7 [Node 8 [Node 9
       [Node 10 [Node 11 []], Node 12 [Node 13 []]]]]]]]]]]]],
     body := Some 2, pathname := js ''/storage''\<rparr>"

lemma storage_fields:
  "forest storage_page = [Node 0 [Node 1 [Node 2 [Node 3 [Node 4 [Node 5 [Node 6 [Node 7 [Node 8 [Node 9
     [Node 10 [Node 11 []], Node 12 [Node 13 []]]]]]]]]]]]]"
  "length (nodes storage_page) = 14" "quirks storage_page" "search storage_page = []"
  "url_ok storage_page p" "current_file storage_page = None" "objs storage_page = []"
  by (simp_all add: storage_page_def sample_page_def)

lemma storage_page_ok: "tree_ok storage_page"
proof -
  have "set [0, 1, 2, 3, 4, 5, 6, 7, 8, 9, 10, 11, 12, 13] = {..<14 :: nat}" by code_simp
  then show ?thesis by (simp add: tree_ok_def storage_fields)
qed

lemma storage_nodes:
  "node_at storage_page 11 = blank\<lparr>role := TextInput, ident := js ''uploadStorageFile'', stored := Str []\<rparr>"
  "node_at storage_page 13 = blank\<lparr>role := FileInput, ident := js ''uploadStorage'', files := [picked],
         attrs := [(js ''contenttype'', js ''application/octet-stream''), (js ''binary'', js ''true''),
                   (js ''path'', js ''api/global/storage'')]\<rparr>"
  by (simp_all add: storage_page_def node_at_def)

lemma storage_selectors:
  "parse_selector (js ''#uploadStorageOutput'') = Some [IdSel (js ''uploadStorageOutput'')]"
  "parse_selector (js ''#uploadStorageCode'') = Some [IdSel (js ''uploadStorageCode'')]"
  "parse_selector (js ''#uploadStorageFile'') = Some [IdSel (js ''uploadStorageFile'')]"
  by code_simp+

lemma storage_ident:
  assumes "a \<in> set [0, 1, 2, 3, 4, 5, 6, 7, 8, 9, 10, 11, 12, 13]"
  shows "ident (node_at storage_page a) =
     (if a = 5 then js ''accordion'' else if a = 7 then js ''collapseStorage''
      else if a = 11 then js ''uploadStorageFile'' else if a = 13 then js ''uploadStorage'' else [])"
proof -
  have "\<forall>a \<in> set [0, 1, 2, 3, 4, 5, 6, 7, 8, 9, 10, 11, 12, 13]. ident (node_at storage_page a) =
     (if a = 5 then js ''accordion'' else if a = 7 then js ''collapseStorage''
      else if a = 11 then js ''uploadStorageFile'' else if a = 13 then js ''uploadStorage'' else [])"
    by (simp add: storage_page_def node_at_def blank_def)
  then show ?thesis using assms by blast
qed

lemma selector_matches_id:
  "selector_matches w [IdSel s] a \<longleftrightarrow> same_name (quirks w) s (ident (node_at w a))"
  by (simp add: selector_matches_def)

lemma storage_match:
  assumes "a \<in> set [0, 1, 2, 3, 4, 5, 6, 7, 8, 9, 10, 11, 12, 13]"
  shows "selector_matches storage_page [IdSel s] a \<longleftrightarrow> map lower s = map lower
     (if a = 5 then js ''accordion'' else if a = 7 then js ''collapseStorage''
      else if a = 11 then js ''uploadStorageFile'' else if a = 13 then js ''uploadStorage'' else [])"
  unfolding selector_matches_id storage_ident [OF assms] by (simp add: same_name_def storage_fields)

lemma storage_names:
  "s \<in> {''uploadStorageOutput'', ''uploadStorageCode'', ''uploadStorageFile''} \<Longrightarrow>
     t \<in> {[], ''accordion'', ''collapseStorage'', ''uploadStorage''} \<Longrightarrow> map lower (js s) \<noteq> map lower (js t)"
  by (auto dest: arg_cong [of _ _ length])

lemma storage_up:
  "parent_of 13 (forest storage_page) = Some 12"
  "ancestors storage_page 10 (Some 12) = [12, 9, 8, 7, 6, 5, 4, 3, 2, 1]"
  by (simp_all add: storage_fields ancestors.simps parent_of_def)

lemma storage_below:
  "a \<in> {1, 2, 3, 4, 5, 6, 7, 8, 9, 12} \<Longrightarrow> descendants storage_page a = filter (\<lambda>b. a < b) [1, 2, 3, 4, 5, 6, 7, 8, 9, 10, 11, 12, 13]"
  by (auto simp: descendants_def below_def storage_fields)

lemma storage_none:
  assumes "s \<in> {''uploadStorageOutput'', ''uploadStorageCode''}" "a \<in> {1, 2, 3, 4, 5, 6, 7, 8, 9, 12}"
  shows "first_match storage_page [IdSel (js s)] a = None"
proof -
  have "map lower (js s) \<noteq> map lower (js ''uploadStorageFile'')"
    using assms(1) by (auto simp: js_def lower_def)
  then have no: "\<not> selector_matches storage_page [IdSel (js s)] b"
    if "b \<in> set [0, 1, 2, 3, 4, 5, 6, 7, 8, 9, 10, 11, 12, 13]" for b
    using storage_names [of s] assms(1) by (auto simp: storage_match [OF that] simp flip: js_Nil)
  have "set (descendants storage_page a) \<subseteq> set [0, 1, 2, 3, 4, 5, 6, 7, 8, 9, 10, 11, 12, 13]"
    unfolding storage_below [OF assms(2)] by auto
  then show ?thesis using no unfolding first_match_def find_None_iff by blast
qed

lemma storage_nearest:
  "nearest storage_page 10 [IdSel (js ''uploadStorageOutput'')] (Some 12) = Inr None"
  "nearest storage_page 10 [IdSel (js ''uploadStorageCode'')] (Some 12) = Inr None"
  "nearest storage_page 10 [IdSel (js ''uploadStorageFile'')] (Some 12) = Inr (Some 11)"
proof -
  have "first_match storage_page [IdSel (js ''uploadStorageFile'')] 12 = None"
    "first_match storage_page [IdSel (js ''uploadStorageFile'')] 9 = Some 11"
    using storage_names [of "''uploadStorageFile''"]
    by (auto simp: first_match_def storage_below storage_match simp flip: js_Nil)
  then show "nearest storage_page 10 [IdSel (js ''uploadStorageFile'')] (Some 12) = Inr (Some 11)"
    by (simp add: nearest_def storage_up)
qed (simp_all add: nearest_def storage_up storage_none)

subsection \<open>Properties\<close>

text \<open>C21: The search finds the first match below the nearest of ten ancestors that has one; without a
  match it is null after ten ancestors, and a TypeError when the tree ends earlier.\<close>

theorem find_nearest:
  assumes "parse_selector s = Some sel"
  shows "find_child_within_tree (Some i) s w =
    (case find (\<lambda>a. first_match w sel a \<noteq> None) (ancestors w 10 (parent_of i (forest w))) of
       Some a \<Rightarrow> (Inr (first_match w sel a), w)
     | None \<Rightarrow> (if length (ancestors w 10 (parent_of i (forest w))) < 10 then Inl TypeError else Inr None, w))"
  by (simp add: find_child_nearest [OF assms] nearest_def split: option.split)

lemma find_nearest_witness:
  "parse_selector (js ''#uploadStorageFile'') = Some [IdSel (js ''uploadStorageFile'')] \<and>
   find_child_within_tree (Some 13) (js ''#uploadStorageFile'') storage_page = (Inr (Some 11), storage_page)"
  using find_nearest [OF storage_selectors(3), of 13 storage_page] storage_selectors(3) storage_nearest(3)
  by (auto simp: nearest_def storage_up(1) split: option.splits if_splits)

definition storage_picked :: world where
  "storage_picked = storage_page\<lparr>current_file := Some 13\<rparr>"

lemma picked_frame:
  "node_at storage_picked = node_at storage_page" "forest storage_picked = forest storage_page"
  "search storage_picked = []" "current_file storage_picked = Some 13" "url_ok storage_picked p"
  by (simp_all add: storage_picked_def node_at_def storage_fields fun_eq_iff)

lemma picked_nearest: "find_child_within_tree i s storage_picked = (fst (find_child_within_tree i s storage_page), storage_picked)"
  by (rule find_child_cong) (simp_all add: storage_picked_def)

lemma picked_find:
  "find_child_within_tree (Some 13) (output_selector storage_picked 13 ''Output'') storage_picked = (Inr None, storage_picked)"
  "find_child_within_tree (Some 13) (output_selector storage_picked 13 ''Code'') storage_picked = (Inr None, storage_picked)"
proof -
  have "output_selector storage_picked 13 ''Output'' = js ''#uploadStorageOutput''"
    "output_selector storage_picked 13 ''Code'' = js ''#uploadStorageCode''"
    by (simp_all add: output_selector_def picked_frame storage_nodes flip: js_append)
  then show "find_child_within_tree (Some 13) (output_selector storage_picked 13 ''Output'') storage_picked = (Inr None, storage_picked)"
    "find_child_within_tree (Some 13) (output_selector storage_picked 13 ''Code'') storage_picked = (Inr None, storage_picked)"
    using find_child_nearest [OF storage_selectors(1), of 13 storage_page]
      find_child_nearest [OF storage_selectors(2), of 13 storage_page]
    by (simp_all add: picked_nearest storage_up storage_nearest)
qed

lemma picked_settings:
  "path_of storage_picked 13 = js ''api/global/storage''"
  "mime_of storage_picked 13 = js ''application/octet-stream''" "as_binary storage_picked 13"
proof -
  have l: "map lower (js ''path'') = js ''path''" "map lower (js ''contentType'') = js ''contenttype''"
    "map lower (js ''binary'') = js ''binary''" by code_simp+
  have "attribute 13 ''path'' storage_picked = Some (js ''api/global/storage'')"
    "attribute 13 ''contentType'' storage_picked = Some (js ''application/octet-stream'')"
    "attribute 13 ''binary'' storage_picked = Some (js ''true'')"
    by (simp_all add: attribute_def picked_frame storage_nodes l)
  then show "path_of storage_picked 13 = js ''api/global/storage''"
    "mime_of storage_picked 13 = js ''application/octet-stream''" "as_binary storage_picked 13"
    by (simp_all add: path_of_def mime_of_def as_binary_def chosen_def picked_frame)
qed

text \<open>C11: When a file is remembered and the boxes around its input are looked up without an
  exception, sending it makes one POST request: the address and type come from the parameters of
  the page or else from the attributes of the input, and the body is its bytes, or its text when
  binary is the empty string.\<close>

theorem upload_request:
  assumes cur: "current_file w = Some t" and ff: "role (node_at w t) = FileInput" "files (node_at w t) = f # fs"
    and out: "find_child_within_tree (Some t) (output_selector w t ''Output'') w = (Inr out, w)"
    and code: "find_child_within_tree (Some t) (output_selector w t ''Code'') w = (Inr code, w)"
    and url: "url_ok w (path_of w t)" and ct: "header_value (mime_of w t) = Inr ct"
  shows "\<exists>w'. seq async_file_send (reader_load (length (readers w))) w = (Inr (), w') \<and>
     requests w' = requests w @
       [issued (js ''POST'') (path_of w t) [(js ''Content-Type'', ct)]
          (if as_binary w t then BytesBody (file_bytes f) else TextBody (file_text f))
          (OnFile (path_of w t) (mime_of w t) out code)] \<and>
     readers w' = readers w \<and> nodes w' = nodes w \<and> forest w' = forest w \<and> current_file w' = Some t"
proof -
  let ?r = "new_reader w t f out code"
  let ?u = "w\<lparr>console := console w @ [(''info'', [Str (js ''. file reader load''), file_val (Some f)])]\<rparr>"
  have r: "read_path ?r = path_of w t" "read_type ?r = mime_of w t" "read_output ?r = out" "read_code ?r = code"
      "payload_of ?r = (if as_binary w t then BytesBody (file_bytes f) else TextBody (file_text f))"
    by (simp_all add: new_reader_def payload_of_def)
  have run: "seq async_file_send (reader_load (length (readers w))) w = display_file ?r ?u"
    by (simp add: seq_Inr [where m = async_file_send, OF send_starts_reader [OF cur ff out code]] reader_load_def)
  obtain line where "display_file ?r ?u = (Inr (), ?u\<lparr>console := console ?u @ [line], requests := requests ?u @
     [issued (js ''POST'') (read_path ?r) [(js ''Content-Type'', ct)] (payload_of ?r)
       (OnFile (read_path ?r) (read_type ?r) (read_output ?r) (read_code ?r))]\<rparr>)"
    using display_file_step [of ?u ?r ct] url ct r by auto
  then show ?thesis using cur by (simp add: run r)
qed


lemma upload_request_witness:
  "\<exists>w'. seq async_file_send (reader_load 0) storage_picked = (Inr (), w') \<and>
     requests w' = [issued (js ''POST'') (js ''api/global/storage'')
       [(js ''Content-Type'', js ''application/octet-stream'')] (BytesBody [80, 75])
       (OnFile (js ''api/global/storage'') (js ''application/octet-stream'') None None)]"
proof -
  have "header_value (js ''application/octet-stream'') = Inr (js ''application/octet-stream'')"
    by (simp add: header_value_def js_def strip_blanks_def)
  moreover have "readers storage_picked = []" "requests storage_picked = []"
    by (simp_all add: storage_picked_def storage_page_def sample_page_def)
  ultimately show ?thesis
    using upload_request [of storage_picked 13 picked "[]" None None "js ''application/octet-stream''"]
    by (auto simp: picked_frame storage_nodes picked_find picked_settings picked_def)
qed

text \<open>Choosing a file on an input with a box shows the path of the file in the box and remembers the
  input; nothing is sent.\<close>

lemma select_remembers:
  assumes ff: "role (node_at w t) = FileInput" "files (node_at w t) = f # fs"
    and box: "find_child_within_tree (Some t) (output_selector w t ''File'') w = (Inr (Some b), w)"
    and b: "role (node_at w b) = TextInput" "b < length (nodes w)"
  shows "\<exists>w'. handle_file_select t w = (Inr (), w') \<and> current_file w' = Some t \<and>
     stored (node_at w' b) = Str (filter (\<lambda>c. c \<noteq> 10 \<and> c \<noteq> 13) (js ''C:'' @ 92 # js ''fakepath'' @ 92 # file_name f)) \<and>
     (\<forall>a. a \<noteq> b \<longrightarrow> node_at w' a = node_at w a) \<and> requests w' = requests w \<and> readers w' = readers w"
proof -
  let ?v = "w\<lparr>console := console w @ [(''info'', [Str (js ''[Event] file chooser'')])]\<rparr>"
  have find: "find_child_within_tree (Some t) (output_selector ?v t ''File'') ?v = (Inr (Some b), ?v)"
    using find_child_cong [of ?v w] box output_selector_cong [of ?v w] by simp
  show ?thesis
    using ff b
    by (simp add: handle_file_select_def seq_Inr log_at_step bnd_Inr output_of_step find assign_value_def
        set_value_def get_value_def legacy_text_def modify_def node_set_node)
qed

lemma select_remembers_witness:
  "\<exists>w'. handle_file_select 13 storage_page = (Inr (), w') \<and> current_file w' = Some 13 \<and>
     stored (node_at w' 11) = Str (js ''C:'' @ 92 # js ''fakepath'' @ 92 # js ''a.zip'')"
proof -
  have "output_selector storage_page 13 ''File'' = js ''#uploadStorageFile''"
    by (simp add: output_selector_def storage_nodes flip: js_append)
  then have "find_child_within_tree (Some 13) (output_selector storage_page 13 ''File'') storage_page = (Inr (Some 11), storage_page)"
    using find_child_nearest [OF storage_selectors(3), of 13 storage_page] by (simp add: storage_up storage_nearest)
  moreover have "filter (\<lambda>c. c \<noteq> 10 \<and> c \<noteq> 13) (js ''C:'' @ 92 # js ''fakepath'' @ 92 # js ''a.zip'') =
      js ''C:'' @ 92 # js ''fakepath'' @ 92 # js ''a.zip''" by code_simp
  ultimately show ?thesis
    using select_remembers [of storage_page 13 picked "[]" 11]
    by (auto simp: storage_nodes storage_fields picked_def)
qed

text \<open>Without a remembered event the upload throws before it does anything.\<close>

lemma send_without_file:
  assumes "current_file w = None"
  shows "async_file_send w = (Inl TypeError, w)"
proof -
  have s: "setting None name w = (case get_param (search w) (js name) of None \<Rightarrow> Inl TypeError | Some v \<Rightarrow> Inr (Some v), w)" for name
    by (simp add: setting_def non_null_def prog_simps split: option.split)
  have o: "output_of None suffix w = (Inl TypeError, w)" for suffix
    by (simp add: output_of_def non_null_def prog_simps)
  show ?thesis
    using assms by (simp add: async_file_send_def bnd_def gets_def Let_def s o split: option.split)
qed

text \<open>C35: Cleaning empties the box and forgets the event but leaves the chosen file in the input:
  sending afterwards throws a TypeError and sends nothing.\<close>

theorem clean_forgets:
  assumes el: "element_by_id w i = Some t"
    and box: "find_child_within_tree (Some t) (js ''#'' @ i @ js ''File'') w = (Inr (Some b), w)"
    and b: "role (node_at w b) = TextInput" "b < length (nodes w)" "b \<noteq> t"
  shows "\<exists>w'. async_file_clean i w = (Inr (), w') \<and> stored (node_at w' b) = Str [] \<and>
     files (node_at w' t) = files (node_at w t) \<and> current_file w' = None \<and>
     async_file_send w' = (Inl TypeError, w') \<and> requests w' = requests w \<and> readers w' = readers w"
proof -
  let ?w = "(set_node b (\<lambda>n. n\<lparr>stored := Str []\<rparr>) w)\<lparr>current_file := None\<rparr>"
  have "assign_value b (Str []) w = (Inr (), set_node b (\<lambda>n. n\<lparr>stored := Str []\<rparr>) w)"
    using b(1) by (simp add: assign_value_def set_value_def legacy_text_def set_node_def node_at_def)
  then have "async_file_clean i w = (Inr (), ?w)"
    using el by (simp add: async_file_clean_def bnd_Inr box seq_Inr modify_def)
  moreover have "async_file_send ?w = (Inl TypeError, ?w)" by (rule send_without_file) simp
  ultimately show ?thesis using b by simp
qed

lemma clean_forgets_witness:
  "\<exists>w'. async_file_clean (js ''uploadStorage'') storage_picked = (Inr (), w') \<and> current_file w' = None \<and>
     files (node_at w' 13) = [picked] \<and> async_file_send w' = (Inl TypeError, w')"
proof -
  have "js ''#'' @ js ''uploadStorage'' @ js ''File'' = js ''#uploadStorageFile''" by (simp flip: js_append)
  then have "find_child_within_tree (Some 13) (js ''#'' @ js ''uploadStorage'' @ js ''File'') storage_picked = (Inr (Some 11), storage_picked)"
    using find_child_nearest [OF storage_selectors(3), of 13 storage_page]
    by (simp add: picked_nearest storage_up storage_nearest)
  moreover have "element_by_id storage_picked (js ''uploadStorage'') = Some 13"
    by (simp add: element_by_id_def document_def picked_frame storage_fields storage_ident)
  ultimately show ?thesis
    using clean_forgets [of storage_picked "js ''uploadStorage''" 13 11]
    by (simp add: picked_frame storage_nodes) (simp add: storage_picked_def storage_fields, blast)
qed

text \<open>C40: When no box is found and no event is remembered, choosing a file throws a TypeError: the
  file is neither remembered nor sent.\<close>

theorem select_without_box:
  assumes none: "current_file w = None" and sel: "parse_selector (output_selector w t ''File'') = Some sel"
    and far: "\<forall>a \<in> set (ancestors w 10 (parent_of t (forest w))). first_match w sel a = None"
  shows "\<exists>w'. handle_file_select t w = (Inl TypeError, w') \<and> current_file w' = None \<and>
     requests w' = requests w \<and> readers w' = readers w \<and> nodes w' = nodes w"
proof -
  let ?v = "w\<lparr>console := console w @ [(''info'', [Str (js ''[Event] file chooser'')])]\<rparr>"
  have "nearest w 10 sel (parent_of t (forest w)) \<in> {Inl TypeError, Inr None}"
    using far by (auto simp: nearest_def find_None_iff split: option.split dest: find_Some_first)
  then have "output_of (Some t) ''File'' ?v = (Inl TypeError, ?v) \<or> output_of (Some t) ''File'' ?v = (Inr None, ?v)"
    using find_child_cong [of ?v w] output_selector_cong [of ?v w] find_child_nearest [OF sel, of t w]
    by (auto simp: output_of_step)
  then show ?thesis
    using send_without_file [of ?v] none
    by (auto simp: handle_file_select_def seq_Inr log_at_step bnd_Inr bnd_Inl)
qed

text \<open>The sample page has no box for its text area.\<close>

lemma select_without_box_witness:
  "\<exists>w'. handle_file_select 3 sample_page = (Inl TypeError, w') \<and> requests w' = requests sample_page"
proof -
  have "output_selector sample_page 3 ''File'' = js ''#tFile''"
    by (simp add: output_selector_def sample_nodes flip: js_append)
  moreover have "parse_selector (js ''#tFile'') = Some [IdSel (js ''tFile'')]" by code_simp
  moreover have "\<forall>a \<in> set (ancestors sample_page 10 (parent_of 3 (forest sample_page))).
      first_match sample_page [IdSel (js ''tFile'')] a = None" by code_simp
  moreover have "current_file sample_page = None" by (simp add: sample_page_def)
  ultimately show ?thesis using select_without_box [of sample_page 3] by auto
qed

lemma new_no_parent:
  assumes "tree_ok w"
  shows "parent_of (length (nodes w)) (forest w @ [Node (length (nodes w)) []]) = None"
proof (rule ccontr)
  assume "\<not> ?thesis"
  then obtain p where "length (nodes w) \<in> set (all_children p (forest w @ [Node (length (nodes w)) []]))"
    using parent_of_children by blast
  then have "length (nodes w) \<in> set (all_children p (forest w))"
    by (simp add: all_children_def)
  then have "length (nodes w) \<in> set (all_addrs (forest w))" using children_addrs(2) by blast
  then show False using assms by (simp add: tree_ok_def)
qed

text \<open>A download clicks one new link with the address, and the name unless it is null or undefined;
  the document, its elements and the console stay as they were.\<close>

lemma download_link:
  assumes tree: "tree_ok w"
  shows "\<exists>w'. downloadURI uri name w = (Inr (), w') \<and> clicks w' = clicks w @ [length (nodes w)] \<and>
     href (node_at w' (length (nodes w))) = to_string (objs w) uri \<and>
     download (node_at w' (length (nodes w))) = (if nullish name then [] else to_string (objs w) name) \<and>
     document w' = document w \<and> (\<forall>a < length (nodes w). node_at w' a = node_at w a) \<and> console w' = console w"
proof -
  define n where "n = length (nodes w)"
  let ?v = "w\<lparr>nodes := nodes w @ [blank], forest := forest w @ [Node n []]\<rparr>"
  let ?d = "if nullish name then [] else to_string (objs w) name"
  let ?u = "w\<lparr>nodes := nodes w @ [blank\<lparr>download := ?d, href := to_string (objs w) uri\<rparr>],
              forest := forest w @ [Node n []], clicks := clicks w @ [n]\<rparr>"
  have "forest w \<noteq> []" using tree by (simp add: tree_ok_def)
  then have doc: "document ?u = document w" by (simp add: document_def)
  define M where "M = (\<lambda>link.
      seq (if \<not> nullish name
           then (\<lambda>w. (Inr (), set_node link (\<lambda>n. n\<lparr>download := to_string (objs w) name\<rparr>) w))
           else ret ())
     (seq (\<lambda>w. (Inr (), set_node link (\<lambda>n. n\<lparr>href := to_string (objs w) uri\<rparr>) w)) (click_link link)))"
  have prog: "downloadURI uri name = bnd create_element (\<lambda>link.
      seq (try_catch (M link) (\<lambda>err. log_at ''log'' [Str (js ''[object Error]'')])) (remove_node link))"
    unfolding downloadURI_def M_def by (rule refl)
  have body: "M n ?v = (Inr (), ?u)"
    by (simp add: M_def seq_def bnd_def ret_def click_link_def modify_def set_node_def n_def nth_append
        list_update_append blank_def)
  have "remove_node n ?u = (Inr (), ?u)"
    using new_no_parent [OF tree] by (simp add: remove_node_def modify_def n_def)
  then have "downloadURI uri name w = (Inr (), ?u)"
    unfolding prog bnd_Inr [where m = create_element, OF create_element_step]
    using body by (simp add: seq_def bnd_def try_catch_def flip: n_def)
  then show ?thesis using doc by (simp add: node_at_def nth_append blank_def flip: n_def)
qed

lemma download_link_witness:
  "\<exists>w'. downloadURI (Str (js ''/api/global/storage'')) Undefined storage_page = (Inr (), w') \<and> clicks w' = [14] \<and>
     href (node_at w' 14) = js ''/api/global/storage'' \<and> document w' = document storage_page"
proof -
  have "clicks storage_page = []" by (simp add: storage_page_def sample_page_def)
  then show ?thesis
    using download_link [OF storage_page_ok, of "Str (js ''/api/global/storage'')" Undefined]
    by (auto simp: storage_fields)
qed

text \<open>The extension json-enc sends a text that parses to the tree of the parameters and sets the mime
  type of the request.\<close>

lemma json_enc_sends:
  assumes tree: "tree (objs w) [] parameters = Inr (Some j)" and ok: "heap_ok (objs w)" "val_ok (length (objs w)) parameters"
    and x: "x < length (requests w)" "ready_state (requests w ! x) \<le> 2"
  shows "\<exists>w' t. json_enc_parameters x parameters w = (Inr (Str t), w') \<and> json_parse t = Some (via_text j) \<and>
     req_mime (requests w' ! x) = Some (js ''text/json'') \<and> objs w' = objs w"
proof -
  let ?w = "set_request x (\<lambda>r. r\<lparr>req_mime := Some (js ''text/json'')\<rparr>) w"
  have o: "objs ?w = objs w" "req_mime (requests ?w ! x) = Some (js ''text/json'')"
    using x by (simp_all add: set_request_def)
  have "override_mime x (js ''text/json'') w = (Inr (), ?w)" using x by (simp add: override_mime_def)
  moreover have "json_stringify parameters ?w = (Inr (Str (json_text j)), ?w)"
    using o tree by (simp add: json_stringify_def stringify_tree)
  moreover have "wf_json j" using wf_tree(1) [OF ok tree] .
  ultimately show ?thesis using o by (simp add: json_enc_parameters_def seq_Inr)
qed

lemma json_enc_sends_witness:
  "\<exists>w' t. json_enc_parameters 0 (Bool True) sample_request = (Inr (Str t), w') \<and> json_parse t = Some (JBool True) \<and>
     req_mime (requests w' ! 0) = Some (js ''text/json'')"
  using json_enc_sends [of sample_request "Bool True" "JBool True" 0]
  by (auto simp: sample_request_def sample_page_def heap_ok_def)

end
