(* ===== verification/Modal.thy ===== *)
theory Modal
  imports Browser
begin

section \<open>Modal windows\<close>

text \<open>
  The modal functions of \<open>utils.js\<close>: \<open>openModal\<close> opens the element with an id and loads it through
  htmx (the request is recorded, htmx itself is not modelled), \<open>closeModal\<close> closes the first open
  one, and a click on the background of a modal closes it.
\<close>

subsection \<open>The code\<close>

definition body_class :: "(node \<Rightarrow> node) \<Rightarrow> unit js_prog" where
  "body_class f = bnd (gets body) (\<lambda>b. bnd (non_null b) (\<lambda>b. modify (set_node b f)))"

definition openModal :: "jstr \<Rightarrow> jstr \<Rightarrow> unit js_prog" where
  "openModal i path =
     bnd (get_element i) (\<lambda>el.
     seq (modify (set_node el (class_add (js ''open''))))
    (seq (body_class (class_add (js ''jw-modal-open'')))
         (modify (\<lambda>w. w\<lparr>ajax := ajax w @ [(js ''GET'', path, js ''#'' @ i, js ''outerHTML'')]\<rparr>))))"

definition closeModal :: "unit js_prog" where
  "closeModal =
     bnd (gets (\<lambda>w. root (document w))) (\<lambda>d.
     bnd (query_selector d (js ''.jw-modal.open'')) (\<lambda>m.
     bnd (non_null m) (\<lambda>m.
     seq (modify (set_node m (class_remove (js ''open''))))
         (body_class (class_remove (js ''jw-modal-open''))))))"

text \<open>The \<open>load\<close> listener of the window adds a \<open>click\<close> listener; \<open>background_click\<close> is its body.\<close>

definition window_load :: "unit js_prog" where
  "window_load = modify (\<lambda>w. w\<lparr>click_listeners := click_listeners w + 1\<rparr>)"

definition background_click :: "nat \<Rightarrow> unit js_prog" where
  "background_click target =
     bnd (gets (\<lambda>w. js ''jw-modal'' \<in> set (classes (node_at w target)))) (\<lambda>b. if b then closeModal else ret ())"

text \<open>A click runs every listener; an exception ends its own listener only.\<close>

definition page_click :: "nat \<Rightarrow> world \<Rightarrow> world" where
  "page_click target w = ((\<lambda>w. snd (background_click target w)) ^^ click_listeners w) w"

definition locationReload :: "unit js_prog" where
  "locationReload = reload"

subsection \<open>The open modal\<close>

definition open_modal_selector :: "simple_selector list" where
  "open_modal_selector = [ClassSel (js ''jw-modal''), ClassSel (js ''open'')]"

lemma parse_open_modal: "parse_selector (js ''.jw-modal.open'') = Some open_modal_selector"
  unfolding open_modal_selector_def by code_simp

definition is_open :: "world \<Rightarrow> nat \<Rightarrow> bool" where
  "is_open w a \<longleftrightarrow> selector_matches w open_modal_selector a"

text \<open>The specification: at most one modal is open, and the body says whether one is.\<close>

definition shows_modal :: "world \<Rightarrow> nat option \<Rightarrow> bool" where
  "shows_modal w m \<longleftrightarrow>
     (\<forall>a \<in> set (descendants w (root (document w))). is_open w a \<longleftrightarrow> m = Some a) \<and>
     (case m of None \<Rightarrow> True
      | Some a \<Rightarrow> a \<in> set (descendants w (root (document w))) \<and> a < length (nodes w) \<and>
          (\<forall>c \<in> set (classes (node_at w a)). same_name (quirks w) (js ''open'') c \<longrightarrow> c = js ''open'')) \<and>
     (case body w of None \<Rightarrow> False | Some b \<Rightarrow> b < length (nodes w) \<and> (js ''jw-modal-open'' \<in> set (classes (node_at w b)) \<longleftrightarrow> m \<noteq> None))"

definition has_class :: "world \<Rightarrow> string \<Rightarrow> nat \<Rightarrow> bool" where
  "has_class w s a \<longleftrightarrow> (\<exists>c \<in> set (classes (node_at w a)). same_name (quirks w) (js s) c)"

lemma is_open_classes: "is_open w a \<longleftrightarrow> has_class w ''jw-modal'' a \<and> has_class w ''open'' a"
  by (simp add: is_open_def selector_matches_def open_modal_selector_def has_class_def)

lemma descendants_set_node [simp]: "descendants (set_node a f w) b = descendants w b"
  by (simp add: descendants_def)

lemma same_name_refl [simp]: "same_name q s s"
  by (simp add: same_name_def)

lemma names_differ:
  "\<not> same_name q (js ''jw-modal'') (js ''open'')" "\<not> same_name q (js ''jw-modal'') (js ''jw-modal-open'')"
  "\<not> same_name q (js ''open'') (js ''jw-modal-open'')" "\<not> same_name q (js ''open'') (js ''jw-modal'')"
proof -
  have "map lower (js s) \<noteq> map lower (js t)" if "length s \<noteq> length t" for s t
    using that by (auto dest: arg_cong [of _ _ length])
  then show "\<not> same_name q (js ''jw-modal'') (js ''open'')" "\<not> same_name q (js ''jw-modal'') (js ''jw-modal-open'')"
    "\<not> same_name q (js ''open'') (js ''jw-modal-open'')" "\<not> same_name q (js ''open'') (js ''jw-modal'')"
    by (simp_all add: same_name_def)
qed

lemma has_class_add:
  "a < length (nodes w) \<Longrightarrow> has_class (set_node a (class_add (js s)) w) t b \<longleftrightarrow>
     has_class w t b \<or> (b = a \<and> same_name (quirks w) (js t) (js s))"
  by (auto simp: has_class_def class_add_def)

text \<open>Removing a class removes one spelling of it.\<close>

lemma has_class_remove_other:
  "a < length (nodes w) \<Longrightarrow> \<not> same_name (quirks w) (js t) (js s) \<Longrightarrow>
     has_class (set_node a (class_remove (js s)) w) t b = has_class w t b"
  by (auto simp: has_class_def class_remove_def)

lemma query_open: "query_selector d (js ''.jw-modal.open'') w = (Inr (find (is_open w) (descendants w d)), w)"
proof -
  have "selector_matches w open_modal_selector = is_open w" by (simp add: is_open_def fun_eq_iff)
  then show ?thesis by (simp add: query_selector_def parse_open_modal gets_def)
qed

lemma document_set_node: "document (set_node a f w) = document w"
  by simp

lemma find_unique: "a \<in> set xs \<Longrightarrow> \<forall>x \<in> set xs. P x \<longleftrightarrow> x = a \<Longrightarrow> find P xs = Some a"
  by (induction xs) auto

lemma element_descendant:
  assumes tree: "tree_ok w" and el: "element_by_id w i = Some el" and r: "ident (node_at w (root (document w))) = []"
  shows "el \<in> set (descendants w (root (document w)))" "el \<noteq> root (document w)"
proof -
  have p: "el \<in> set (addrs (document w))" "ident (node_at w el) = i" "i \<noteq> []"
    using element_by_id_props [OF el] by simp_all
  show ne: "el \<noteq> root (document w)" using p r by auto
  obtain a ks where d: "document w = Node a ks" by (cases "document w")
  show "el \<in> set (descendants w (root (document w)))"
    unfolding document_descendants [OF tree] using p(1) ne by (simp add: d)
qed


lemma node_at_ajax [simp]: "node_at (w\<lparr>ajax := x\<rparr>) a = node_at w a"
  by (simp add: node_at_def)

lemma has_class_frame [simp]: "has_class (w\<lparr>ajax := x\<rparr>) t a = has_class w t a"
  by (simp add: has_class_def node_at_def)

lemma is_open_frame [simp]: "is_open (w\<lparr>ajax := x\<rparr>) a = is_open w a"
  by (simp add: is_open_def selector_matches_def node_at_def)

text \<open>The states after opening and closing.\<close>

definition opened :: "world \<Rightarrow> nat \<Rightarrow> nat \<Rightarrow> jstr \<Rightarrow> jstr \<Rightarrow> world" where
  "opened w el b i path =
     (set_node b (class_add (js ''jw-modal-open'')) (set_node el (class_add (js ''open'')) w))
       \<lparr>ajax := ajax w @ [(js ''GET'', path, js ''#'' @ i, js ''outerHTML'')]\<rparr>"

definition closed :: "world \<Rightarrow> nat \<Rightarrow> nat \<Rightarrow> world" where
  "closed w el b = set_node b (class_remove (js ''jw-modal-open'')) (set_node el (class_remove (js ''open'')) w)"

lemma open_step:
  "element_by_id w i = Some el \<Longrightarrow> body w = Some b \<Longrightarrow> openModal i path w = (Inr (), opened w el b i path)"
  by (simp add: openModal_def bnd_Inr get_element_Some seq_def bnd_def body_class_def non_null_def gets_def
      modify_def ret_def opened_def)

lemma close_step:
  "find (is_open w) (descendants w (root (document w))) = Some el \<Longrightarrow> body w = Some b \<Longrightarrow>
     closeModal w = (Inr (), closed w el b)"
  by (simp add: closeModal_def bnd_Inr query_open non_null_def seq_def bnd_def body_class_def gets_def
      modify_def ret_def closed_def)

lemma close_none:
  "find (is_open w) (descendants w (root (document w))) = None \<Longrightarrow> closeModal w = (Inl TypeError, w)"
  by (simp add: closeModal_def query_open bnd_def gets_def non_null_def throw_def)

lemma shows_find:
  "shows_modal w m \<Longrightarrow> find (is_open w) (descendants w (root (document w))) = m"
  by (cases m) (auto simp: shows_modal_def find_None_iff intro: find_unique)

lemma opened_frame:
  "descendants (opened w el b i path) = descendants w" "document (opened w el b i path) = document w"
  "body (opened w el b i path) = body w" "quirks (opened w el b i path) = quirks w"
  "length (nodes (opened w el b i path)) = length (nodes w)"
  "descendants (closed w el b) = descendants w" "document (closed w el b) = document w"
  "body (closed w el b) = body w" "quirks (closed w el b) = quirks w"
  "length (nodes (closed w el b)) = length (nodes w)"
  by (simp_all add: opened_def closed_def descendants_def document_def fun_eq_iff)

lemma opened_is_open:
  assumes "el < length (nodes w)" "b < length (nodes w)"
  shows "is_open (opened w el b i path) a \<longleftrightarrow> is_open w a \<or> (a = el \<and> has_class w ''jw-modal'' el)"
  using assms names_differ by (auto simp: opened_def is_open_classes has_class_add)

lemma closed_is_open:
  assumes "el < length (nodes w)" "b < length (nodes w)"
    and "\<forall>c \<in> set (classes (node_at w el)). same_name (quirks w) (js ''open'') c \<longrightarrow> c = js ''open''"
  shows "is_open (closed w el b) a \<longleftrightarrow> is_open w a \<and> a \<noteq> el"
proof -
  let ?v = "set_node el (class_remove (js ''open'')) w"
  have o: "has_class ?v ''open'' a \<longleftrightarrow> has_class w ''open'' a \<and> a \<noteq> el"
    using assms(1,3) by (auto simp: has_class_def class_remove_def)
  have sym: "\<not> same_name q (js ''jw-modal'') (js ''open'')" for q by (rule names_differ)
  have "has_class ?v ''jw-modal'' a = has_class w ''jw-modal'' a"
    using assms(1) by (intro has_class_remove_other) (simp_all add: sym)
  moreover have "has_class (closed w el b) t a = has_class ?v t a" if "t \<in> {''jw-modal'', ''open''}" for t
    unfolding closed_def using assms(2) that names_differ by (intro has_class_remove_other) auto
  ultimately show ?thesis using o by (auto simp: is_open_classes)
qed

lemma filter_absent: "c \<notin> set xs \<Longrightarrow> filter (\<lambda>d. d \<noteq> c) xs = xs"
  by (rule filter_True) auto

lemma class_toggle:
  assumes "c \<notin> set (classes n)"
  shows "class_remove c (class_add c n) = n"
  using filter_absent [OF assms] assms by (simp add: class_remove_def class_add_def)

lemma class_toggle_two:
  assumes "c \<notin> set (classes n)" "d \<notin> set (classes n)" "c \<noteq> d"
  shows "class_remove d (class_remove c (class_add d (class_add c n))) = n"
  using filter_absent [OF assms(1)] filter_absent [OF assms(2)] assms
  by (simp add: class_remove_def class_add_def)

lemma nodes_closed_opened:
  assumes "el < length (nodes w)" "b < length (nodes w)"
    and "js ''open'' \<notin> set (classes (node_at w el))" "js ''jw-modal-open'' \<notin> set (classes (node_at w b))"
  shows "nodes (closed (opened w el b i path) el b) = nodes w"
proof (rule nth_equalityI)
  show l: "length (nodes (closed (opened w el b i path) el b)) = length (nodes w)" by (simp add: opened_frame)
  have "js ''open'' \<noteq> js ''jw-modal-open''" by simp
  then have "node_at (closed (opened w el b i path) el b) a = node_at w a" for a
    using assms class_toggle [OF assms(3)] class_toggle [OF assms(4)]
      class_toggle_two [of "js ''open''" "node_at w el" "js ''jw-modal-open''"]
    by (cases "a = el"; cases "a = b") (simp_all add: closed_def opened_def node_at_set_node)
  then show "nodes (closed (opened w el b i path) el b) ! a = nodes w ! a" for a
    by (simp add: node_at_def)
qed

lemma close_shown:
  assumes "shows_modal w (Some el)"
  shows "\<exists>w'. closeModal w = (Inr (), w') \<and> shows_modal w' None"
proof -
  obtain b where b: "body w = Some b" "b < length (nodes w)"
    using assms by (auto simp: shows_modal_def split: option.splits)
  have el: "el < length (nodes w)"
      "\<forall>c \<in> set (classes (node_at w el)). same_name (quirks w) (js ''open'') c \<longrightarrow> c = js ''open''"
    using assms by (simp_all add: shows_modal_def)
  have "js ''jw-modal-open'' \<notin> set (classes (node_at (closed w el b) b))"
    using b by (simp add: closed_def node_at_set_node class_remove_def)
  then have "shows_modal (closed w el b) None"
    using assms b closed_is_open [OF el(1) b(2) el(2)] by (simp add: shows_modal_def opened_frame)
  then show ?thesis using close_step [OF shows_find [OF assms] b(1)] by blast
qed

lemma open_shown:
  assumes tree: "tree_ok w" and doc: "ident (node_at w (root (document w))) = []"
    and el: "element_by_id w i = Some el" "has_class w ''jw-modal'' el" and none: "shows_modal w None"
  shows "\<exists>b. body w = Some b \<and> openModal i path w = (Inr (), opened w el b i path) \<and>
     shows_modal (opened w el b i path) (Some el) \<and> nodes (closed (opened w el b i path) el b) = nodes w"
proof -
  obtain b where b: "body w = Some b" "b < length (nodes w)" "js ''jw-modal-open'' \<notin> set (classes (node_at w b))"
    using none by (auto simp: shows_modal_def split: option.splits)
  have lt: "el < length (nodes w)" using element_by_id_lt [OF tree el(1)] .
  note desc = element_descendant [OF tree el(1) doc]
  let ?v = "opened w el b i path"
  have no: "\<not> is_open w a" if "a \<in> set (descendants w (root (document w)))" for a
    using none that by (simp add: shows_modal_def)
  have plain: "\<not> has_class w ''open'' el" using no [OF desc(1)] el(2) by (simp add: is_open_classes)
  then have nopen: "js ''open'' \<notin> set (classes (node_at w el))" by (force simp: has_class_def)
  have cls: "c = js ''open''" if "c \<in> set (classes (node_at ?v el))" "same_name (quirks w) (js ''open'') c" for c
    using that plain lt b(2) names_differ(3)
    by (auto simp: opened_def has_class_def node_at_set_node class_add_def split: if_splits)
  have body_v: "js ''jw-modal-open'' \<in> set (classes (node_at ?v b))"
    using b(2) by (simp add: opened_def node_at_set_node class_add_def)
  have "shows_modal ?v (Some el)"
    using no desc(1) el(2) lt b cls body_v
    by (auto simp: shows_modal_def opened_frame opened_is_open)
  with open_step [OF el(1) b(1)] nodes_closed_opened [OF lt b(2) nopen b(3)] b(1) show ?thesis by blast
qed

subsection \<open>Properties\<close>

text \<open>C18: Opening a closed modal shows it alone and asks htmx for its content, closing it then
  restores every class of the page, and closing when none is open throws a TypeError and changes
  nothing.\<close>

theorem modal_protocol:
  assumes tree: "tree_ok w" and doc: "ident (node_at w (root (document w))) = []"
    and el: "element_by_id w i = Some el" "has_class w ''jw-modal'' el" and none: "shows_modal w None"
  shows "\<exists>w' w''. openModal i path w = (Inr (), w') \<and> shows_modal w' (Some el) \<and>
     ajax w' = ajax w @ [(js ''GET'', path, js ''#'' @ i, js ''outerHTML'')] \<and>
     closeModal w' = (Inr (), w'') \<and> shows_modal w'' None \<and> nodes w'' = nodes w \<and>
     closeModal w = (Inl TypeError, w)"
proof -
  obtain b where b: "body w = Some b" "openModal i path w = (Inr (), opened w el b i path)"
      "shows_modal (opened w el b i path) (Some el)" "nodes (closed (opened w el b i path) el b) = nodes w"
    using open_shown [OF assms] by blast
  let ?v = "opened w el b i path"
  obtain u where u: "closeModal ?v = (Inr (), u)" "shows_modal u None" using close_shown [OF b(3)] by blast
  have "u = closed ?v el b"
    using close_step [OF shows_find [OF b(3)]] b(1) u(1) by (simp add: opened_frame)
  moreover have "closeModal w = (Inl TypeError, w)" using close_none [OF shows_find [OF none]] .
  moreover have "ajax ?v = ajax w @ [(js ''GET'', path, js ''#'' @ i, js ''outerHTML'')]" by (simp add: opened_def)
  ultimately show ?thesis using b u by blast
qed

text \<open>A page with a closed modal \<open>m\<close>, and one with two open ones.\<close>

definition modal_page :: world where
  "modal_page = sample_page\<lparr>
     nodes := [blank, blank, blank, blank, blank\<lparr>ident := js ''m'', classes := [js ''jw-modal'']\<rparr>]\<rparr>"

definition two_modals :: world where
  "two_modals = sample_page\<lparr>
     nodes := [blank, blank\<lparr>classes := [js ''jw-modal-open'']\<rparr>, blank,
       blank\<lparr>classes := [js ''jw-modal'', js ''open'']\<rparr>, blank\<lparr>classes := [js ''jw-modal'', js ''open'']\<rparr>]\<rparr>"

lemma modal_page_facts:
  "tree_ok modal_page" "root (document modal_page) = 0" "ident (node_at modal_page 0) = []"
  "element_by_id modal_page (js ''m'') = Some 4" "has_class modal_page ''jw-modal'' 4" "shows_modal modal_page None"
proof -
  show "tree_ok modal_page" using sample_tree by (simp add: tree_ok_def modal_page_def) (simp add: sample_page_def)
  have d: "document modal_page = Node 0 [Node 1 [Node 2 [], Node 3 [], Node 4 []]]"
    by (simp add: modal_page_def sample_page_def document_def)
  then show "root (document modal_page) = 0" by simp
  show "ident (node_at modal_page 0) = []" by (simp add: modal_page_def node_at_def blank_def)
  show "element_by_id modal_page (js ''m'') = Some 4"
    unfolding element_by_id_def d by (simp add: node_at_def modal_page_def blank_def)
  show "has_class modal_page ''jw-modal'' 4" by (simp add: has_class_def node_at_def modal_page_def)
  have "descendants modal_page 0 = [1, 2, 3, 4]"
    by (simp add: descendants_def below_def modal_page_def sample_page_def)
  then show "shows_modal modal_page None"
    unfolding shows_modal_def d
    by (simp add: is_open_classes has_class_def names_differ)
      (simp add: modal_page_def node_at_def sample_page_def blank_def names_differ)
qed

lemma modal_protocol_witness:
  "\<exists>w' w''. openModal (js ''m'') (js ''/x'') modal_page = (Inr (), w') \<and> shows_modal w' (Some 4) \<and>
     closeModal w' = (Inr (), w'') \<and> nodes w'' = nodes modal_page"
  using modal_protocol [OF modal_page_facts(1) _ modal_page_facts(4,5,6), of "js ''/x''"] modal_page_facts(2,3)
  by auto

text \<open>With one listener a click on an element with the class of modals closes the open modal, and a
  click on any other element changes nothing.\<close>

lemma background_closes:
  assumes "shows_modal w (Some el)" "click_listeners w = 1"
  shows "if js ''jw-modal'' \<in> set (classes (node_at w t)) then shows_modal (page_click t w) None
         else page_click t w = w"
proof -
  obtain w' where "closeModal w = (Inr (), w')" "shows_modal w' None" using close_shown [OF assms(1)] by blast
  then show ?thesis by (simp add: page_click_def assms(2) background_click_def ret_def)
qed

lemma background_closes_witness:
  "\<exists>w'. shows_modal w' (Some 4) \<and> shows_modal (page_click 4 w') None \<and> page_click 2 w' = w'"
proof -
  let ?w = "(opened modal_page 4 1 (js ''m'') (js ''/x''))\<lparr>click_listeners := 1\<rparr>"
  have fr: "shows_modal (w\<lparr>click_listeners := n\<rparr>) m = shows_modal w m" for w :: world and n m
    by (simp add: shows_modal_def descendants_def document_def is_open_def selector_matches_def node_at_def
        cong: option.case_cong)
  obtain w' where "openModal (js ''m'') (js ''/x'') modal_page = (Inr (), w')" "shows_modal w' (Some 4)"
    using open_shown [OF modal_page_facts(1) _ modal_page_facts(4,5,6), of "js ''/x''"] modal_page_facts(2,3) by auto
  moreover have "body modal_page = Some 1" by (simp add: modal_page_def sample_page_def)
  ultimately have s: "shows_modal ?w (Some 4)"
    using open_step [OF modal_page_facts(4), of 1 "js ''/x''"] by (simp add: fr)
  have c: "js ''jw-modal'' \<in> set (classes (node_at ?w 4))" "js ''jw-modal'' \<notin> set (classes (node_at ?w 2))"
    by (simp_all add: opened_def modal_page_def node_at_def set_node_def class_add_def blank_def)
  show ?thesis
    using background_closes [OF s, of 4] background_closes [OF s, of 2] c s by (intro exI [of _ ?w]) simp
qed

text \<open>C39: With several open modals closeModal closes the first in document order only: the others
  stay open although the body no longer has the class of an open modal.\<close>

theorem close_leaves_others:
  assumes first: "find (is_open w) (descendants w (root (document w))) = Some el" and el: "el < length (nodes w)"
    and spelt: "\<forall>c \<in> set (classes (node_at w el)). same_name (quirks w) (js ''open'') c \<longrightarrow> c = js ''open''"
    and b: "body w = Some b" "b < length (nodes w)" and other: "is_open w a" "a \<noteq> el"
  shows "\<exists>w'. closeModal w = (Inr (), w') \<and> \<not> is_open w' el \<and> is_open w' a \<and>
     js ''jw-modal-open'' \<notin> set (classes (node_at w' b))"
  using close_step [OF first b(1)] closed_is_open [OF el b(2) spelt] other b(2)
  by (simp add: closed_def node_at_set_node class_remove_def)

lemma close_leaves_others_witness:
  "\<exists>w'. closeModal two_modals = (Inr (), w') \<and> \<not> is_open w' 3 \<and> is_open w' 4 \<and>
     js ''jw-modal-open'' \<notin> set (classes (node_at w' 1))"
proof -
  have d: "descendants two_modals (root (document two_modals)) = [1, 2, 3, 4]"
    by (simp add: descendants_def document_def below_def two_modals_def sample_page_def)
  have o: "is_open two_modals 3" "is_open two_modals 4" "\<not> is_open two_modals 1" "\<not> is_open two_modals 2"
    by (simp_all add: is_open_classes has_class_def two_modals_def node_at_def blank_def names_differ)
  then have "find (is_open two_modals) (descendants two_modals (root (document two_modals))) = Some 3"
    unfolding d by simp
  moreover have "\<forall>c \<in> set (classes (node_at two_modals 3)). same_name (quirks two_modals) (js ''open'') c \<longrightarrow> c = js ''open''"
    by (simp add: two_modals_def node_at_def names_differ)
  moreover have "length (nodes two_modals) = 5" "body two_modals = Some 1"
    by (simp_all add: two_modals_def sample_page_def)
  ultimately show ?thesis using close_leaves_others [of two_modals 3 1 4] o(2) by simp
qed

end
