(* ===== verification/Pages.thy ===== *)
theory Pages
  imports Accordion Notifications Params
begin

section \<open>Pages: loading, timers, reloading\<close>

text \<open>
  What ties the components together on a page.  The script of \<open>footer.jte\<close> starts half a second
  after the page: it makes the container of the notifications, restores the panels and installs
  the listener of failed requests.  All timers of the page, whatever component set them, fire in
  one order.
\<close>

subsection \<open>Values of parsed objects\<close>

text \<open>\<open>Object.getOwnPropertyNames\<close> and the read of an own property.\<close>

definition index_names :: "nat \<Rightarrow> jstr list" where
  "index_names n = map nat_text [0..<n] @ [js ''length'']"

definition own_names :: "val \<Rightarrow> jstr list js_prog" where
  "own_names v =
     (\<lambda>w. (case v of
        Undefined \<Rightarrow> Inl TypeError
      | Null \<Rightarrow> Inl TypeError
      | Str s \<Rightarrow> Inr (index_names (length s))
      | Ref r \<Rightarrow> (case objs w ! r of Obj ps \<Rightarrow> Inr (map fst ps) | Arr vs \<Rightarrow> Inr (index_names (length vs)))
      | _ \<Rightarrow> Inr [], w))"

definition item_at :: "'a list \<Rightarrow> ('a \<Rightarrow> val) \<Rightarrow> jstr \<Rightarrow> val" where
  "item_at xs f k =
     (if k = js ''length'' then Num (round_num False (length xs) 1)
      else case find (\<lambda>i. nat_text i = k) [0..<length xs] of None \<Rightarrow> Undefined | Some i \<Rightarrow> f (xs ! i))"

definition read_prop :: "heap \<Rightarrow> val \<Rightarrow> jstr \<Rightarrow> exn + val" where
  "read_prop h v k =
     (case v of
        Undefined \<Rightarrow> Inl TypeError
      | Null \<Rightarrow> Inl TypeError
      | Str s \<Rightarrow> Inr (item_at s (\<lambda>c. Str [c]) k)
      | Ref r \<Rightarrow>
          (case h ! r of
             Obj ps \<Rightarrow> Inr (case map_of ps k of None \<Rightarrow> Undefined | Some x \<Rightarrow> x)
           | Arr vs \<Rightarrow> Inr (item_at vs id k))
      | _ \<Rightarrow> Inr Undefined)"

definition get_prop :: "val \<Rightarrow> jstr \<Rightarrow> val js_prog" where
  "get_prop v k = (\<lambda>w. (read_prop (objs w) v k, w))"

subsection \<open>The code\<close>

text \<open>
  The body of the loop of \<open>loadPanels\<close>.  An id is made a string here, where the code leaves it to
  the calls that use it; \<open>setAccordionStatus\<close> stores strings.
\<close>

definition load_panel :: "val \<Rightarrow> jstr \<Rightarrow> unit js_prog" where
  "load_panel panelStatus name =
     try_catch
       (bnd (get_prop panelStatus name) (\<lambda>propertyData.
        bnd (get_prop propertyData (js ''elementId'')) (\<lambda>propertyName.
        bnd (get_prop propertyData (js ''status'')) (\<lambda>propertyStatus.
        bnd (get_prop propertyData (js ''path'')) (\<lambda>path w.
          if path \<noteq> Str (pathname w) then (Inr (), w)
          else if element_by_id w (to_string (objs w) propertyName) = None then (Inr (), w)
          else if propertyStatus = Str (js ''open'') then openAccordion (to_string (objs w) propertyName) w
          else closeAccordion (to_string (objs w) propertyName) w)))))
       (\<lambda>error. ret ())"

text \<open>
  The condition on \<open>accordionPath\<close> is always true, so a page without the parameter looks for an
  element with the id \<open>null\<close>.
\<close>

definition accordion_target :: "world \<Rightarrow> jstr" where
  "accordion_target w =
     (case get_param (search w) (js ''accordion'') of None \<Rightarrow> js ''null'' | Some s \<Rightarrow> s)"

definition loadPanels :: "unit js_prog" where
  "loadPanels =
     bnd (gets accordion_target) (\<lambda>accordionPath.
     bnd (gets (\<lambda>w. element_by_id w accordionPath)) (\<lambda>panel.
       if panel \<noteq> None then openAccordion accordionPath
       else bnd getAccordionStatus (\<lambda>panelStatus.
            bnd (own_names panelStatus) (\<lambda>propertyNames.
              for_each propertyNames (load_panel panelStatus)))))"

definition startup :: "unit js_prog" where
  "startup = seq ns_init (seq loadPanels handleHtmxResults)"

text \<open>The script sets the timer when the page is read.\<close>

definition footer_script :: "unit js_prog" where
  "footer_script = bnd (set_timeout Startup 500) (\<lambda>_. ret ())"

fun run_task :: "task \<Rightarrow> unit js_prog" where
  "run_task (AutoClose n) = ns_close n"
| "run_task (FadeOut n) = ns_remove n"
| "run_task (OpenPanel i) = open_panel i"
| "run_task Startup = startup"

text \<open>The next timer of the page fires; an exception ends it.\<close>

definition page_tick :: "world \<Rightarrow> world" where
  "page_tick w =
     (case next_due (timers w) of None \<Rightarrow> w | Some t \<Rightarrow> snd (run_task (task t) (take_timer t w)))"

subsection \<open>What writing a panel leaves alone\<close>

definition page_frame :: "world \<Rightarrow> world \<Rightarrow> bool" where
  "page_frame w v \<longleftrightarrow>
     forest v = forest w \<and> length (nodes v) = length (nodes w) \<and> body v = body w \<and> pathname v = pathname w \<and>
     search v = search w \<and> container v = container w \<and> htmx_listeners v = htmx_listeners w \<and>
     (\<forall>a. ident (node_at v a) = ident (node_at w a)) \<and> (\<exists>new. objs v = objs w @ new)"

lemma page_frame_refl [simp]: "page_frame w w"
  by (simp add: page_frame_def)

lemma page_frame_trans: "page_frame u v \<Longrightarrow> page_frame v w \<Longrightarrow> page_frame u w"
  by (auto simp: page_frame_def)

lemma page_frame_ids: "page_frame w v \<Longrightarrow> element_by_id v s = element_by_id w s"
  by (rule element_by_id_cong) (auto simp: page_frame_def)

lemma page_frame_tree: "page_frame w v \<Longrightarrow> tree_ok w \<Longrightarrow> tree_ok v"
  by (simp add: page_frame_def tree_ok_def)

lemma turned_frame:
  assumes "turned w el i b xs r"
  shows "page_frame w (snd r)" "timers (snd r) = timers w" "next_timer (snd r) = next_timer w"
proof -
  obtain new where r: "r = (if room w (noted w i (status_word b))
      then (Inr (), kept (noted w i (status_word b)) (marked w el (turn b) xs new))
      else (Inl (DOMException ''QuotaExceededError''), marked w el (turn b) xs new))"
    using assms unfolding turned_def by blast
  show "page_frame w (snd r)"
    by (simp add: r page_frame_def kept_def marked_def node_at_set_node turn_classes)
  show "timers (snd r) = timers w" "next_timer (snd r) = next_timer w"
    by (simp_all add: r kept_def marked_def)
qed

text \<open>A panel after \<open>closeAccordion\<close> or the timer of \<open>openAccordion\<close>, stored or not.\<close>

lemma shut_panel:
  assumes tree: "tree_ok w" and ok: "text_ok (status_text w)" and el: "element_by_id w i = Some el"
  defines "v \<equiv> snd (closeAccordion i w)"
  shows "page_frame w v \<and> timers v = timers w \<and> next_timer v = next_timer w \<and> text_ok (status_text v) \<and>
     \<not> panel_open v el \<and> (\<forall>a. a \<noteq> el \<longrightarrow> panel_open v a = panel_open w a)"
proof (cases "panel_open w el")
  case True
  note t = close_turned [OF el ok True]
  show ?thesis
    using turned_frame [OF t] turned_effect(1,2,5) [OF t tree el ok] by (auto simp: v_def panel_open_def)
next
  case False
  then have "v = w" using get_element_Some [OF el] by (simp add: v_def closeAccordion_def bnd_Inr)
  with False ok show ?thesis by simp
qed

lemma raise_panel:
  assumes tree: "tree_ok w" and ok: "text_ok (status_text w)" and el: "element_by_id w i = Some el"
  defines "v \<equiv> snd (open_panel i w)"
  shows "page_frame w v \<and> timers v = timers w \<and> next_timer v = next_timer w \<and> text_ok (status_text v) \<and>
     panel_open v el \<and> (\<forall>a. a \<noteq> el \<longrightarrow> panel_open v a = panel_open w a)"
proof (cases "panel_open w el")
  case False
  note t = open_turned [OF el ok False]
  show ?thesis
    using turned_frame [OF t] turned_effect(1,2,5) [OF t tree el ok] by (auto simp: v_def panel_open_def)
next
  case True
  then have "v = w" using get_element_Some [OF el] by (simp add: v_def open_panel_def bnd_Inr)
  with True ok show ?thesis by simp
qed


subsection \<open>The loop over the stored entries\<close>

definition reads :: "heap \<Rightarrow> val \<Rightarrow> jstr \<times> jstr \<times> jstr \<Rightarrow> bool" where
  "reads h v e \<longleftrightarrow>
     (case e of (i, st, p) \<Rightarrow>
        read_prop h v (js ''elementId'') = Inr (Str i) \<and> read_prop h v (js ''status'') = Inr (Str st) \<and>
        read_prop h v (js ''path'') = Inr (Str p))"

lemma build_props_string:
  "build_props ps h = (qs, h') \<Longrightarrow> map_of ps k = Some (JStr s) \<Longrightarrow> map_of qs k = Some (Str s)"
proof (induction ps arbitrary: h qs h')
  case (Cons p ps)
  obtain k0 j where p: "p = (k0, j)" by (cases p)
  obtain v h1 where v: "build j h = (v, h1)" by fastforce
  obtain qs' h2 where q: "build_props ps h1 = (qs', h2)" by fastforce
  have "qs = (k0, v) # qs'" using Cons.prems(1) by (simp add: p v q)
  then show ?case using Cons.IH [OF q] Cons.prems(2) v by (auto simp: p split: if_splits)
qed simp

lemma string_prop_Some: "string_prop qs k = Some s \<longleftrightarrow> map_of qs (js k) = Some (JStr s)"
  by (auto simp: string_prop_def split: option.splits json.splits)

lemma build_reads:
  assumes "build j h = (v, h')" "entry_of j = Some e"
  shows "reads (h' @ ext) v e"
proof -
  obtain ps where j: "j = JObj ps" using assms(2) by (cases j) (auto simp: entry_of_def)
  obtain i st p where e: "e = (i, st, p)" by (cases e)
  have s: "map_of ps (js ''elementId'') = Some (JStr i)" "map_of ps (js ''status'') = Some (JStr st)"
      "map_of ps (js ''path'') = Some (JStr p)"
    using assms(2) by (auto simp: j e entry_of_def string_prop_Some split: option.splits)
  obtain qs h1 where b: "build_props ps h = (qs, h1)" by fastforce
  have "v = Ref (length h1)" "h' = h1 @ [Obj qs]" using assms(1) by (simp_all add: j b)
  then show ?thesis using s [THEN build_props_string [OF b]]
    by (simp add: reads_def e read_prop_def nth_append)
qed

lemma build_props_reads:
  assumes "build_props ps h = (qs, h')" "\<forall>(k, j) \<in> set ps. entry_of j \<noteq> None"
  shows "list_all2 (\<lambda>(k, v) e. \<forall>ext. reads (h' @ ext) v e) qs (map (the \<circ> entry_of \<circ> snd) ps)"
  using assms
proof (induction ps arbitrary: h qs h')
  case (Cons p ps)
  obtain k j where p: "p = (k, j)" by (cases p)
  obtain v h1 where v: "build j h = (v, h1)" by fastforce
  obtain qs' h2 where q: "build_props ps h1 = (qs', h2)" by fastforce
  obtain n where n: "h2 = h1 @ n" using build_extends(3) [OF q] by blast
  obtain e where e: "entry_of j = Some e" using Cons.prems(2) by (auto simp: p)
  have "qs = (k, v) # qs'" "h' = h2" using Cons.prems(1) by (simp_all add: p v q)
  then show ?case using Cons.IH [OF q] Cons.prems(2) build_reads [OF v e] by (simp add: p e n)
qed simp

text \<open>What the loop does for an entry.\<close>

definition enact :: "jstr \<times> jstr \<times> jstr \<Rightarrow> world \<Rightarrow> world" where
  "enact e w =
     (case e of (i, st, p) \<Rightarrow>
        if p \<noteq> pathname w \<or> element_by_id w i = None then w
        else if st = js ''open'' then snd (openAccordion i w) else snd (closeAccordion i w))"

lemma open_accordion_step:
  "openAccordion i w = (Inr (), w\<lparr>console := console w @ [(''log'', [Str (js ''OPEN '' @ i)])],
     timers := timers w @ [\<lparr>timer_id = next_timer w, due = clock w + 250, task = OpenPanel i\<rparr>],
     next_timer := next_timer w + 1\<rparr>)"
  by (simp add: openAccordion_def log_at_def set_timeout_def seq_def bnd_def modify_def ret_def)

lemma load_panel_step:
  assumes "objs w ! r = Obj qs" "map_of qs k = Some v" "reads (objs w) v e"
  shows "load_panel (Ref r) k w = (Inr (), enact e w)"
proof -
  obtain i st p where e: "e = (i, st, p)" by (cases e)
  have g: "get_prop (Ref r) k w = (Inr v, w)" "get_prop v (js ''elementId'') w = (Inr (Str i), w)"
    "get_prop v (js ''status'') w = (Inr (Str st), w)" "get_prop v (js ''path'') w = (Inr (Str p), w)"
    using assms by (simp_all add: get_prop_def reads_def e) (simp add: read_prop_def)
  have "try_catch m (\<lambda>error. ret ()) w = (Inr (), snd (m w))" for m :: "unit js_prog"
    by (simp add: try_catch_def ret_def split: prod.split sum.split)
  then show ?thesis
    by (simp add: load_panel_def bnd_Inr g enact_def e to_string_def open_accordion_step)
qed

definition shuts :: "world \<Rightarrow> jstr \<times> jstr \<times> jstr \<Rightarrow> nat \<Rightarrow> bool" where
  "shuts w e a \<longleftrightarrow> (case e of (i, st, p) \<Rightarrow> p = pathname w \<and> element_by_id w i = Some a \<and> st \<noteq> js ''open'')"

definition raises :: "world \<Rightarrow> jstr \<times> jstr \<times> jstr \<Rightarrow> bool" where
  "raises w e \<longleftrightarrow> (case e of (i, st, p) \<Rightarrow> p = pathname w \<and> element_by_id w i \<noteq> None \<and> st = js ''open'')"

definition timers_fresh :: "world \<Rightarrow> bool" where
  "timers_fresh w \<longleftrightarrow> distinct (map timer_id (timers w)) \<and> (\<forall>t \<in> set (timers w). timer_id t < next_timer w)"

lemma enact_effect:
  assumes "tree_ok w" "text_ok (status_text w)" "timers_fresh w"
  shows "page_frame w (enact e w)" "text_ok (status_text (enact e w))" "timers_fresh (enact e w)"
    and "panel_open (enact e w) a \<longleftrightarrow> panel_open w a \<and> \<not> shuts w e a"
    and "map task (timers (enact e w)) = map task (timers w) @ (if raises w e then [OpenPanel (fst e)] else [])"
proof -
  obtain i st p where e: "e = (i, st, p)" by (cases e)
  consider "p \<noteq> pathname w \<or> element_by_id w i = None"
    | el where "p = pathname w" "element_by_id w i = Some el" "st = js ''open''"
    | el where "p = pathname w" "element_by_id w i = Some el" "st \<noteq> js ''open''"
    by fastforce
  then have "page_frame w (enact e w) \<and> text_ok (status_text (enact e w)) \<and> timers_fresh (enact e w) \<and>
    (panel_open (enact e w) a \<longleftrightarrow> panel_open w a \<and> \<not> shuts w e a) \<and>
    map task (timers (enact e w)) = map task (timers w) @ (if raises w e then [OpenPanel (fst e)] else [])"
  proof cases
    case 1
    then show ?thesis using assms by (auto simp: enact_def e shuts_def raises_def)
  next
    case 2
    then show ?thesis using assms
      by (auto simp: enact_def e shuts_def raises_def open_accordion_step page_frame_def status_text_def
          panel_open_def timers_fresh_def node_at_def)
  next
    case 3
    have "enact e w = snd (closeAccordion i w)" using 3 by (simp add: enact_def e)
    moreover have "\<not> raises w e" "shuts w e a \<longleftrightarrow> a = el" using 3 by (auto simp: raises_def shuts_def e)
    ultimately show ?thesis
      using shut_panel [OF assms(1,2) 3(2)] assms(3) by (auto simp: timers_fresh_def)
  qed
  then show "page_frame w (enact e w)" "text_ok (status_text (enact e w))" "timers_fresh (enact e w)"
    "panel_open (enact e w) a \<longleftrightarrow> panel_open w a \<and> \<not> shuts w e a"
    "map task (timers (enact e w)) = map task (timers w) @ (if raises w e then [OpenPanel (fst e)] else [])"
    by blast+
qed


lemma frame_shuts: "page_frame w v \<Longrightarrow> shuts v e a = shuts w e a" "page_frame w v \<Longrightarrow> raises v e = raises w e"
  using page_frame_ids [of w v] by (auto simp: shuts_def raises_def page_frame_def split: prod.split)

lemma enact_all:
  assumes "tree_ok w" "text_ok (status_text w)" "timers_fresh w"
  shows "page_frame w (fold enact es w) \<and> text_ok (status_text (fold enact es w)) \<and> timers_fresh (fold enact es w) \<and>
     (\<forall>a. panel_open (fold enact es w) a \<longleftrightarrow> panel_open w a \<and> (\<forall>e \<in> set es. \<not> shuts w e a)) \<and>
     map task (timers (fold enact es w)) = map task (timers w) @ map (OpenPanel \<circ> fst) (filter (raises w) es)"
  using assms
proof (induction es arbitrary: w)
  case (Cons e es)
  note eff = enact_effect [OF Cons.prems, of e]
  have tree: "tree_ok (enact e w)" using page_frame_tree [OF eff(1) Cons.prems(1)] .
  note IH = Cons.IH [OF tree eff(2,3)]
  have sh: "shuts (enact e w) = shuts w" "raises (enact e w) = raises w"
    using frame_shuts [OF eff(1)] by (simp_all add: fun_eq_iff)
  show ?case using IH eff page_frame_trans [OF eff(1)] unfolding sh by auto
qed simp

lemma load_loop:
  assumes "tree_ok u" "text_ok (status_text u)" "timers_fresh u" "objs u = H @ new" "r < length H" "H ! r = Obj qs"
    and "list_all2 (\<lambda>k e. \<exists>v. map_of qs k = Some v \<and> (\<forall>ext. reads (H @ ext) v e)) ks es"
  shows "for_each ks (load_panel (Ref r)) u = (Inr (), fold enact es u)"
  using assms(7,1-6)
proof (induction ks es arbitrary: u new rule: list_all2_induct)
  case (Cons k ks e es)
  obtain v where v: "map_of qs k = Some v" "\<And>ext. reads (H @ ext) v e" using Cons.hyps(1) by blast
  have "objs u ! r = Obj qs" using Cons.prems by (simp add: nth_append)
  then have step: "load_panel (Ref r) k u = (Inr (), enact e u)"
    using load_panel_step [OF _ v(1)] v(2) Cons.prems(4) by simp
  note eff = enact_effect [OF Cons.prems(1-3), of e]
  obtain new' where new': "objs (enact e u) = H @ new'"
    using eff(1) Cons.prems(4) by (auto simp: page_frame_def)
  have "for_each ks (load_panel (Ref r)) (enact e u) = (Inr (), fold enact es (enact e u))"
    by (rule Cons.IH [OF page_frame_tree [OF eff(1) Cons.prems(1)] eff(2,3) new' Cons.prems(5,6)])
  then show ?case by (simp add: seq_Inr step)
qed (simp add: ret_def)

subsection \<open>The texts the code stores\<close>

text \<open>Every entry is kept under the key of its page and id.\<close>

definition page_text :: "jstr \<Rightarrow> bool" where
  "page_text s \<longleftrightarrow>
     (case json_parse s of
        Some (JObj ps) \<Rightarrow>
          list_all (\<lambda>(k, j). case entry_of j of Some (i, st, p) \<Rightarrow> k = panel_key p i | None \<Rightarrow> False) ps
      | _ \<Rightarrow> False)"

definition entries :: "jstr \<Rightarrow> (jstr \<times> jstr \<times> jstr) list" where
  "entries s = (case json_parse s of Some (JObj ps) \<Rightarrow> map (the \<circ> entry_of \<circ> snd) ps | _ \<Rightarrow> [])"

text \<open>The status that is remembered for a panel of the page.\<close>

definition remembered :: "world \<Rightarrow> jstr \<Rightarrow> jstr option" where
  "remembered w i = map_of (map (\<lambda>(i, st, p). ((p, i), st)) (entries (status_text w))) (pathname w, i)"

lemma page_textD:
  assumes "page_text s"
  obtains ps where "json_parse s = Some (JObj ps)" "entries s = map (the \<circ> entry_of \<circ> snd) ps"
    "\<forall>(k, j) \<in> set ps. \<exists>i st p. entry_of j = Some (i, st, p) \<and> k = panel_key p i" "props_ok ps"
proof -
  obtain ps where ps: "json_parse s = Some (JObj ps)"
    using assms by (auto simp: page_text_def split: option.splits json.splits)
  moreover have "\<forall>(k, j) \<in> set ps. \<exists>i st p. entry_of j = Some (i, st, p) \<and> k = panel_key p i"
    using assms by (fastforce simp: page_text_def ps list_all_iff split: option.splits)
  moreover have "props_ok ps" using wf_json_parse [OF ps] by simp
  ultimately show ?thesis using that by (simp add: entries_def)
qed

lemma page_text_ok: "page_text s \<Longrightarrow> text_ok s"
  by (auto simp: page_text_def text_ok_def split: option.splits json.splits)

lemma entry_unique:
  assumes "page_text (status_text w)"
  shows "(i, st, pathname w) \<in> set (entries (status_text w)) \<longleftrightarrow> remembered w i = Some st"
proof -
  obtain ps where ps: "json_parse (status_text w) = Some (JObj ps)"
      "entries (status_text w) = map (the \<circ> entry_of \<circ> snd) ps"
      "\<forall>(k, j) \<in> set ps. \<exists>i st p. entry_of j = Some (i, st, p) \<and> k = panel_key p i" "props_ok ps"
    using page_textD [OF assms] by blast
  let ?es = "entries (status_text w)"
  have "map fst ps = map (\<lambda>(i, st, p). panel_key p i) ?es"
    using ps(3) unfolding ps(2) by (induction ps) auto
  moreover have "distinct (map fst ps)" using ps(4) by (simp add: props_ok_def)
  ultimately have "distinct (map (\<lambda>(p, i). panel_key p i) (map (\<lambda>(i, st, p). (p, i)) ?es))"
    by (simp add: comp_def case_prod_beta')
  then have "distinct (map (\<lambda>(i, st, p). (p, i)) ?es)" by (metis distinct_map)
  then have "distinct (map fst (map (\<lambda>(i, st, p). ((p, i), st)) ?es))"
    by (simp add: comp_def case_prod_beta')
  from map_of_eq_Some_iff [OF this, of "(pathname w, i)" st] show ?thesis
    by (force simp: remembered_def)
qed

text \<open>Storing a status keeps such a text, and changes what is remembered of one panel only.\<close>

lemma set_put_prop: "set (put_prop k v ps) \<subseteq> insert (k, v) (set ps)"
  by (auto simp: put_prop_def dest!: set_takeWhileD set_dropWhileD split: if_split_asm)

lemma page_text_noted:
  assumes "page_text (status_text w)"
  shows "page_text (noted w i st)" "(i, st, pathname w) \<in> set (entries (noted w i st))"
proof -
  obtain ps where ps: "json_parse (status_text w) = Some (JObj ps)"
      "\<forall>(k, j) \<in> set ps. \<exists>i st p. entry_of j = Some (i, st, p) \<and> k = panel_key p i" "props_ok ps"
    by (rule page_textD [OF assms])
  define k where "k = panel_key (pathname w) i"
  let ?qs = "put_prop k (entry_json i st (pathname w)) (via_text_props ps)"
  have parse: "json_parse (noted w i st) = Some (JObj ?qs)"
    using text_update_ok [OF ps(1)] by (simp add: noted_def k_def)
  have "\<forall>(k, j) \<in> set (via_text_props ps). \<exists>i st p. entry_of j = Some (i, st, p) \<and> k = panel_key p i"
    using ps(2) by (auto simp: via_text_props_map)
  then have "\<forall>(k, j) \<in> set ?qs. \<exists>i st p. entry_of j = Some (i, st, p) \<and> k = panel_key p i"
    using set_put_prop [of k "entry_json i st (pathname w)" "via_text_props ps"] by (fastforce simp: k_def)
  then show "page_text (noted w i st)" by (fastforce simp: page_text_def parse list_all_iff)
  have "props_ok (via_text_props ps)" using wf_via_text(1) [OF wf_json_parse [OF ps(1)]] by simp
  then have "(k, entry_json i st (pathname w)) \<in> set ?qs" by (intro map_of_SomeD) (simp add: props.lookup_update)
  then have "the (entry_of (entry_json i st (pathname w))) \<in> set (map (the \<circ> entry_of \<circ> snd) ?qs)" by force
  then show "(i, st, pathname w) \<in> set (entries (noted w i st))" by (simp add: entries_def parse)
qed

subsection \<open>The timers of the panels\<close>

definition after_raising :: "world \<Rightarrow> world \<Rightarrow> bool" where
  "after_raising w v \<longleftrightarrow>
     page_frame w v \<and> timers v = [] \<and> text_ok (status_text v) \<and>
     (\<forall>a. panel_open v a \<longleftrightarrow> panel_open w a \<or>
        (\<exists>i. OpenPanel i \<in> task ` set (timers w) \<and> element_by_id w i = Some a))"

lemma filter_out:
  assumes "distinct (map f xs)" "x \<in> set xs"
  shows "set (filter (\<lambda>y. f y \<noteq> f x) xs) = set xs - {x}" "length (filter (\<lambda>y. f y \<noteq> f x) xs) = length xs - 1"
proof -
  have inj: "inj_on f (set xs)" "distinct xs" using assms(1) by (simp_all add: distinct_map)
  then show s: "set (filter (\<lambda>y. f y \<noteq> f x) xs) = set xs - {x}"
    using assms(2) by (auto dest: inj_onD)
  have "length (filter (\<lambda>y. f y \<noteq> f x) xs) = card (set xs - {x})"
    using distinct_card [OF distinct_filter [OF inj(2)], of "\<lambda>y. f y \<noteq> f x"] unfolding s by simp
  then show "length (filter (\<lambda>y. f y \<noteq> f x) xs) = length xs - 1"
    using assms(2) distinct_card [OF inj(2)] by simp
qed

lemma raise_all:
  assumes "tree_ok w" "text_ok (status_text w)" "timers_fresh w" "\<forall>t \<in> set (timers w). \<exists>i. task t = OpenPanel i"
  shows "after_raising w ((page_tick ^^ length (timers w)) w)"
  using assms
proof (induction "length (timers w)" arbitrary: w)
  case 0
  then show ?case by (simp add: after_raising_def)
next
  case (Suc n)
  have "timers w \<noteq> []" using Suc.hyps(2) by auto
  then obtain t where due: "next_due (timers w) = Some t" using next_due_exists by blast
  note t = due find_Some_first [OF due [unfolded next_due_def], THEN conjunct1]
  obtain i where i: "task t = OpenPanel i" using Suc.prems(4) t(2) by blast
  let ?u = "take_timer t w"
  let ?v = "snd (open_panel i ?u)"
  let ?rest = "filter (\<lambda>u. timer_id u \<noteq> timer_id t) (timers w)"
  have tick: "page_tick w = ?v" by (simp add: page_tick_def t i)
  have u: "page_frame w ?u" "tree_ok ?u" "text_ok (status_text ?u)" "timers ?u = ?rest"
      "panel_open ?u = panel_open w" "element_by_id ?u = element_by_id w" "next_timer ?u = next_timer w"
    using Suc.prems(1,2)
    by (auto simp: take_timer_def page_frame_def tree_ok_def status_text_def panel_open_def node_at_def
        element_by_id_def document_def fun_eq_iff)
  have v: "page_frame ?u ?v" "timers ?v = ?rest" "next_timer ?v = next_timer w" "text_ok (status_text ?v)"
      "panel_open ?v a \<longleftrightarrow> panel_open w a \<or> element_by_id w i = Some a" for a
  proof -
    have "page_frame ?u ?v \<and> timers ?v = ?rest \<and> next_timer ?v = next_timer w \<and> text_ok (status_text ?v) \<and>
      (\<forall>a. panel_open ?v a \<longleftrightarrow> panel_open w a \<or> element_by_id w i = Some a)"
    proof (cases "element_by_id ?u i")
      case None
      then have "?v = ?u" by (simp add: open_panel_def bnd_Inl get_element_None)
      then show ?thesis using u None by simp
    next
      case (Some el)
      from raise_panel [OF u(2,3) Some] u Some show ?thesis by auto
    qed
    then show "page_frame ?u ?v" "timers ?v = ?rest" "next_timer ?v = next_timer w" "text_ok (status_text ?v)"
      "panel_open ?v a \<longleftrightarrow> panel_open w a \<or> element_by_id w i = Some a" for a by blast+
  qed
  have d: "distinct (map timer_id (timers w))" using Suc.prems(3) by (simp add: timers_fresh_def)
  then have rest: "set ?rest = set (timers w) - {t}" "length ?rest = n"
    using filter_out [OF d t(2)] Suc.hyps(2) by auto
  have fr: "page_frame w ?v" using page_frame_trans [OF u(1) v(1)] .
  have "after_raising ?v ((page_tick ^^ length (timers ?v)) ?v)"
  proof (rule Suc.hyps(1))
    show "n = length (timers ?v)" using v(2) rest(2) by simp
    show "tree_ok ?v" using page_frame_tree [OF fr Suc.prems(1)] .
    show "timers_fresh ?v" using Suc.prems(3) v(2,3) by (auto simp: timers_fresh_def distinct_map_filter)
    show "\<forall>t \<in> set (timers ?v). \<exists>i. task t = OpenPanel i" using Suc.prems(4) v(2) by simp
  qed (rule v(4))
  moreover have "(page_tick ^^ length (timers w)) w = (page_tick ^^ length (timers ?v)) ?v"
    using Suc.hyps(2) v(2) rest(2) tick by (simp add: funpow_Suc_right flip: Suc.hyps(2) del: funpow.simps)
  moreover have "OpenPanel j \<in> task ` set (timers w) \<longleftrightarrow> OpenPanel j \<in> task ` set (timers ?v) \<or> j = i" for j
  proof -
    have "set (timers w) = insert t (set (timers ?v))" using rest(1) v(2) t(2) by auto
    then show ?thesis using i by auto
  qed
  ultimately show ?case
    using v(5) page_frame_ids [OF fr] page_frame_trans [OF fr] by (auto simp: after_raising_def)
qed


subsection \<open>Loading a page\<close>

text \<open>A page that was just read: the only timer is the one of \<open>footer.jte\<close>.\<close>

definition fresh_page :: "world \<Rightarrow> bool" where
  "fresh_page w \<longleftrightarrow>
     tree_ok w \<and> container w = None \<and> close_buttons w = [] \<and>
     (\<exists>b < length (nodes w). body w = Some b) \<and>
     (\<forall>a < length (nodes w). timeout_id (node_at w a) = None) \<and>
     (\<exists>t. timers w = [t] \<and> task t = Startup \<and> timer_id t < next_timer w)"

lemma fresh_tick:
  assumes "fresh_page w"
  shows "\<exists>v. page_tick w = snd (seq loadPanels handleHtmxResults v) \<and>
     tree_ok v \<and> timers v = [] \<and> container v \<noteq> None \<and> htmx_listeners v = htmx_listeners w \<and>
     pathname v = pathname w \<and> search v = search w \<and> store v = store w \<and> objs v = objs w \<and>
     (\<forall>s. element_by_id v s = element_by_id w s) \<and>
     (\<forall>a < length (nodes w). panel_open v a = panel_open w a)"
proof -
  obtain t b where t: "timers w = [t]" "task t = Startup" and b: "b < length (nodes w)" "body w = Some b"
    using assms by (auto simp: fresh_page_def)
  have tree: "tree_ok w" and f: "container w = None" "close_buttons w = []"
      "\<forall>a < length (nodes w). timeout_id (node_at w a) = None"
    using assms by (simp_all add: fresh_page_def)
  define w0 where "w0 = take_timer t w"
  have w0: "tree_ok w0" "body w0 = Some b" "b < length (nodes w0)" "container w0 = None" "timers w0 = []"
      "nodes w0 = nodes w" "timers_ok w0"
    using tree b f t by (auto simp: w0_def take_timer_def tree_ok_def timers_ok_def node_at_def)
  obtain v where v: "ns_init w0 = (Inr (), v)" "ns_ok v" "\<forall>s. element_by_id v s = element_by_id w0 s"
      "container v \<noteq> None" "v = w0\<lparr>forest := forest v, container := container v, nodes := nodes v\<rparr>"
      "\<forall>a < length (nodes w0). node_at v a = node_at w0 a"
    using init_effect [OF w0(1,2,3,4,7)] by blast
  have "next_due (timers w) = Some t" by (simp add: next_due_def t)
  then have "page_tick w = snd (startup w0)" by (simp add: page_tick_def t w0_def)
  moreover have "startup w0 = seq loadPanels handleHtmxResults v" by (simp add: startup_def seq_Inr v(1))
  moreover have "timers v = [] \<and> htmx_listeners v = htmx_listeners w \<and> pathname v = pathname w \<and>
      search v = search w \<and> store v = store w \<and> objs v = objs w"
    using arg_cong [OF v(5), of timers] arg_cong [OF v(5), of htmx_listeners] arg_cong [OF v(5), of pathname]
      arg_cong [OF v(5), of search] arg_cong [OF v(5), of store] arg_cong [OF v(5), of objs]
    by (simp add: w0_def take_timer_def t)
  moreover have "element_by_id w0 s = element_by_id w s" "node_at w0 a = node_at w a" for s a
    by (simp_all add: w0_def take_timer_def element_by_id_def node_at_def document_def)
  moreover have "tree_ok v" using v(2) by (simp add: ns_ok_def)
  ultimately show ?thesis using v(3,4,6) w0(6) by (auto simp: panel_open_def)
qed

text \<open>The panels that will be opened, in the order of the entries.\<close>

definition to_raise :: "world \<Rightarrow> jstr list" where
  "to_raise w = map fst (filter (raises w) (entries (status_text w)))"

lemma build_props_keys: "build_props ps h = (qs, h') \<Longrightarrow> map fst qs = map fst ps"
proof (induction ps arbitrary: h qs h')
  case (Cons p ps)
  then show ?case by (cases p) (auto split: prod.splits)
qed simp

lemma load_panels_effect:
  assumes tree: "tree_ok w" and page: "page_text (status_text w)" and quiet: "timers w = []"
    and target: "element_by_id w (accordion_target w) = None"
  shows "\<exists>v. loadPanels w = (Inr (), v) \<and> page_frame w v \<and> text_ok (status_text v) \<and> timers_fresh v \<and>
     map task (timers v) = map OpenPanel (to_raise w) \<and>
     (\<forall>a. panel_open v a \<longleftrightarrow> panel_open w a \<and> (\<forall>e \<in> set (entries (status_text w)). \<not> shuts w e a))"
proof -
  obtain ps where ps: "json_parse (status_text w) = Some (JObj ps)"
      "entries (status_text w) = map (the \<circ> entry_of \<circ> snd) ps"
      "\<forall>(k, j) \<in> set ps. \<exists>i st p. entry_of j = Some (i, st, p) \<and> k = panel_key p i" "props_ok ps"
    using page_textD [OF page] by blast
  obtain qs h1 where b: "build_props ps (objs w) = (qs, h1)" by fastforce
  obtain n1 where n1: "h1 = objs w @ n1" using build_extends(3) [OF b] by blast
  define r where "r = length h1"
  define H where "H = h1 @ [Obj qs]"
  let ?u = "w\<lparr>objs := H\<rparr>"
  have parse: "getAccordionStatus w = (Inr (Ref r), ?u)"
    by (simp add: getAccordionStatus_step json_parse_val_def parse_json_text [OF ps(1)] b r_def H_def)
  have names: "own_names (Ref r) ?u = (Inr (map fst qs), ?u)"
    by (simp add: own_names_def H_def r_def)
  have keys: "map fst qs = map fst ps" using build_props_keys [OF b] .
  have dist: "distinct (map fst qs)" using ps(4) by (simp add: keys props_ok_def)
  have "\<forall>(k, j) \<in> set ps. entry_of j \<noteq> None" using ps(3) by fastforce
  from build_props_reads [OF b this]
  have rd: "list_all2 (\<lambda>(k, v) e. \<forall>ext. reads (h1 @ ext) v e) qs (entries (status_text w))" by (simp add: ps(2))
  have loop: "list_all2 (\<lambda>k e. \<exists>v. map_of qs k = Some v \<and> (\<forall>ext. reads (H @ ext) v e))
      (map fst qs) (entries (status_text w))"
    unfolding list_all2_conv_all_nth
  proof (intro conjI allI impI)
    show "length (map fst qs) = length (entries (status_text w))" using list_all2_lengthD [OF rd] by simp
    fix n assume n: "n < length (map fst qs)"
    obtain k v where q: "qs ! n = (k, v)" by fastforce
    have "(k, v) \<in> set qs" using n q by (metis length_map nth_mem)
    then have "map_of qs k = Some v" using dist by simp
    moreover have "reads (h1 @ ext) v (entries (status_text w) ! n)" for ext
      using list_all2_nthD [OF rd, of n] n q by simp
    then have "reads (H @ ext) v (entries (status_text w) ! n)" for ext by (simp add: H_def)
    ultimately show "\<exists>v. map_of qs (map fst qs ! n) = Some v \<and> (\<forall>ext. reads (H @ ext) v (entries (status_text w) ! n))"
      using n q by simp
  qed
  have u: "page_frame w ?u" "tree_ok ?u" "text_ok (status_text ?u)" "timers_fresh ?u" "panel_open ?u = panel_open w"
      "timers ?u = []"
    using tree page_text_ok [OF page] quiet
    by (simp_all add: page_frame_def tree_ok_def status_text_def timers_fresh_def panel_open_def node_at_def
        H_def n1 fun_eq_iff)
  have sh: "shuts ?u = shuts w" "raises ?u = raises w"
    using frame_shuts [OF u(1)] by (simp_all add: fun_eq_iff)
  have run: "for_each (map fst qs) (load_panel (Ref r)) ?u = (Inr (), fold enact (entries (status_text w)) ?u)"
    by (rule load_loop [OF u(2,3,4) _ _ _ loop, of "[]"]) (simp_all add: H_def r_def)
  have "loadPanels w = (Inr (), fold enact (entries (status_text w)) ?u)"
    using target by (simp add: loadPanels_def bnd_Inr parse names run)
  moreover note enact_all [OF u(2,3,4), of "entries (status_text w)"]
  ultimately show ?thesis
    using page_frame_trans [OF u(1)] unfolding sh u(5,6) by (auto simp: to_raise_def)
qed


lemma remembered_closes:
  assumes page: "page_text (status_text w)" and el: "element_by_id w i = Some el"
  shows "(\<exists>e \<in> set (entries (status_text w)). shuts w e el) \<longleftrightarrow> (\<exists>st. remembered w i = Some st \<and> st \<noteq> js ''open'')"
    and "i \<in> set (to_raise w) \<longleftrightarrow> remembered w i = Some (js ''open'')"
proof -
  have id: "element_by_id w j = Some el \<longleftrightarrow> j = i" for j using el element_by_id_inj by blast
  have "(\<exists>e \<in> E. shuts w e el) \<longleftrightarrow> (\<exists>st. (i, st, pathname w) \<in> E \<and> st \<noteq> js ''open'')" for E
  proof
    assume "\<exists>e \<in> E. shuts w e el"
    then obtain j st p where "(j, st, p) \<in> E" "shuts w (j, st, p) el" by (metis prod_cases3)
    then show "\<exists>st. (i, st, pathname w) \<in> E \<and> st \<noteq> js ''open''" by (auto simp: shuts_def id)
  next
    assume "\<exists>st. (i, st, pathname w) \<in> E \<and> st \<noteq> js ''open''"
    then obtain st where "(i, st, pathname w) \<in> E" "shuts w (i, st, pathname w) el"
      by (auto simp: shuts_def id)
    then show "\<exists>e \<in> E. shuts w e el" by blast
  qed
  then show "(\<exists>e \<in> set (entries (status_text w)). shuts w e el) \<longleftrightarrow> (\<exists>st. remembered w i = Some st \<and> st \<noteq> js ''open'')"
    by (simp only: entry_unique [OF page])
  have "i \<in> fst ` {e \<in> E. raises w e} \<longleftrightarrow> (i, js ''open'', pathname w) \<in> E" for E
    using el by (force simp: raises_def split: prod.splits)
  then show "i \<in> set (to_raise w) \<longleftrightarrow> remembered w i = Some (js ''open'')"
    by (simp add: to_raise_def entry_unique [OF page])
qed

lemma page_loaded:
  assumes fresh: "fresh_page w" and page: "page_text (status_text w)"
    and target: "element_by_id w (accordion_target w) = None"
  defines "w' \<equiv> (page_tick ^^ Suc (length (to_raise w))) w"
  shows "timers w' = [] \<and> container w' \<noteq> None \<and> htmx_listeners w' = htmx_listeners w + 1 \<and>
     (\<forall>i el. element_by_id w i = Some el \<longrightarrow>
        panel_open w' el = (case remembered w i of None \<Rightarrow> panel_open w el | Some st \<Rightarrow> st = js ''open''))"
proof -
  obtain v where v: "page_tick w = snd (seq loadPanels handleHtmxResults v)" "tree_ok v" "timers v = []"
      "container v \<noteq> None" "htmx_listeners v = htmx_listeners w" "pathname v = pathname w" "search v = search w"
      "store v = store w" "\<And>s. element_by_id v s = element_by_id w s"
      "\<And>a. a < length (nodes w) \<Longrightarrow> panel_open v a = panel_open w a"
    using fresh_tick [OF fresh] by blast
  have tree: "tree_ok w" using fresh by (simp add: fresh_page_def)
  have same: "status_text v = status_text w" "accordion_target v = accordion_target w" "shuts v = shuts w" "raises v = raises w"
    using v(6,7,8,9) by (simp_all add: status_text_def accordion_target_def shuts_def raises_def fun_eq_iff)
  obtain x where x: "loadPanels v = (Inr (), x)" "page_frame v x" "text_ok (status_text x)" "timers_fresh x"
      "map task (timers x) = map OpenPanel (to_raise w)"
      "\<And>a. panel_open x a \<longleftrightarrow> panel_open v a \<and> (\<forall>e \<in> set (entries (status_text w)). \<not> shuts w e a)"
    using load_panels_effect [OF v(2) _ v(3)] page target same v(9) by (auto simp: to_raise_def)
  let ?y = "x\<lparr>htmx_listeners := htmx_listeners x + 1\<rparr>"
  have y: "page_tick w = ?y" using x(1) by (simp add: v(1) seq_Inr handleHtmxResults_def modify_def)
  have y_ok: "tree_ok ?y" "text_ok (status_text ?y)" "timers_fresh ?y" "timers ?y = timers x"
      "panel_open ?y = panel_open x"
    using page_frame_tree [OF x(2) v(2)] x(3,4)
    by (simp_all add: tree_ok_def status_text_def timers_fresh_def panel_open_def node_at_def fun_eq_iff)
  have "element_by_id ?y s = element_by_id x s" for s
    by (rule element_by_id_cong) (simp_all add: node_at_def)
  then have ids: "element_by_id ?y s = element_by_id w s" for s using page_frame_ids [OF x(2)] v(9) by simp
  have "set (map task (timers x)) = OpenPanel ` set (to_raise w)" by (simp add: x(5))
  then have tasks: "task ` set (timers x) = OpenPanel ` set (to_raise w)" by simp
  have len: "length (timers x) = length (to_raise w)" using arg_cong [OF x(5), of length] by simp
  have "\<forall>t \<in> set (timers ?y). \<exists>i. task t = OpenPanel i"
  proof
    fix t assume "t \<in> set (timers ?y)"
    then have "task t \<in> task ` set (timers x)" by simp
    then show "\<exists>i. task t = OpenPanel i" unfolding tasks by auto
  qed
  from raise_all [OF y_ok(1-3) this] have "after_raising ?y w'"
    by (simp add: w'_def funpow_Suc_right y len del: funpow.simps)
  then have w': "timers w' = []" "page_frame ?y w'"
      "\<And>a. panel_open w' a \<longleftrightarrow> panel_open x a \<or> (\<exists>i \<in> set (to_raise w). element_by_id w i = Some a)"
    using tasks y_ok(4,5) ids by (auto simp: after_raising_def)
  have "panel_open w' el = (case remembered w i of None \<Rightarrow> panel_open w el | Some st \<Rightarrow> st = js ''open'')"
    if el: "element_by_id w i = Some el" for i el
  proof -
    have "(\<exists>j \<in> set (to_raise w). element_by_id w j = Some el) \<longleftrightarrow> i \<in> set (to_raise w)"
      using el element_by_id_inj by blast
    then show ?thesis
      using w'(3) [of el] x(6) [of el] v(10) [OF element_by_id_lt [OF tree el]] remembered_closes [OF page el]
      by (cases "remembered w i") auto
  qed
  moreover have "container w' \<noteq> None" "htmx_listeners w' = htmx_listeners w + 1"
    using w'(2) x(2) v(4,5) by (simp_all add: page_frame_def)
  ultimately show ?thesis using w'(1) by blast
qed

subsection \<open>Properties\<close>

text \<open>C3: Reading a page whose address names no element of the page as its accordion parameter ends:
  after the timer of the page and one timer for each panel to open, no timer is left, the
  notifications and the listener of htmx are installed, and every panel the storage remembers for
  this page (its text being a table of statuses) shows the remembered status, every other one the
  status of the markup.\<close>

theorem page_restores_panels:
  assumes "fresh_page w" "page_text (status_text w)" "element_by_id w (accordion_target w) = None"
  shows "let w' = (page_tick ^^ Suc (length (to_raise w))) w
     in timers w' = [] \<and> container w' \<noteq> None \<and> htmx_listeners w' = htmx_listeners w + 1 \<and>
        (\<forall>i el. element_by_id w i = Some el \<longrightarrow>
           panel_open w' el = (case remembered w i of None \<Rightarrow> panel_open w el | Some st \<Rightarrow> st = js ''open''))"
  using page_loaded [OF assms] by (simp add: Let_def)

text \<open>The sample page, just read, with its panel remembered as open.\<close>

definition restored_page :: world where
  "restored_page = sample_page\<lparr>timers := [\<lparr>timer_id = 0, due = 500, task = Startup\<rparr>],
     store := [(status_item, noted sample_page (js ''p'') (js ''open''))]\<rparr>"

lemma sample_fresh_page:
  assumes "nodes w = nodes sample_page" "forest w = forest sample_page" "body w = body sample_page"
    "container w = None" "close_buttons w = []" "next_timer w = 1"
    "timers w = [\<lparr>timer_id = 0, due = 500, task = Startup\<rparr>]"
  shows "fresh_page w"
proof -
  have "list_all (\<lambda>n. timeout_id n = None) (nodes sample_page)" by (simp add: sample_page_def blank_def)
  then have "\<forall>a < length (nodes w). timeout_id (node_at w a) = None"
    by (simp add: assms(1) node_at_def list_all_length)
  moreover have "body sample_page = Some 1" "length (nodes sample_page) = 5" by (simp_all add: sample_page_def)
  ultimately show ?thesis using sample_tree assms by (simp add: fresh_page_def tree_ok_def)
qed

lemma sample_start: "container sample_page = None" "close_buttons sample_page = []" "next_timer sample_page = 1"
    "search sample_page = []" "htmx_listeners sample_page = 0"
  by (simp_all add: sample_page_def)

lemma sample_fresh:
  assumes "w = sample_page\<lparr>timers := [\<lparr>timer_id = 0, due = 500, task = Startup\<rparr>], store := s\<rparr>"
  shows "fresh_page w" "element_by_id w i = element_by_id sample_page i" "accordion_target w = js ''null''"
    "element_by_id w (js ''null'') = None" "pathname w = js ''/a''" "panel_open w a = panel_open sample_page a"
proof -
  show ids: "element_by_id w i = element_by_id sample_page i" for i
    by (rule element_by_id_cong) (simp_all add: assms node_at_def)
  show "fresh_page w" by (rule sample_fresh_page) (simp_all add: assms sample_start)
  show "accordion_target w = js ''null''" by (simp add: accordion_target_def assms sample_start)
  have no: "element_by_id sample_page (js ''null'') = None" by code_simp
  show "element_by_id w (js ''null'') = None" unfolding ids by (rule no)
  show "pathname w = js ''/a''" "panel_open w a = panel_open sample_page a"
    by (simp_all add: assms sample_status panel_open_def node_at_def)
qed

lemma sample_page_text: "page_text (status_text sample_page)"
  by (simp add: sample_status page_text_def)

lemma restored_facts:
  "status_text restored_page = noted sample_page (js ''p'') (js ''open'')" "page_text (status_text restored_page)"
  "remembered restored_page (js ''p'') = Some (js ''open'')" "to_raise restored_page = [js ''p'']"
proof -
  note f = sample_fresh [OF restored_page_def]
  show s: "status_text restored_page = noted sample_page (js ''p'') (js ''open'')"
    by (simp add: restored_page_def status_text_def)
  then show p: "page_text (status_text restored_page)"
    using page_text_noted(1) [OF sample_page_text] by simp
  have e: "entries (status_text restored_page) = [(js ''p'', js ''open'', js ''/a'')]"
    unfolding s using text_update_ok [of "status_text sample_page" "[]"]
    by (simp add: noted_def entries_def sample_status put_prop_def)
  then show "remembered restored_page (js ''p'') = Some (js ''open'')"
    by (simp add: remembered_def f(5))
  show "to_raise restored_page = [js ''p'']"
    by (simp add: to_raise_def e raises_def f(2,5) sample_ids)
qed

lemma page_restores_panels_witness:
  "panel_open ((page_tick ^^ 2) restored_page) 4 \<and> timers ((page_tick ^^ 2) restored_page) = []"
  using page_restores_panels [OF sample_fresh(1) [OF restored_page_def] restored_facts(2)]
    sample_fresh [OF restored_page_def] restored_facts(3,4) sample_ids(3)
  by (simp add: Let_def numeral_2_eq_2 del: funpow.simps)

text \<open>C4: A panel that was toggled, the stored text being a table of statuses, shows the new status
  when a page with the same path and storage is read anew, whatever its markup says, provided the
  accordion parameter of the new address names no element of that page (otherwise that element is
  opened instead).\<close>

theorem toggle_survives_reload:
  assumes tree: "tree_ok w" and el: "element_by_id w i = Some el" and page: "page_text (status_text w)"
    and run: "toggleAccordion i w = (Inr (), u)"
    and fresh: "fresh_page v" "store v = store u" "pathname v = pathname u" "element_by_id v i = Some el'"
      "element_by_id v (accordion_target v) = None"
  shows "panel_open ((page_tick ^^ Suc (length (to_raise v))) v) el' = (\<not> panel_open w el)"
proof -
  have ok: "text_ok (status_text w)" using page_text_ok [OF page] .
  note t = toggle_turned [OF el ok]
  have u: "status_text u = noted w i (status_word (\<not> panel_open w el))" "pathname u = pathname w"
    using t run turned_effect(6) [OF t tree el ok] by (auto simp: turned_def marked_def split: if_splits)
  have s: "status_text v = noted w i (status_word (\<not> panel_open w el))"
    using u(1) fresh(2) by (simp add: status_text_def)
  have pt: "page_text (status_text v)" using page_text_noted(1) [OF page] by (simp add: s)
  have "remembered v i = Some (status_word (\<not> panel_open w el))"
    using iffD1 [OF entry_unique [OF pt]] page_text_noted(2) [OF page] fresh(3) u(2) by (simp add: s)
  then show ?thesis using page_loaded [OF fresh(1) pt fresh(5)] fresh(4) by simp
qed

lemma toggle_survives_reload_witness:
  "\<exists>u. toggleAccordion (js ''p'') sample_page = (Inr (), u) \<and>
     (let v = sample_page\<lparr>timers := [\<lparr>timer_id = 0, due = 500, task = Startup\<rparr>], store := store u\<rparr>
      in panel_open ((page_tick ^^ Suc (length (to_raise v))) v) 4)"
proof -
  have ok: "text_ok (status_text sample_page)" using page_text_ok [OF sample_page_text] .
  note t = toggle_turned [OF sample_ids(3) ok]
  obtain u where u: "toggleAccordion (js ''p'') sample_page = (Inr (), u)"
    using t sample_room [of True] by (auto simp: turned_def sample_status)
  then have pu: "pathname u = pathname sample_page" using turned_effect(6) [OF t sample_tree sample_ids(3) ok] by simp
  define v where "v = sample_page\<lparr>timers := [\<lparr>timer_id = 0, due = 500, task = Startup\<rparr>], store := store u\<rparr>"
  note f = sample_fresh [OF v_def]
  have tg: "element_by_id v (accordion_target v) = None" unfolding f(3) by (rule f(4))
  have el: "element_by_id v (js ''p'') = Some 4" unfolding f(2) by (rule sample_ids(3))
  have "panel_open ((page_tick ^^ Suc (length (to_raise v))) v) 4 = (\<not> panel_open sample_page 4)"
    by (rule toggle_survives_reload [OF sample_tree sample_ids(3) sample_page_text u f(1) _ _ el tg])
      (simp_all add: v_def pu)
  then show ?thesis using u by (auto simp: sample_status Let_def v_def)
qed

text \<open>C36: When the stored status is no JSON or null, and the accordion parameter of the address names
  no element of the page, the startup of the page ends in loadPanels: the listener of failed
  requests is never installed and every panel stays as the markup has it.\<close>

theorem corrupted_startup:
  assumes fresh: "fresh_page w" and bad: "json_parse (status_text w) = None \<or> json_parse (status_text w) = Some JNull"
    and target: "element_by_id w (accordion_target w) = None"
  shows "htmx_listeners (page_tick w) = htmx_listeners w \<and> container (page_tick w) \<noteq> None \<and>
     timers (page_tick w) = [] \<and> (\<forall>a < length (nodes w). panel_open (page_tick w) a = panel_open w a)"
proof -
  obtain v where v: "page_tick w = snd (seq loadPanels handleHtmxResults v)" "timers v = []"
      "container v \<noteq> None" "htmx_listeners v = htmx_listeners w" "pathname v = pathname w" "search v = search w"
      "store v = store w" "\<And>s. element_by_id v s = element_by_id w s"
      "\<And>a. a < length (nodes w) \<Longrightarrow> panel_open v a = panel_open w a"
    using fresh_tick [OF fresh] by blast
  have same: "status_text v = status_text w" "accordion_target v = accordion_target w"
    using v(5,6,7) by (simp_all add: status_text_def accordion_target_def)
  have "\<exists>ex. loadPanels v = (Inl ex, v)"
    using bad target v(8) same
    by (auto simp: loadPanels_def getAccordionStatus_step json_parse_val_def parse_json_def own_names_def bnd_def gets_def)
  then have "page_tick w = v" by (auto simp: v(1) seq_Inl)
  then show ?thesis using v by simp
qed

lemma corrupted_startup_witness:
  "htmx_listeners (page_tick (sample_page\<lparr>timers := [\<lparr>timer_id = 0, due = 500, task = Startup\<rparr>],
     store := [(status_item, js ''null'')]\<rparr>)) = 0"
proof -
  let ?w = "sample_page\<lparr>timers := [\<lparr>timer_id = 0, due = 500, task = Startup\<rparr>], store := [(status_item, js ''null'')]\<rparr>"
  have "json_parse (js ''null'') = Some JNull" by code_simp
  then have j: "json_parse (status_text ?w) = Some JNull" by (simp add: status_text_def)
  have t: "element_by_id ?w (accordion_target ?w) = None"
    unfolding sample_fresh(3) [OF refl] by (rule sample_fresh(4) [OF refl])
  have "htmx_listeners (page_tick ?w) = htmx_listeners ?w"
    using corrupted_startup [OF sample_fresh(1) [OF refl] disjI2 [OF j] t] by blast
  then show ?thesis by (simp add: sample_start)
qed

text \<open>C37: When the parameter accordion names an element, two timers later that panel is open, every
  other panel is as the markup has it, and no timer is left.\<close>

theorem accordion_parameter:
  assumes fresh: "fresh_page w" and ok: "text_ok (status_text w)"
    and target: "get_param (search w) (js ''accordion'') = Some i" "element_by_id w i = Some el"
  shows "panel_open ((page_tick ^^ 2) w) el \<and> timers ((page_tick ^^ 2) w) = [] \<and>
     (\<forall>a < length (nodes w). a \<noteq> el \<longrightarrow> panel_open ((page_tick ^^ 2) w) a = panel_open w a)"
proof -
  obtain v where v: "page_tick w = snd (seq loadPanels handleHtmxResults v)" "tree_ok v" "timers v = []"
      "search v = search w" "store v = store w" "\<And>s. element_by_id v s = element_by_id w s"
      "\<And>a. a < length (nodes w) \<Longrightarrow> panel_open v a = panel_open w a"
    using fresh_tick [OF fresh] by blast
  let ?x = "v\<lparr>console := console v @ [(''log'', [Str (js ''OPEN '' @ i)])],
     timers := [\<lparr>timer_id = next_timer v, due = clock v + 250, task = OpenPanel i\<rparr>],
     next_timer := next_timer v + 1, htmx_listeners := htmx_listeners v + 1\<rparr>"
  have "accordion_target v = i" using v(4) target(1) by (simp add: accordion_target_def)
  then have x: "page_tick w = ?x"
    using target(2) v(6)
    by (simp add: v(1) loadPanels_def seq_def bnd_def open_accordion_step v(3) handleHtmxResults_def modify_def gets_def)
  have y: "tree_ok ?x" "text_ok (status_text ?x)" "timers_fresh ?x" "panel_open ?x = panel_open v"
      "length (timers ?x) = 1"
    using v(2,5) ok by (simp_all add: tree_ok_def status_text_def timers_fresh_def panel_open_def node_at_def fun_eq_iff)
  have ids: "element_by_id ?x s = element_by_id w s" for s
  proof -
    have "element_by_id ?x s = element_by_id v s" by (rule element_by_id_cong) (simp_all add: node_at_def)
    then show ?thesis using v(6) by simp
  qed
  have "after_raising ?x ((page_tick ^^ length (timers ?x)) ?x)" by (rule raise_all [OF y(1-3)]) simp
  then have "after_raising ?x ((page_tick ^^ 2) w)" unfolding y(5) by (simp add: numeral_2_eq_2 x)
  then show ?thesis
    using ids target(2) y(4) v(7) by (auto simp: after_raising_def)
qed

lemma accordion_parameter_witness:
  "panel_open ((page_tick ^^ 2) (sample_page\<lparr>timers := [\<lparr>timer_id = 0, due = 500, task = Startup\<rparr>],
     search := js ''?accordion=p''\<rparr>)) 4"
proof -
  let ?w = "sample_page\<lparr>timers := [\<lparr>timer_id = 0, due = 500, task = Startup\<rparr>], search := js ''?accordion=p''\<rparr>"
  have "element_by_id ?w i = element_by_id sample_page i" for i
    by (rule element_by_id_cong) (simp_all add: node_at_def)
  moreover have "fresh_page ?w" by (rule sample_fresh_page) (simp_all add: sample_start)
  moreover have "get_param (js ''?accordion=p'') (js ''accordion'') = Some (js ''p'')" by code_simp
  moreover have "text_ok (status_text ?w)"
    using page_text_ok [OF sample_page_text] by (simp add: status_text_def)
  ultimately show ?thesis using accordion_parameter [of ?w "js ''p''" 4] sample_ids(3) by simp
qed

end
