(* ===== verification/Swagger.thy ===== *)
theory Swagger
  imports Params
begin

section \<open>The page of the interface description\<close>

text \<open>
  \<open>swagger-initializer.js\<close>: when the page has loaded, the user interface of the bundle is started
  on the description the server publishes.  The bundle is a script of its own and a parameter of
  the model: the function it defines and the members the configuration names.  A script that did
  not load leaves its name undefined.
\<close>

subsection \<open>The scripts and the window\<close>

record ('p, 'g) config =
  config_url :: jstr
  dom_id :: jstr
  deepLinking :: bool
  presets :: "'p list"
  plugins :: "'g list"
  layout :: jstr

record ('s, 'ui, 'p, 'g) ui_bundle =
  call :: "('p, 'g) config \<Rightarrow> ('s, 'ui) prog"
  apis :: 'p
  download_url :: 'g

text \<open>What the bundle itself works on is \<open>page\<close>; \<open>onload\<close> says that the handler is installed.\<close>

record ('s, 'ui, 'p, 'g) window =
  swagger_bundle :: "('s, 'ui, 'p, 'g) ui_bundle option"
  standalone_preset :: "'p option"
  onload :: bool
  ui :: "'ui option"
  page :: 's

text \<open>The value of a global name.\<close>

definition global :: "('w \<Rightarrow> 'a option) \<Rightarrow> ('w, 'a) prog" where
  "global name = (\<lambda>w. case name w of None \<Rightarrow> (Inl ReferenceError, w) | Some x \<Rightarrow> (Inr x, w))"

definition call_bundle ::
  "('s, 'ui, 'p, 'g) ui_bundle \<Rightarrow> ('p, 'g) config \<Rightarrow> (('s, 'ui, 'p, 'g) window, 'ui) prog" where
  "call_bundle b c = (\<lambda>w. case call b c (page w) of (r, s) \<Rightarrow> (r, w\<lparr>page := s\<rparr>))"

subsection \<open>The code\<close>

definition swagger_config :: "('s, 'ui, 'p, 'g) ui_bundle \<Rightarrow> 'p \<Rightarrow> ('p, 'g) config" where
  "swagger_config b standalone =
     \<lparr>config_url = js ''../api/swagger/map.json'', dom_id = js ''#swagger-ui'', deepLinking = True,
      presets = [apis b, standalone], plugins = [download_url b], layout = js ''StandaloneLayout''\<rparr>"

definition window_onload :: "(('s, 'ui, 'p, 'g) window, unit) prog" where
  "window_onload =
     bnd (global swagger_bundle) (\<lambda>b.
     bnd (global standalone_preset) (\<lambda>standalone.
     bnd (call_bundle b (swagger_config b standalone)) (\<lambda>u.
       modify (\<lambda>w. w\<lparr>ui := Some u\<rparr>))))"

definition swagger_initializer :: "(('s, 'ui, 'p, 'g) window, unit) prog" where
  "swagger_initializer = modify (\<lambda>w. w\<lparr>onload := True\<rparr>)"

text \<open>The event.\<close>

definition load_event :: "(('s, 'ui, 'p, 'g) window, unit) prog" where
  "load_event = bnd (gets onload) (\<lambda>b. if b then window_onload else ret ())"

subsection \<open>Relative addresses\<close>

text \<open>
  The path a relative reference stands for on a page with a given path, for references without
  scheme, query, fragment and escapes that do not start with a slash: the last segment of the page
  goes, and the segments of the reference are followed one by one.
\<close>

fun follow :: "jstr list \<Rightarrow> jstr list \<Rightarrow> jstr list" where
  "follow acc [] = rev acc"
| "follow acc (s # ss) =
     (if s = js ''..'' then follow (if ss = [] then [] # tl acc else tl acc) ss
      else if s = js ''.'' then follow (if ss = [] then [] # acc else acc) ss
      else follow (s # acc) ss)"

definition resolve :: "jstr \<Rightarrow> jstr \<Rightarrow> jstr" where
  "resolve base ref = 47 # join_with [47] (follow (rev (butlast (tl (split_at 47 base)))) (split_at 47 ref))"

lemma description_path:
  assumes "47 \<notin> set d" "47 \<notin> set f"
  shows "resolve (47 # d @ 47 # f) (js ''../api/swagger/map.json'') = js ''/api/swagger/map.json''"
proof -
  have "split_at 47 (47 # d @ 47 # f) = [[], d, f]"
    using split_at_append [OF assms(1), of f] split_at_none [OF assms(2)] by simp
  moreover have "split_at 47 (js ''../api/swagger/map.json'') =
      [js ''..'', js ''api'', js ''swagger'', js ''map.json'']" by code_simp
  moreover have "47 # join_with [47] [js ''api'', js ''swagger'', js ''map.json''] = js ''/api/swagger/map.json''"
    by code_simp
  ultimately show ?thesis by (simp add: resolve_def)
qed

text \<open>A missing script ends the handler.\<close>

lemma missing_script:
  "swagger_bundle w = None \<or> standalone_preset w = None \<Longrightarrow> window_onload w = (Inl ReferenceError, w)"
  by (auto simp: window_onload_def global_def bnd_def split: option.split)

subsection \<open>Properties\<close>

text \<open>C38: When the page has loaded, the handler calls the bundle once with the configuration and
  keeps what it returns as ui; it ends in a ReferenceError when a script is missing and passes on
  an exception of the bundle; and on every page one directory below the root the address of the
  configuration is the published one, /api/swagger/map.json.\<close>

theorem swagger_started:
  fixes w :: "('s, 'ui, 'p, 'g) window"
  assumes "47 \<notin> set d" "47 \<notin> set f"
  shows "seq swagger_initializer load_event w =
     (case (swagger_bundle w, standalone_preset w) of
        (Some b, Some p) \<Rightarrow>
          (case call b (swagger_config b p) (page w) of
             (Inl e, s) \<Rightarrow> (Inl e, w\<lparr>onload := True, page := s\<rparr>)
           | (Inr u, s) \<Rightarrow> (Inr (), w\<lparr>onload := True, page := s, ui := Some u\<rparr>))
      | _ \<Rightarrow> (Inl ReferenceError, w\<lparr>onload := True\<rparr>)) \<and>
     (\<forall>(b :: ('s, 'ui, 'p, 'g) ui_bundle) p.
        resolve (47 # d @ 47 # f) (config_url (swagger_config b p)) = js ''/api/swagger/map.json'')"
proof -
  let ?w = "w\<lparr>onload := True\<rparr>"
  have run: "seq swagger_initializer load_event w = window_onload ?w"
    by (simp add: swagger_initializer_def load_event_def)
  have "window_onload ?w =
     (case (swagger_bundle w, standalone_preset w) of
        (Some b, Some p) \<Rightarrow>
          (case call b (swagger_config b p) (page w) of
             (Inl e, s) \<Rightarrow> (Inl e, ?w\<lparr>page := s\<rparr>)
           | (Inr u, s) \<Rightarrow> (Inr (), ?w\<lparr>page := s, ui := Some u\<rparr>))
      | _ \<Rightarrow> (Inl ReferenceError, ?w))"
    using missing_script [of ?w]
    by (auto simp: window_onload_def global_def call_bundle_def bnd_def modify_def split: option.split prod.split sum.split)
  then show ?thesis using description_path [OF assms] by (simp add: run swagger_config_def)
qed

text \<open>A bundle that counts its calls and returns the layout.\<close>

definition counting_bundle :: "(nat, jstr, bool, nat) ui_bundle" where
  "counting_bundle = \<lparr>call = (\<lambda>c n. (Inr (layout c), n + 1)), apis = True, download_url = 0\<rparr>"

lemma swagger_started_witness:
  "seq swagger_initializer load_event
     \<lparr>swagger_bundle = Some counting_bundle, standalone_preset = Some False, onload = False, ui = None, page = 0\<rparr> =
   (Inr (), \<lparr>swagger_bundle = Some counting_bundle, standalone_preset = Some False, onload = True,
      ui = Some (js ''StandaloneLayout''), page = 1\<rparr>) \<and>
   resolve (js ''/swagger-ui/index.html'') (config_url (swagger_config counting_bundle False)) =
     js ''/api/swagger/map.json''"
proof -
  have d: "js ''/swagger-ui/index.html'' = 47 # js ''swagger-ui'' @ 47 # js ''index.html''"
    "(47 :: unit16) \<notin> set (js ''swagger-ui'')" "(47 :: unit16) \<notin> set (js ''index.html'')" by code_simp+
  show ?thesis
    using swagger_started [OF d(2,3), of
      "\<lparr>swagger_bundle = Some counting_bundle, standalone_preset = Some False, onload = False, ui = None, page = 0\<rparr>"]
    unfolding d(1) by (simp add: counting_bundle_def swagger_config_def)
qed

end
