(* ===== verification/Plugins.thy ===== *)
theory Plugins
  imports Pages Requests Queries
begin

section \<open>The pages of the plugins and of the recording\<close>

text \<open>
  The scripts of the templates under \<open>jte/generic\<close> and the search of \<open>jte/recording.jte\<close>: they
  collect a form with \<open>retrieveValues\<close> and send it.  The server puts the ids of the protocol instance
  and of the plugin into the scripts; here they are arguments.  The callbacks the scripts pass to
  \<open>sendData\<close> and \<open>getData\<close> are \<open>settings_callback\<close> and \<open>rewrite_callback\<close>, one for each page.
\<close>

subsection \<open>Objects of the scripts\<close>

text \<open>An object literal.\<close>

definition literal :: "(jstr \<times> val) list \<Rightarrow> nat js_prog" where
  "literal ps = (\<lambda>w. (Inr (length (objs w)), w\<lparr>objs := objs w @ [Obj ps]\<rparr>))"

definition plugin_path :: "jstr \<Rightarrow> jstr \<Rightarrow> string \<Rightarrow> jstr" where
  "plugin_path instanceId plugin rest =
     js ''/api/protocols/'' @ instanceId @ js ''/plugins/'' @ plugin @ js rest"

definition json_type :: jstr where "json_type = js ''application/json''"

definition negative_one :: val where "negative_one = Num (round_num True 1 1)"

subsection \<open>Settings\<close>

text \<open>\<open>updateData\<close>, the same in every plugin but for the object.\<close>

definition updateData :: "jstr \<Rightarrow> jstr \<Rightarrow> (jstr \<times> val) list \<Rightarrow> unit js_prog" where
  "updateData instanceId plugin ps =
     bnd (literal ps) (\<lambda>obj.
     bnd (retrieveValues obj) (\<lambda>data.
     seq (log_at ''log'' [data])
    (bnd (json_stringify data) (\<lambda>s.
       sendData (plugin_path instanceId plugin ''/settings'') (js ''PUT'') s json_type (Function 2 0)))))"

definition latency_updateData :: "jstr \<Rightarrow> jstr \<Rightarrow> bool \<Rightarrow> unit js_prog" where
  "latency_updateData instanceId plugin active =
     updateData instanceId plugin
       [(js ''active'', Bool active), (js ''minMs'', Num zero), (js ''maxMs'', Num zero),
        (js ''percentAction'', Num zero)]"

definition network_error_updateData :: "jstr \<Rightarrow> jstr \<Rightarrow> bool \<Rightarrow> unit js_prog" where
  "network_error_updateData instanceId plugin active =
     updateData instanceId plugin [(js ''active'', Bool active), (js ''percentAction'', Num zero)]"

definition record_updateData :: "jstr \<Rightarrow> jstr \<Rightarrow> bool \<Rightarrow> unit js_prog" where
  "record_updateData instanceId plugin active =
     updateData instanceId plugin [(js ''active'', Bool active), (js ''ignoreTrivialCalls'', Bool True)]"

definition replay_updateData :: "jstr \<Rightarrow> jstr \<Rightarrow> bool \<Rightarrow> unit js_prog" where
  "replay_updateData instanceId plugin active =
     updateData instanceId plugin
       [(js ''active'', Bool active), (js ''ignoreTrivialCalls'', Bool True),
        (js ''blockExternal'', Bool True), (js ''respectCallDuration'', Bool False)]"

definition rest_updateData :: "jstr \<Rightarrow> jstr \<Rightarrow> bool \<Rightarrow> unit js_prog" where
  "rest_updateData instanceId plugin active =
     updateData instanceId plugin
       ((js ''active'', Bool active) #
        map (\<lambda>k. (js k, Null)) [''name'', ''target'', ''inputType'', ''phase'', ''inputMatcher'', ''outputType'',
          ''outputMatcher''])"

text \<open>The callback.\<close>

definition settings_callback :: "nat \<Rightarrow> nat \<Rightarrow> jstr \<Rightarrow> unit js_prog" where
  "settings_callback f status response = (if status = 200 then reload else ret ())"

subsection \<open>Fragments\<close>

text \<open>\<open>htmx.ajax\<close> with a target and the swap \<open>outerHTML\<close>.\<close>

definition ajax_get :: "jstr \<Rightarrow> string \<Rightarrow> unit js_prog" where
  "ajax_get path target =
     modify (\<lambda>w. w\<lparr>ajax := ajax w @ [(js ''GET'', path, js target, js ''outerHTML'')]\<rparr>)"

definition openSpecificFile :: "jstr \<Rightarrow> jstr \<Rightarrow> jstr \<Rightarrow> unit js_prog" where
  "openSpecificFile instanceId plugin name =
     ajax_get (js ''/protocols/'' @ instanceId @ js ''/plugins/'' @ plugin @ js ''/file/'' @ name) ''#singleFile''"

subsection \<open>The rewrite plugin\<close>

definition rewrite_saveContentFile :: "jstr \<Rightarrow> unit js_prog" where
  "rewrite_saveContentFile instanceId =
     bnd (retrieveValue (js ''fileName'')) (\<lambda>filename.
     bnd (literal [(js ''toFind'', Null), (js ''toReplace'', Null), (js ''regex'', Bool False)]) (\<lambda>obj.
     bnd (retrieveValues obj) (\<lambda>data.
     bnd (gets (\<lambda>w. plugin_path instanceId (js ''rewrite-plugin'') ''/rewrite/'' @ to_string (objs w) filename)) (\<lambda>path.
     bnd (json_stringify data) (\<lambda>s.
       sendData path (js ''POST'') s json_type (Function 0 0))))))"

definition rewrite_testMatching :: "jstr \<Rightarrow> unit js_prog" where
  "rewrite_testMatching instanceId =
     bnd (retrieveValue (js ''currentFileName'')) (\<lambda>filename.
     bnd (literal [(js ''toFind'', Null), (js ''toReplace'', Null), (js ''testTarget'', Null), (js ''regex'', Bool False)]) (\<lambda>obj.
     bnd (retrieveValues obj) (\<lambda>data.
     bnd (json_stringify data) (\<lambda>s.
       sendData (plugin_path instanceId (js ''rewrite-plugin'') ''/test'') (js ''POST'') s json_type (Function 2 1)))))"

definition rewrite_deleteContentFile :: "jstr \<Rightarrow> unit js_prog" where
  "rewrite_deleteContentFile instanceId =
     bnd (retrieveValue (js ''fileName'')) (\<lambda>filename.
     bnd (gets (\<lambda>w. plugin_path instanceId (js ''rewrite-plugin'') ''/rewrite/'' @ to_string (objs w) filename)) (\<lambda>path.
       getData path (js ''DELETE'') (Function 0 2)))"

text \<open>The callbacks of the page: of saving, of testing, of deleting.\<close>

definition rewrite_callback :: "nat \<Rightarrow> nat \<Rightarrow> jstr \<Rightarrow> unit js_prog" where
  "rewrite_callback f code result =
     (if f = 1 then showNotification (js ''info'') (Str (js ''Result'')) (Str result) else reload)"

subsection \<open>Searching the recording\<close>

definition searchRecording :: "unit js_prog" where
  "searchRecording =
     bnd (retrieveValue (js ''tpmqlQuery'')) (\<lambda>tpmql.
     bnd (retrieveValue (js ''tpmqlQueryStart'')) (\<lambda>start.
     bnd (retrieveValue (js ''tpmqlQueryLimit'')) (\<lambda>limit w.
       case encodeURI (to_string (objs w) tpmql) of
         Inl e \<Rightarrow> (Inl e, w)
       | Inr q \<Rightarrow>
           ajax_get (js ''/recording/search?'' @ js ''tpmql='' @ q @ js ''&start='' @ to_string (objs w) start @
             js ''&limit='' @ to_string (objs w) limit) ''#recordingSearchResult'' w)))"

definition openById :: "jstr \<Rightarrow> unit js_prog" where
  "openById i =
     seq (openAccordion (js ''collapseStorageSingleFile''))
         (ajax_get (js ''/recording/search/'' @ i) ''#recordingSingleFile'')"

subsection \<open>What a form sends\<close>

fun is_scalar :: "val \<Rightarrow> bool" where
  "is_scalar (Ref _) \<longleftrightarrow> False"
| "is_scalar Undefined \<longleftrightarrow> False"
| "is_scalar _ \<longleftrightarrow> True"

fun scalar_json :: "val \<Rightarrow> json" where
  "scalar_json (Bool b) = JBool b"
| "scalar_json (Num x) = JNum x"
| "scalar_json (Str s) = JStr s"
| "scalar_json _ = JNull"

lemma tree_scalar: "is_scalar v \<Longrightarrow> tree h st v = Inr (Some (scalar_json v))"
  by (cases v) simp_all

lemma tree_scalars:
  "\<forall>p \<in> set ps. is_scalar (snd p) \<Longrightarrow> tree_props h st qs = Inr ts \<Longrightarrow>
     tree_props h st (ps @ qs) = Inr (map (\<lambda>(k, v). (k, scalar_json v)) ps @ ts)"
  by (induction ps) (auto simp: tree_scalar)

text \<open>
  An object literal whose members are scalars, on a page where the elements with their names are
  form controls.
\<close>

definition form_fields :: "world \<Rightarrow> (jstr \<times> val) list \<Rightarrow> bool" where
  "form_fields w ps \<longleftrightarrow> props_ok ps \<and>
     (\<forall>(k, v) \<in> set ps. is_scalar v \<and> val_ok 0 v \<and>
        (case element_by_id w k of None \<Rightarrow> True | Some el \<Rightarrow> role (node_at w el) \<noteq> Plain))"

definition form_json :: "world \<Rightarrow> (jstr \<times> val) list \<Rightarrow> (jstr \<times> json) list" where
  "form_json w ps = map (\<lambda>(k, v). (k, scalar_json v)) (map (collected w) ps)"

lemma fst_collected [simp]: "fst (collected w p) = fst p"
  by (auto simp: collected_def split: option.split)

lemma node_value_scalar: "node_ok n \<Longrightarrow> role n \<noteq> Plain \<Longrightarrow> is_scalar (node_value h n)"
  by (cases "files n") (auto simp: node_value_def get_value_def node_ok_def)

lemma collected_scalar:
  assumes "tree_ok w" "typed w" "form_fields w ps" "p \<in> set ps"
  shows "is_scalar (snd (collected w p))"
proof (cases "element_by_id w (fst p)")
  case None
  then show ?thesis using assms(3,4) by (cases p) (auto simp: collected_def form_fields_def)
next
  case (Some el)
  then have "role (node_at w el) \<noteq> Plain" using assms(3,4) by (cases p) (auto simp: form_fields_def)
  then show ?thesis
    using typed_node [OF assms(2) element_by_id_lt [OF assms(1) Some]] node_value_scalar
    by (simp add: collected_def Some)
qed

lemma form_fields_ok: "form_fields w ps \<Longrightarrow> obj_ok n (Obj ps)"
  by (auto simp: form_fields_def intro: val_ok_mono)

lemma fst_form_json: "map fst (form_json w ps) = map fst ps"
  by (simp add: form_json_def comp_def case_prod_beta)

lemma form_json_keys: "fst ` set (form_json w ps) = fst ` set ps"
  using arg_cong [OF fst_form_json [of w ps], of set] by simp

lemma form_json_wf:
  assumes "tree_ok w" "typed w" "form_fields w ps"
  shows "wf_json (JObj (form_json w ps))" "map fst (form_json w ps) = map fst ps"
proof -
  show keys: "map fst (form_json w ps) = map fst ps" by (rule fst_form_json)
  have "obj_ok (length (objs w)) (Obj (map (collected w) ps))"
    using collected_ok [OF assms(1,2) form_fields_ok [OF assms(3)]] .
  moreover have "wf_json (scalar_json v)" if "val_ok n v" for n v using that by (cases v) simp_all
  ultimately have "wf_json_props (form_json w ps)" by (fastforce simp: wf_json_props_all form_json_def)
  moreover have "props_ok (form_json w ps)" using props_ok_keys [OF keys] assms(3) by (simp add: form_fields_def)
  ultimately show "wf_json (JObj (form_json w ps))" by simp
qed

text \<open>A literal, then \<open>retrieveValues\<close> on it.\<close>

definition warned_lines :: "world \<Rightarrow> (jstr \<times> val) list \<Rightarrow> (string \<times> val list) list" where
  "warned_lines w ps = map warning (filter (warned w) ps)"

lemma typed_nodes: "typed w \<Longrightarrow> nodes_ok w"
  by (simp add: typed_def nodes_ok_def)

lemma collect_literal:
  assumes tree: "tree_ok w" and typed: "typed w" and ps: "form_fields w ps"
  shows "bnd (literal ps) retrieveValues w =
    (Inr (Ref (length (objs w))), w\<lparr>objs := objs w @ [Obj (map (collected w) ps)],
       console := console w @ warned_lines w ps\<rparr>)"
proof -
  let ?u = "w\<lparr>objs := objs w @ [Obj ps]\<rparr>"
  have ids: "element_by_id ?u i = element_by_id w i" for i
    by (rule element_by_id_cong) (simp_all add: node_at_def)
  have "collected ?u p = collected w p" if "p \<in> set ps" for p
  proof (cases "element_by_id w (fst p)")
    case (Some el)
    have "node_ok (node_at w el)" using typed_node [OF typed element_by_id_lt [OF tree Some]] by simp
    from node_value_heap [OF this] show ?thesis by (simp add: collected_def ids Some)
  qed (simp add: collected_def ids)
  then have c: "map (collected ?u) ps = map (collected w) ps" by simp
  have "warned ?u = warned w" by (simp add: warned_def ids fun_eq_iff)
  moreover have "distinct (map fst ps)" using ps by (simp add: form_fields_def props_ok_def)
  moreover have "tree_ok ?u" "nodes_ok ?u" using tree typed_nodes [OF typed] by (simp_all add: tree_ok_def nodes_ok_def)
  ultimately show ?thesis
    using retrieve_all [of ?u "length (objs w)" ps] c
    by (simp add: literal_def bnd_def warned_lines_def)
qed

lemma tree_form:
  assumes "tree_ok w" "typed w" "form_fields w ps"
  shows "tree (objs w @ [Obj (map (collected w) ps)]) [] (Ref (length (objs w))) = Inr (Some (JObj (form_json w ps)))"
  using tree_scalars [of "map (collected w) ps" _ _ "[]" "[]"] collected_scalar [OF assms] by (simp add: form_json_def)

subsection \<open>Saving settings\<close>

lemma json_header: "header_value json_type = Inr json_type"
  by (simp add: header_value_def json_type_def js_def strip_blanks_def)

lemma ns_ok_requests [simp]: "ns_ok (w\<lparr>requests := rs\<rparr>) = ns_ok w"
  and on_screen_requests [simp]: "on_screen (w\<lparr>requests := rs\<rparr>) = on_screen w"
  by (simp_all add: ns_ok_def tree_ok_def timers_ok_def will_go_def on_screen_def split: option.splits)

text \<open>Collecting a form and sending its text.\<close>

lemma bnd_assoc: "bnd (bnd m f) g = bnd m (\<lambda>x. bnd (f x) g)"
  by (auto simp: bnd_def fun_eq_iff split: prod.split sum.split)

lemma update_data_step:
  assumes tree: "tree_ok w" and typed: "typed w" and ps: "form_fields w ps"
    and url: "url_ok w (plugin_path instanceId plugin ''/settings'')"
  defines "path \<equiv> plugin_path instanceId plugin ''/settings''"
  shows "updateData instanceId plugin ps w =
    (Inr (), w\<lparr>objs := objs w @ [Obj (map (collected w) ps)],
       console := console w @ warned_lines w ps @ [(''log'', [Ref (length (objs w))])],
       requests := requests w @ [issued (js ''PUT'') path [(js ''Content-Type'', json_type)]
         (TextBody (json_text (JObj (form_json w ps)))) (OnSend path json_type (js ''PUT'') (Function 2 0))]\<rparr>)"
proof -
  let ?u = "w\<lparr>objs := objs w @ [Obj (map (collected w) ps)],
    console := console w @ warned_lines w ps @ [(''log'', [Ref (length (objs w))])]\<rparr>"
  have s: "json_stringify (Ref (length (objs w))) ?u = (Inr (Str (json_text (JObj (form_json w ps)))), ?u)"
    using stringify_tree [OF tree_form [OF tree typed ps]] by (simp add: json_stringify_def)
  have u: "url_ok ?u path" using url by (simp add: path_def)
  have "updateData instanceId plugin ps w =
     sendData path (js ''PUT'') (Str (json_text (JObj (form_json w ps)))) json_type (Function 2 0) ?u"
    unfolding updateData_def bnd_assoc [symmetric] bnd_Inr [where m = "bnd (literal ps) retrieveValues", OF collect_literal [OF tree typed ps]]
    by (simp add: seq_Inr log_at_step bnd_Inr s path_def)
  then show ?thesis using sendData_ok [OF put_method u json_header] by (simp add: body_of_def nullish_def)
qed

text \<open>C10: Saving the settings of a plugin makes one PUT request whose text parses to the object of
  the page with the values of the form in it, and leaves the page as it was.\<close>

theorem settings_saved:
  assumes "tree_ok w" "typed w" "form_fields w ps"
    and "url_ok w (plugin_path instanceId plugin ''/settings'')"
  shows "\<exists>w' text. updateData instanceId plugin ps w = (Inr (), w') \<and>
     requests w' = requests w @ [issued (js ''PUT'') (plugin_path instanceId plugin ''/settings'')
       [(js ''Content-Type'', json_type)] (TextBody text)
       (OnSend (plugin_path instanceId plugin ''/settings'') json_type (js ''PUT'') (Function 2 0))] \<and>
     json_parse text = Some (via_text (JObj (form_json w ps))) \<and>
     nodes w' = nodes w \<and> forest w' = forest w \<and> store w' = store w"
  using update_data_step [OF assms] form_json_wf(1) [OF assms(1-3)]
  by (simp, intro exI [of _ "json_text (JObj (form_json w ps))"], simp)

text \<open>The page of the latency plugin, with 250 typed as the minimum and no other element of the form.\<close>

definition latency_page :: world where
  "latency_page = sample_page\<lparr>
     nodes := [blank, blank, blank\<lparr>role := NumberInput, ident := js ''minMs'', stored := Str (js ''250'')\<rparr>, blank, blank]\<rparr>"

definition latency_fields :: "(jstr \<times> val) list" where
  "latency_fields = [(js ''active'', Bool True), (js ''minMs'', Num zero), (js ''maxMs'', Num zero), (js ''percentAction'', Num zero)]"

lemma latency_page_ok: "tree_ok latency_page" "typed latency_page" "form_fields latency_page latency_fields"
  "form_json latency_page latency_fields = [(js ''active'', JBool True), (js ''minMs'', JNum (round_num False 250 1)),
     (js ''maxMs'', JNum zero), (js ''percentAction'', JNum zero)]"
proof -
  show "tree_ok latency_page" using sample_tree by (simp add: tree_ok_def latency_page_def) (simp add: sample_page_def)
  show "typed latency_page" by (simp add: typed_def latency_page_def sample_page_def heap_ok_def node_ok_def blank_def)
  have ids: "element_by_id latency_page (js ''active'') = None" "element_by_id latency_page (js ''minMs'') = Some 2"
    "element_by_id latency_page (js ''maxMs'') = None" "element_by_id latency_page (js ''percentAction'') = None"
    by (simp_all add: latency_page_def sample_page_def element_by_id_def document_def node_at_def blank_def)
  have "props_ok latency_fields" by code_simp
  then show "form_fields latency_page latency_fields"
    by (simp add: form_fields_def latency_fields_def ids) (simp add: latency_page_def node_at_def)
  have "node_value h (node_at latency_page 2) = Num (round_num False 250 1)" for h
  proof -
    have "string_to_num (js ''250'') = round_num False 250 1" by code_simp
    then show ?thesis by (simp add: node_value_def node_at_def latency_page_def get_value_def to_number_def)
  qed
  then show "form_json latency_page latency_fields = [(js ''active'', JBool True), (js ''minMs'', JNum (round_num False 250 1)),
     (js ''maxMs'', JNum zero), (js ''percentAction'', JNum zero)]"
    by (simp add: form_json_def latency_fields_def collected_def ids)
qed

lemma settings_saved_witness:
  "\<exists>w' t. latency_updateData (js ''http-01'') (js ''latency-plugin'') True latency_page = (Inr (), w') \<and>
     map req_body (requests w') = [TextBody t] \<and>
     json_parse t = Some (via_text (JObj [(js ''active'', JBool True), (js ''minMs'', JNum (round_num False 250 1)),
       (js ''maxMs'', JNum zero), (js ''percentAction'', JNum zero)]))"
proof -
  have "latency_updateData i p True = updateData i p latency_fields" for i p
    by (simp add: latency_updateData_def latency_fields_def)
  moreover have "url_ok latency_page u" "requests latency_page = []" for u
    by (simp_all add: latency_page_def sample_page_def)
  ultimately show ?thesis
    using settings_saved [OF latency_page_ok(1-3), of "js ''http-01''" "js ''latency-plugin''"]
    by (auto simp: latency_page_ok(4) issued_def)
qed

text \<open>C23: When the settings are answered with 200 the page reloads once and nothing else happens;
  with any other status it does not reload, the storage stays and one error is logged and shown.\<close>

theorem settings_answered:
  assumes steps: "net_steps settings_callback x w (es @ [e]) w'" and quiet: "\<forall>e \<in> set es. \<not> final e" "final e"
    and change: "on_change (requests w ! x) = Some (OnSend path contentType verb (Function 2 0))" and ok: "ns_ok w"
  shows "let r = after_events (es @ [e]) (requests w ! x)
     in if req_status r = 200
        then w' = (set_request x (\<lambda>_. r) w)\<lparr>reloads := reloads w + 1\<rparr>
        else reloads w' = reloads w \<and> store w' = store w \<and>
             console w' = console w @ [(''error'', [status_line (req_status r) (req_response r)])] \<and>
             (\<exists>n. on_screen w' = on_screen w @ [n])"
proof -
  define r where "r = after_events (es @ [e]) (requests w ! x)"
  let ?u = "set_request x (\<lambda>_. r) w"
  have w': "w' = snd (send_change settings_callback path contentType verb (Function 2 0) DONE (req_status r) (req_response r) ?u)"
    using request_done [OF steps change quiet] by (simp add: change_of_def r_def Let_def)
  have cb: "call_back settings_callback (Function 2 0) st resp = settings_callback 0 st resp" for st resp
    by (simp add: call_back_def)
  have u: "ns_ok ?u" "on_screen ?u = on_screen w" "console ?u = console w" "store ?u = store w" "reloads ?u = reloads w"
    using ok by (simp_all add: set_request_def)
  show ?thesis
  proof (cases "req_status r = 200")
    case True
    then show ?thesis
      by (simp add: w' send_change_def cb settings_callback_def seq_def bnd_def reload_def modify_def ret_def
          set_request_def flip: r_def)
  next
    case False
    then have "call_back settings_callback (Function 2 0) (req_status r) (req_response r) ?u = (Inr (), ?u)"
      by (simp add: cb settings_callback_def ret_def)
    then have "w' = snd (seq (log_at ''error'' [status_line (req_status r) (req_response r)])
        (showNotification (js ''error'') (Str (js ''Error sending request''))
          (Str (js ''Path: '' @ path @ 10 # js ''Content Type: '' @ contentType @ 10 # js ''Verb: '' @ verb))) ?u)"
      using False by (simp add: w' send_change_def seq_Inr)
    moreover obtain v n where "seq (log_at ''error'' [status_line (req_status r) (req_response r)])
        (showNotification (js ''error'') (Str (js ''Error sending request''))
          (Str (js ''Path: '' @ path @ 10 # js ''Content Type: '' @ contentType @ 10 # js ''Verb: '' @ verb))) ?u = (Inr (), v)"
        "on_screen v = on_screen ?u @ [n]"
        "rest_of v = rest_of (?u\<lparr>console := console ?u @ [(''error'', [status_line (req_status r) (req_response r)])]\<rparr>)"
      using report_error [OF u(1)] by blast
    ultimately show ?thesis using False u by (simp add: rest_of_def flip: r_def)
  qed
qed

definition asked_page :: world where
  "asked_page = sample_ready\<lparr>requests :=
     [issued (js ''PUT'') (js ''/x'') [] NoBody (OnSend (js ''/x'') json_type (js ''PUT'') (Function 2 0))]\<rparr>"

lemma settings_answered_witness:
  "\<exists>w'. net_steps settings_callback 0 asked_page [Headers 500, Loaded (js ''no'')] w' \<and> reloads w' = 0 \<and>
     (\<exists>n. on_screen w' = on_screen asked_page @ [n])"
proof -
  let ?k = "OnSend (js ''/x'') json_type (js ''PUT'') (Function 2 0)"
  let ?es = "[Headers 500, Loaded (js ''no'')]"
  define w' where "w' = foldl (\<lambda>w e. deliver (change_of settings_callback ?k) 0 e w) asked_page ?es"
  have steps: "net_steps settings_callback 0 asked_page ?es w'"
    unfolding w'_def foldl.simps
    by (rule net_steps_Cons [OF net_stepI [where k = ?k] net_steps_Cons [OF net_stepI [where k = ?k] net_steps_Nil]])
      (simp_all add: asked_page_def issued_def deliver_def Let_def set_request_def change_of_def send_change_def
        DONE_def ret_def)
  have "reloads asked_page = 0" "ns_ok asked_page"
    using sample_ready_ok(1) by (simp_all add: asked_page_def) (simp add: sample_ready_def sample_page_def)
  then show ?thesis
    using steps settings_answered [of 0 asked_page "[Headers 500]" "Loaded (js ''no'')" w' "js ''/x''" json_type "js ''PUT''"]
    by (auto simp: asked_page_def issued_def after_events_def Let_def)
qed

subsection \<open>The rewrite page\<close>

definition rewrite_fields :: "(jstr \<times> val) list" where
  "rewrite_fields = [(js ''toFind'', Null), (js ''toReplace'', Null), (js ''regex'', Bool False)]"

text \<open>The text in an input.\<close>

definition text_at :: "world \<Rightarrow> jstr \<Rightarrow> jstr option" where
  "text_at w k =
     (case element_by_id w k of
        None \<Rightarrow> None
      | Some el \<Rightarrow>
          (if role (node_at w el) = TextInput
           then case stored (node_at w el) of Str s \<Rightarrow> Some s | _ \<Rightarrow> None else None))"

lemma text_atD:
  assumes "text_at w k = Some s"
  obtains el where "element_by_id w k = Some el" "role (node_at w el) = TextInput" "stored (node_at w el) = Str s"
  using assms by (auto simp: text_at_def split: option.splits if_splits val.splits)

lemma retrieve_text:
  assumes "text_at w k = Some s"
  shows "retrieveValue k w = (Inr (Str s), w)"
proof -
  obtain el where "element_by_id w k = Some el" "role (node_at w el) = TextInput" "stored (node_at w el) = Str s"
    using text_atD [OF assms] .
  then show ?thesis by (simp add: retrieveValue_found node_value_def get_value_def)
qed

text \<open>C32: Saving a rewrite rule posts the object with the values of the form under the name in the
  page; testing it on a page without an element currentFileName, as every page of the plugin is,
  throws a TypeError and sends nothing.\<close>

theorem rewrite_page:
  assumes tree: "tree_ok w" and typed: "typed w" and ps: "form_fields w rewrite_fields"
    and name: "text_at w (js ''fileName'') = Some s" "element_by_id w (js ''currentFileName'') = None"
    and url: "url_ok w (plugin_path i (js ''rewrite-plugin'') ''/rewrite/'' @ s)"
  shows "(\<exists>w' t. rewrite_saveContentFile i w = (Inr (), w') \<and> requests w' = requests w @
     [issued (js ''POST'') (plugin_path i (js ''rewrite-plugin'') ''/rewrite/'' @ s) [(js ''Content-Type'', json_type)]
        (TextBody t) (OnSend (plugin_path i (js ''rewrite-plugin'') ''/rewrite/'' @ s) json_type (js ''POST'') (Function 0 0))] \<and>
     json_parse t = Some (via_text (JObj (form_json w rewrite_fields)))) \<and>
   rewrite_testMatching i w = (Inl TypeError, w)"
proof -
  let ?path = "plugin_path i (js ''rewrite-plugin'') ''/rewrite/'' @ s" and ?t = "json_text (JObj (form_json w rewrite_fields))"
  define u where "u = w\<lparr>objs := objs w @ [Obj (map (collected w) rewrite_fields)],
    console := console w @ warned_lines w rewrite_fields\<rparr>"
  have lit: "literal rewrite_fields w = (Inr (length (objs w)), w\<lparr>objs := objs w @ [Obj rewrite_fields]\<rparr>)"
    by (simp add: literal_def)
  have rv: "retrieveValues (length (objs w)) (w\<lparr>objs := objs w @ [Obj rewrite_fields]\<rparr>) = (Inr (Ref (length (objs w))), u)"
    using collect_literal [OF tree typed ps] by (simp add: u_def bnd_Inr [where m = "literal rewrite_fields", OF lit])
  have j: "json_stringify (Ref (length (objs w))) u = (Inr (Str ?t), u)"
    using stringify_tree [OF tree_form [OF tree typed ps]] by (simp add: json_stringify_def u_def)
  have "rewrite_saveContentFile i w = sendData ?path (js ''POST'') (Str ?t) json_type (Function 0 0) u"
    unfolding rewrite_saveContentFile_def rewrite_fields_def [symmetric]
    by (simp add: bnd_Inr retrieve_text [OF name(1)] lit rv j)
  moreover have "url_ok u ?path" using url by (simp add: u_def)
  ultimately have "\<exists>w'. rewrite_saveContentFile i w = (Inr (), w') \<and> requests w' = requests w @
     [issued (js ''POST'') ?path [(js ''Content-Type'', json_type)] (TextBody ?t)
       (OnSend ?path json_type (js ''POST'') (Function 0 0))]"
    using sendData_ok [OF post_method _ json_header, of u ?path] by (simp add: body_of_def nullish_def u_def)
  moreover have "rewrite_testMatching i w = (Inl TypeError, w)"
    by (simp add: rewrite_testMatching_def bnd_Inl retrieveValue_missing name(2))
  ultimately show ?thesis using form_json_wf(1) [OF tree typed ps] json_parse_text by blast
qed

text \<open>The page of a rewrite rule named \<open>r1\<close>, a regular expression.\<close>

definition rewritten_page :: world where
  "rewritten_page = sample_page\<lparr>
     nodes := [blank, blank, blank\<lparr>role := TextInput, ident := js ''fileName'', stored := Str (js ''r1'')\<rparr>,
       blank\<lparr>role := TextArea, ident := js ''toFind'', stored := Str (js ''a.b'')\<rparr>,
       blank\<lparr>role := Checkbox, ident := js ''regex'', stored := Str (js ''on''), checked := True\<rparr>]\<rparr>"

lemma rewritten_page_ids:
  "element_by_id rewritten_page (js ''fileName'') = Some 2" "element_by_id rewritten_page (js ''toFind'') = Some 3"
  "element_by_id rewritten_page (js ''regex'') = Some 4" "element_by_id rewritten_page (js ''toReplace'') = None"
  "element_by_id rewritten_page (js ''currentFileName'') = None"
  by (simp_all add: rewritten_page_def sample_page_def element_by_id_def document_def node_at_def blank_def)

lemma rewritten_page_ok: "tree_ok rewritten_page" "typed rewritten_page" "form_fields rewritten_page rewrite_fields"
  "form_json rewritten_page rewrite_fields =
     [(js ''toFind'', JStr (js ''a.b'')), (js ''toReplace'', JNull), (js ''regex'', JBool True)]"
proof -
  show "tree_ok rewritten_page" using sample_tree by (simp add: tree_ok_def rewritten_page_def) (simp add: sample_page_def)
  show "typed rewritten_page" by (simp add: typed_def rewritten_page_def sample_page_def heap_ok_def node_ok_def blank_def)
  have "props_ok rewrite_fields" by code_simp
  then show "form_fields rewritten_page rewrite_fields"
    by (simp add: form_fields_def rewrite_fields_def rewritten_page_ids) (simp add: rewritten_page_def node_at_def)
  show "form_json rewritten_page rewrite_fields =
     [(js ''toFind'', JStr (js ''a.b'')), (js ''toReplace'', JNull), (js ''regex'', JBool True)]"
    by (simp add: form_json_def rewrite_fields_def collected_def rewritten_page_ids)
      (simp add: node_value_def get_value_def rewritten_page_def node_at_def blank_def)
qed

lemma rewrite_page_witness:
  "\<exists>w' t. rewrite_saveContentFile (js ''http-01'') rewritten_page = (Inr (), w') \<and>
     map req_body (requests w') = [TextBody t] \<and>
     json_parse t = Some (JObj [(js ''toFind'', JStr (js ''a.b'')), (js ''toReplace'', JNull), (js ''regex'', JBool True)]) \<and>
     rewrite_testMatching (js ''http-01'') rewritten_page = (Inl TypeError, rewritten_page)"
proof -
  have "text_at rewritten_page (js ''fileName'') = Some (js ''r1'')"
    by (simp add: text_at_def rewritten_page_ids) (simp add: rewritten_page_def node_at_def)
  moreover have "url_ok rewritten_page u" "requests rewritten_page = []" for u
    by (simp_all add: rewritten_page_def sample_page_def)
  ultimately show ?thesis
    using rewrite_page [OF rewritten_page_ok(1-3), of "js ''r1''" "js ''http-01''"]
    by (auto simp: rewritten_page_ok(4) rewritten_page_ids issued_def)
qed

subsection \<open>Searching\<close>

lemma quiet_number:
  assumes "wf_num x"
  shows "quiet (num_to_string x)" "37 \<notin> set (num_to_string x)" "38 \<notin> set (num_to_string x)"
proof -
  define G where "G c \<longleftrightarrow> \<not> query_escaped (unat c) \<and> c \<noteq> 37 \<and> c \<noteq> 38" for c :: unit16
  have d: "is_digit c \<Longrightarrow> G c" for c by (auto simp: G_def is_digit_def word_le_nat_alt query_escaped_def)
  have "\<forall>c \<in> set (js ''NaNInfinity0.e+-''). G c" by (simp add: js_def G_def query_escaped_def)
  then have g: "G 78" "G 97" "G 73" "G 110" "G 102" "G 105" "G 116" "G 121" "G 48" "G 46" "G 101" "G 43" "G 45"
    by (simp_all add: js_def)
  have "\<forall>c \<in> set (num_to_string x). G c"
    using assms
    by (cases x) (auto simp: js_def num_to_string.simps Let_def g dest!: fmt_digits_units dec_digits_digit d
        split: if_splits prod.splits)
  then show "quiet (num_to_string x)" "37 \<notin> set (num_to_string x)" "38 \<notin> set (num_to_string x)"
    by (auto simp: quiet_def G_def)
qed

text \<open>The form of the search: its query and the texts of its two numbers.\<close>

definition search_form :: "world \<Rightarrow> jstr \<Rightarrow> jstr \<Rightarrow> jstr \<Rightarrow> bool" where
  "search_form w q s t \<longleftrightarrow>
     (\<exists>el. element_by_id w (js ''tpmqlQuery'') = Some el \<and> role (node_at w el) = TextArea \<and>
        stored (node_at w el) = Str q) \<and>
     (\<forall>(k, u) \<in> {(js ''tpmqlQueryStart'', s), (js ''tpmqlQueryLimit'', t)}.
        \<exists>el. element_by_id w k = Some el \<and> role (node_at w el) = NumberInput \<and> stored (node_at w el) = Str u)"

lemma retrieve_number:
  assumes "element_by_id w k = Some el" "role (node_at w el) = NumberInput" "stored (node_at w el) = Str s"
  shows "retrieveValue k w = (Inr (Num (string_to_num s)), w)"
  using assms by (simp add: retrieveValue_found node_value_def get_value_def to_number_def)

text \<open>C15: The search of the recording sends one request. The server reads the text of the query up to
  its first # or &, a space for each plus, as the first value; without an ampersand before a # the
  server gets exactly that text and the two numbers, which a # takes away. A lone surrogate is a
  URIError and sends nothing.\<close>

theorem search_query:
  assumes "search_form w q s t"
  shows "if paired q
    then \<exists>Q. searchRecording w =
        (Inr (), w\<lparr>ajax := ajax w @ [(js ''GET'', js ''/recording/search?'' @ Q, js ''#recordingSearchResult'', js ''outerHTML'')]\<rparr>) \<and>
      query_part (hd (split_at 38 (sent_query Q))) =
        Some (js ''tpmql'', map plus_unit (takeWhile (\<lambda>c. c \<notin> {35, 38}) q)) \<and>
      (38 \<notin> set (takeWhile (\<lambda>c. c \<noteq> 35) q) \<longrightarrow> queryToMap (sent_query Q) =
         Some (if 35 \<in> set q then [js ''tpmql'' \<mapsto> map plus_unit (takeWhile (\<lambda>c. c \<noteq> 35) q)]
               else [js ''tpmql'' \<mapsto> map plus_unit q,
                     js ''start'' \<mapsto> map plus_unit (num_to_string (string_to_num s)),
                     js ''limit'' \<mapsto> map plus_unit (num_to_string (string_to_num t))]))
    else searchRecording w = (Inl URIError, w)"
proof -
  let ?x = "num_to_string (string_to_num s)" and ?y = "num_to_string (string_to_num t)"
  obtain el where el: "element_by_id w (js ''tpmqlQuery'') = Some el" "role (node_at w el) = TextArea"
      "stored (node_at w el) = Str q" using assms by (auto simp: search_form_def)
  then have r1: "retrieveValue (js ''tpmqlQuery'') w = (Inr (Str q), w)"
    by (simp add: retrieveValue_found node_value_def get_value_def)
  have r2: "retrieveValue (js ''tpmqlQueryStart'') w = (Inr (Num (string_to_num s)), w)"
    "retrieveValue (js ''tpmqlQueryLimit'') w = (Inr (Num (string_to_num t)), w)"
    using assms retrieve_number by (auto simp: search_form_def)
  note run = searchRecording_def bnd_Inr r1 r2 to_string_simps
  show ?thesis
  proof (cases "paired q")
    case True
    then obtain e where e: "encodeURI q = Inr e" by (simp add: encodeURI_def)
    have "searchRecording w =
        (Inr (), w\<lparr>ajax := ajax w @ [(js ''GET'', js ''/recording/search?'' @ search_text e ?x ?y,
           js ''#recordingSearchResult'', js ''outerHTML'')]\<rparr>)"
      by (simp add: run e ajax_get_def modify_def search_text_def)
    then show ?thesis
      using search_sent [OF e quiet_number [OF wf_string_to_num [of s]] quiet_number [OF wf_string_to_num [of t]]] True by auto
  next
    case False
    then show ?thesis by (simp add: run encodeURI_def)
  qed
qed

text \<open>A query with a plus and a \<open>#\<close>.\<close>

definition searching_page :: world where
  "searching_page = sample_page\<lparr>
     nodes := [blank, blank, blank\<lparr>role := TextArea, ident := js ''tpmqlQuery'', stored := Str (js ''a+b<c#d&e'')\<rparr>,
       blank\<lparr>role := NumberInput, ident := js ''tpmqlQueryStart'', stored := Str (js ''0'')\<rparr>,
       blank\<lparr>role := NumberInput, ident := js ''tpmqlQueryLimit'', stored := Str (js ''10'')\<rparr>]\<rparr>"

lemma search_query_witness:
  "\<exists>w' Q. searchRecording searching_page = (Inr (), w') \<and>
     ajax w' = [(js ''GET'', js ''/recording/search?'' @ Q, js ''#recordingSearchResult'', js ''outerHTML'')] \<and>
     queryToMap (sent_query Q) = Some [js ''tpmql'' \<mapsto> js ''a b<c'']"
proof -
  have "element_by_id searching_page (js ''tpmqlQuery'') = Some 2" "element_by_id searching_page (js ''tpmqlQueryStart'') = Some 3"
    "element_by_id searching_page (js ''tpmqlQueryLimit'') = Some 4"
    by (simp_all add: searching_page_def sample_page_def element_by_id_def document_def node_at_def blank_def)
  then have "search_form searching_page (js ''a+b<c#d&e'') (js ''0'') (js ''10'')"
    by (simp add: search_form_def) (simp add: searching_page_def node_at_def)
  moreover have "paired (js ''a+b<c#d&e'')" "35 \<in> set (js ''a+b<c#d&e'')"
    "38 \<notin> set (takeWhile (\<lambda>c. c \<noteq> 35) (js ''a+b<c#d&e''))"
    "map plus_unit (takeWhile (\<lambda>c. c \<noteq> 35) (js ''a+b<c#d&e'')) = js ''a b<c''" by code_simp+
  moreover have "ajax searching_page = []" by (simp add: searching_page_def sample_page_def)
  ultimately show ?thesis using search_query [of searching_page "js ''a+b<c#d&e''" "js ''0''" "js ''10''"] by auto
qed

end
