(* ===== verification/Records.thy ===== *)
theory Records
  imports Plugins
begin

section \<open>Records: copied, pasted, saved as mocks\<close>

text \<open>
  \<open>copyData\<close> of \<open>jte/recording.jte\<close> puts a recorded interaction on the clipboard; \<open>pasteData\<close> and
  \<open>saveContentFile\<close> of \<open>jte/generic/mock_plugin/index.jte\<close> fill the form of a mock from the clipboard
  and post it.  The callbacks of that page are \<open>mock_callback\<close>.
\<close>

subsection \<open>The code\<close>

text \<open>\<open>try { obj.k = JSON.parse(retrieveValue(k)) } catch { obj.k = {} }\<close>.\<close>

definition parse_field :: "nat \<Rightarrow> jstr \<Rightarrow> unit js_prog" where
  "parse_field obj k =
     try_catch (bnd (retrieveValue k) (\<lambda>v. bnd (json_parse_val v) (\<lambda>x. put_member obj k x)))
       (\<lambda>error. bnd (literal []) (\<lambda>e. put_member obj k (Ref e)))"

definition collect_record :: "(jstr \<times> val) list \<Rightarrow> nat js_prog" where
  "collect_record ps =
     bnd (literal ps) (\<lambda>toSend.
     seq (retrieveValues toSend)
    (seq (parse_field toSend (js ''input''))
    (seq (parse_field toSend (js ''output''))
    (seq (log_at ''log'' [Str (js ''Copying record'')])
    (seq (log_at ''log'' [Ref toSend])
         (ret toSend))))))"

text \<open>\<open>recording.jte\<close>: a record goes to the clipboard as a text.\<close>

definition write_clipboard :: "val \<Rightarrow> unit js_prog" where
  "write_clipboard v = modify (\<lambda>w. w\<lparr>clipboard := clipboard w @ [to_string (objs w) v]\<rparr>)"

definition copied_fields :: "(jstr \<times> val) list" where
  "copied_fields =
     map (\<lambda>k. (js k, Null)) [''connectionId'', ''index'', ''durationMs'', ''type'', ''caller'', ''inputType'',
       ''outputType'', ''timestamp''] @ [(js ''constant'', Bool False)]"

definition copyData :: "unit js_prog" where
  "copyData =
     bnd (collect_record copied_fields) (\<lambda>toSend. bnd (json_stringify (Ref toSend)) write_clipboard)"

text \<open>The mock plugin: a record is pasted from the clipboard, saved, deleted.\<close>

definition mock_fields :: "(jstr \<times> val) list" where
  "mock_fields =
     [(js ''connectionId'', Num zero), (js ''index'', negative_one), (js ''durationMs'', Num zero),
      (js ''type'', Null), (js ''caller'', Null), (js ''inputType'', Null), (js ''outputType'', Null),
      (js ''timestamp'', Num zero), (js ''constant'', Bool False), (js ''nthRequest'', negative_one),
      (js ''count'', negative_one)]"

definition mock_saveContentFile :: "jstr \<Rightarrow> unit js_prog" where
  "mock_saveContentFile instanceId =
     bnd (collect_record mock_fields) (\<lambda>toSend.
     bnd (retrieveValue (js ''fileName'')) (\<lambda>fileName.
     bnd (gets (\<lambda>w. plugin_path instanceId (js ''mock-plugin'') ''/mocks/'' @ to_string (objs w) fileName)) (\<lambda>path.
     bnd (json_stringify (Ref toSend)) (\<lambda>s.
       sendData path (js ''POST'') s json_type (Function 2 0)))))"

definition mock_deleteContentFile :: "jstr \<Rightarrow> unit js_prog" where
  "mock_deleteContentFile instanceId =
     bnd (retrieveValue (js ''fileName'')) (\<lambda>filename.
     bnd (gets (\<lambda>w. plugin_path instanceId (js ''mock-plugin'') ''/mocks/'' @ to_string (objs w) filename)) (\<lambda>path.
       getData path (js ''DELETE'') (Function 0 1)))"

text \<open>The callbacks of the page: 0 is the one of saving, 1 the one of deleting.\<close>

definition mock_callback :: "nat \<Rightarrow> nat \<Rightarrow> jstr \<Rightarrow> unit js_prog" where
  "mock_callback f status message =
     (if f = 0 then if status = 200 then showAlert (Str (js ''Data Sent!'')) else ret () else reload)"

text \<open>
  \<open>pasteData\<close>, from the moment the browser has read the clipboard: the function passed to \<open>then\<close>, with
  the one passed to \<open>catch\<close>.  The text of an exception is the engine's, and a parameter.
\<close>

definition pasted_keys :: "jstr list" where
  "pasted_keys = map js [''type'', ''index'', ''caller'', ''inputType'', ''outputType'', ''nthRequest'', ''count'']"

definition paste_value :: "val \<Rightarrow> jstr \<Rightarrow> unit js_prog" where
  "paste_value obj k = bnd (get_prop obj k) (setValue k)"

definition paste_json :: "val \<Rightarrow> jstr \<Rightarrow> unit js_prog" where
  "paste_json obj k = bnd (get_prop obj k) (\<lambda>v. bnd (json_stringify v) (setValue k))"

definition pasteData :: "(exn \<Rightarrow> jstr) \<Rightarrow> jstr \<Rightarrow> unit js_prog" where
  "pasteData exn_text clip =
     try_catch
       (bnd (json_parse_val (Str clip)) (\<lambda>obj.
        seq (for_each pasted_keys (paste_value obj))
       (seq (paste_json obj (js ''output''))
            (paste_json obj (js ''input'')))))
       (\<lambda>err. seq (log_at ''error'' [Str (js ''Failed to read clipboard contents: ''), Str (js ''[object Error]'')])
                  (showError (Str (js ''Invalid content! '' @ exn_text err))))"

subsection \<open>What a record sends\<close>

definition area :: "world \<Rightarrow> jstr \<Rightarrow> bool" where
  "area w k \<longleftrightarrow> (case element_by_id w k of None \<Rightarrow> True | Some el \<Rightarrow> role (node_at w el) = TextArea)"

text \<open>The tree in a text area, an empty object when there is no area or no JSON in it.\<close>

definition field_json :: "world \<Rightarrow> jstr \<Rightarrow> json" where
  "field_json w k =
     (case element_by_id w k of
        None \<Rightarrow> JObj []
      | Some el \<Rightarrow>
          (case stored (node_at w el) of
             Str s \<Rightarrow> (case json_parse s of None \<Rightarrow> JObj [] | Some j \<Rightarrow> j)
           | _ \<Rightarrow> JObj []))"

definition record_json :: "world \<Rightarrow> (jstr \<times> val) list \<Rightarrow> json" where
  "record_json w ps =
     JObj (form_json w ps @ [(js ''input'', field_json w (js ''input'')), (js ''output'', field_json w (js ''output''))])"

lemma field_json_wf [simp]: "wf_json (field_json w k)"
proof -
  have "wf_json (JObj [])" by (simp add: props_ok_def)
  then show ?thesis by (auto simp: field_json_def dest: wf_json_parse split: option.split val.split)
qed

lemma put_member_at:
  "objs w = pre @ Obj ps # new \<Longrightarrow>
     put_member (length pre) k v w = (Inr (), w\<lparr>objs := pre @ Obj (put_prop k v ps) # new\<rparr>)"
  by (simp add: put_member_def modify_def own_props_def list_update_append)

lemma parse_field_step:
  assumes tree: "tree_ok w" and nodes: "nodes_ok w" and area: "area w k" and h: "objs w = pre @ Obj ps # new"
  shows "\<exists>v n. build (field_json w k) (objs w) = (v, objs w @ n) \<and>
     parse_field (length pre) k w = (Inr (), w\<lparr>objs := pre @ Obj (put_prop k v ps) # new @ n\<rparr>)"
proof -
  let ?empty = "bnd (literal []) (\<lambda>e. put_member (length pre) k (Ref e))"
  have put: "put_member (length pre) k v (w\<lparr>objs := objs w @ n\<rparr>) =
      (Inr (), w\<lparr>objs := pre @ Obj (put_prop k v ps) # new @ n\<rparr>)" for v n
    using put_member_at [of "w\<lparr>objs := objs w @ n\<rparr>" pre ps "new @ n"] by (simp add: h)
  have empty: "?empty w = (Inr (), w\<lparr>objs := pre @ Obj (put_prop k (Ref (length (objs w))) ps) # new @ [Obj []]\<rparr>)"
    using put by (simp add: literal_def bnd_def)
  have bad: ?thesis if "field_json w k = JObj []"
    "bnd (retrieveValue k) (\<lambda>v. bnd (json_parse_val v) (\<lambda>x. put_member (length pre) k x)) w = (Inl ex, w)" for ex
    using that empty by (simp add: parse_field_def try_catch_def)
  show ?thesis
  proof (cases "element_by_id w k")
    case None
    then show ?thesis
      by (intro bad [of TypeError]) (simp_all add: field_json_def bnd_Inl retrieveValue_missing)
  next
    case (Some el)
    then have role: "role (node_at w el) = TextArea" using area by (simp add: area_def)
    have "node_ok (node_at w el)" using nodes element_by_id_lt [OF tree Some] by (simp add: nodes_ok_def node_at_def)
    then obtain s where s: "stored (node_at w el) = Str s" using role by (auto simp: node_ok_def)
    have v: "retrieveValue k w = (Inr (Str s), w)"
      using retrieveValue_found [OF Some] role s by (simp add: node_value_def get_value_def)
    show ?thesis
    proof (cases "json_parse s")
      case None
      then show ?thesis
        by (intro bad [of SyntaxError])
          (simp_all add: field_json_def Some s bnd_Inr bnd_Inl v json_parse_val_def parse_json_def)
    next
      case (Some j)
      have f: "field_json w k = j" using Some s \<open>element_by_id w k = Some el\<close> by (simp add: field_json_def)
      obtain x h' where b: "build j (objs w) = (x, h')" by fastforce
      obtain n where n: "h' = objs w @ n" using build_extends(1) [OF b] by blast
      have "json_parse_val (Str s) w = (Inr x, w\<lparr>objs := objs w @ n\<rparr>)"
        by (simp add: json_parse_val_def parse_json_text [OF Some] b n)
      then show ?thesis using put b by (simp add: f n parse_field_def try_catch_def bnd_Inr v)
    qed
  qed
qed

lemma record_keys: "\<not> is_index_key (js ''input'')" "\<not> is_index_key (js ''output'')"
  by code_simp+

text \<open>The fields of a record do not include the two texts.\<close>

definition record_fields :: "world \<Rightarrow> (jstr \<times> val) list \<Rightarrow> bool" where
  "record_fields w ps \<longleftrightarrow> form_fields w ps \<and> area w (js ''input'') \<and> area w (js ''output'') \<and>
     js ''input'' \<notin> fst ` set ps \<and> js ''output'' \<notin> fst ` set ps"

lemma put_prop_new: "k \<notin> fst ` set ps \<Longrightarrow> \<not> is_index_key k \<Longrightarrow> put_prop k v ps = ps @ [(k, v)]"
  by (simp add: put_prop_def)

lemma record_json_wf:
  assumes "tree_ok w" "typed w" "record_fields w ps"
  shows "wf_json (record_json w ps)"
proof -
  have ps: "form_fields w ps" "js ''input'' \<notin> fst ` set ps" "js ''output'' \<notin> fst ` set ps"
    using assms(3) by (simp_all add: record_fields_def)
  note f = form_json_wf [OF assms(1,2) ps(1)]
  let ?qs = "put_prop (js ''output'') (field_json w (js ''output'')) (put_prop (js ''input'') (field_json w (js ''input'')) (form_json w ps))"
  have q: "?qs = form_json w ps @ [(js ''input'', field_json w (js ''input'')), (js ''output'', field_json w (js ''output''))]"
    using ps(2,3) record_keys by (simp add: put_prop_new form_json_keys)
  have "props_ok ?qs" using f(1) by (simp add: props.invar_update)
  moreover have "wf_json_props ?qs" using f(1) unfolding q by (auto simp: wf_json_props_all)
  ultimately show ?thesis unfolding q by (simp add: record_json_def)
qed

lemma area_cong:
  "nodes v = nodes w \<Longrightarrow> forest v = forest w \<Longrightarrow> element_by_id v k = element_by_id w k \<and> area v k = area w k \<and> field_json v k = field_json w k"
proof -
  assume n: "nodes v = nodes w" "forest v = forest w"
  then have "node_at v = node_at w" by (simp add: node_at_def fun_eq_iff)
  then show ?thesis using element_by_id_cong [of v w k] n(2) by (simp add: area_def field_json_def cong: option.case_cong)
qed

lemma collect_record_effect:
  assumes tree: "tree_ok w" and typed: "typed w" and rec: "record_fields w ps"
  shows "\<exists>h. collect_record ps w = (Inr (length (objs w)), w\<lparr>objs := h,
       console := console w @ warned_lines w ps @ [(''log'', [Str (js ''Copying record'')]), (''log'', [Ref (length (objs w))])]\<rparr>) \<and>
     tree h [] (Ref (length (objs w))) = Inr (Some (record_json w ps))"
proof -
  have ps: "form_fields w ps" "area w (js ''input'')" "area w (js ''output'')"
      "js ''input'' \<notin> fst ` set ps" "js ''output'' \<notin> fst ` set ps"
    using rec by (simp_all add: record_fields_def)
  define r qs c where "r = length (objs w)" and "qs = map (collected w) ps" and "c = console w @ warned_lines w ps"
  define u where "u = w\<lparr>objs := objs w @ [Obj qs], console := c\<rparr>"
  have keys: "fst ` set qs = fst ` set ps" by (force simp: qs_def image_iff)
  have u: "tree_ok u" "nodes_ok u" "area u k = area w k" "field_json u k = field_json w k" for k
    using tree typed_nodes [OF typed] area_cong [of u w k] by (simp_all add: u_def tree_ok_def nodes_ok_def)
  have s1: "bnd (literal ps) retrieveValues w = (Inr (Ref r), u)"
    using collect_literal [OF tree typed ps(1)] by (simp add: r_def u_def qs_def c_def)
  have lit: "literal ps w = (Inr r, w\<lparr>objs := objs w @ [Obj ps]\<rparr>)" by (simp add: literal_def r_def)
  have s1': "retrieveValues r (w\<lparr>objs := objs w @ [Obj ps]\<rparr>) = (Inr (Ref r), u)"
    using s1 by (simp add: bnd_Inr [where m = "literal ps", OF lit])
  have ou: "objs u = objs w @ [Obj qs]" by (simp add: u_def)
  have "\<exists>v n. build (field_json w (js ''input'')) (objs u) = (v, objs u @ n) \<and>
      parse_field r (js ''input'') u = (Inr (), u\<lparr>objs := objs w @ Obj (qs @ [(js ''input'', v)]) # n\<rparr>)"
    using parse_field_step [OF u(1,2), of "js ''input''" "objs w" qs "[]"] ps(2,4) record_keys
    by (simp add: u(3,4) put_prop_new keys r_def ou)
  then obtain v1 n1 where p1: "build (field_json w (js ''input'')) (objs u) = (v1, objs u @ n1)"
      "parse_field r (js ''input'') u = (Inr (), u\<lparr>objs := objs w @ Obj (qs @ [(js ''input'', v1)]) # n1\<rparr>)"
    by blast
  let ?h1 = "objs w @ Obj (qs @ [(js ''input'', v1)]) # n1"
  let ?v = "u\<lparr>objs := ?h1\<rparr>"
  have v: "tree_ok ?v" "nodes_ok ?v" "area ?v k = area w k" "field_json ?v k = field_json w k" for k
    using tree typed_nodes [OF typed] area_cong [of ?v w k] by (simp_all add: u_def tree_ok_def nodes_ok_def)
  have "\<exists>v n. build (field_json w (js ''output'')) ?h1 = (v, ?h1 @ n) \<and>
      parse_field r (js ''output'') ?v =
        (Inr (), ?v\<lparr>objs := objs w @ Obj (qs @ [(js ''input'', v1), (js ''output'', v)]) # n1 @ n\<rparr>)"
    using parse_field_step [OF v(1,2), of "js ''output''" "objs w" "qs @ [(js ''input'', v1)]" n1] ps(3,5) record_keys
    by (simp add: v(3,4) put_prop_new keys r_def)
  then obtain v2 n2 where p2: "build (field_json w (js ''output'')) ?h1 = (v2, ?h1 @ n2)"
      "parse_field r (js ''output'') ?v =
        (Inr (), ?v\<lparr>objs := objs w @ Obj (qs @ [(js ''input'', v1), (js ''output'', v2)]) # n1 @ n2\<rparr>)"
    by blast
  let ?h = "objs w @ Obj (qs @ [(js ''input'', v1), (js ''output'', v2)]) # n1 @ n2"
  let ?line = "[(''log'', [Str (js ''Copying record'')]), (''log'', [Ref r])]"
  have run: "collect_record ps w = (Inr r, w\<lparr>objs := ?h, console := c @ ?line\<rparr>)"
    unfolding collect_record_def bnd_Inr [where m = "literal ps", OF lit]
    by (simp add: seq_Inr s1' p1(2) p2(2) log_at_step ret_def) (simp add: u_def)
  have "build (field_json w (js ''input'')) (objs w @ [Obj (qs @ [(js ''input'', v1), (js ''output'', v2)])]) =
      (v1, (objs w @ [Obj (qs @ [(js ''input'', v1), (js ''output'', v2)])]) @ n1)"
    using build_shift(1) [OF p1(1)] by (simp add: u_def)
  from tree_build(1) [OF this, of "[r]" n2] have t1: "tree ?h [r] v1 = Inr (Some (field_json w (js ''input'')))"
    by (simp add: r_def)
  have "build (field_json w (js ''output'')) (objs w @ Obj (qs @ [(js ''input'', v1), (js ''output'', v2)]) # n1) =
      (v2, (objs w @ Obj (qs @ [(js ''input'', v1), (js ''output'', v2)]) # n1) @ n2)"
    using build_shift(1) [OF p2(1)] by simp
  from tree_build(1) [OF this, of "[r]" "[]"] have t2: "tree ?h [r] v2 = Inr (Some (field_json w (js ''output'')))"
    by (simp add: r_def)
  have "tree_props ?h [r] (qs @ [(js ''input'', v1), (js ''output'', v2)]) =
      Inr (form_json w ps @ [(js ''input'', field_json w (js ''input'')), (js ''output'', field_json w (js ''output''))])"
    using tree_scalars [of qs ?h "[r]" "[(js ''input'', v1), (js ''output'', v2)]"] collected_scalar [OF tree typed ps(1)] t1 t2
    by (simp add: qs_def form_json_def)
  then have "tree ?h [] (Ref r) = Inr (Some (record_json w ps))"
    by (simp add: r_def record_json_def nth_append)
  with run show ?thesis by (auto simp: r_def c_def)
qed

subsection \<open>Setting the fields of a form\<close>

text \<open>What setting elements leaves alone.\<close>

definition refilled :: "world \<Rightarrow> world \<Rightarrow> bool" where
  "refilled v u \<longleftrightarrow> u = v\<lparr>nodes := nodes u\<rparr> \<and> length (nodes u) = length (nodes v) \<and>
     (\<forall>a. ident (node_at u a) = ident (node_at v a) \<and> role (node_at u a) = role (node_at v a))"

lemma refilled_refl: "refilled v v"
  by (simp add: refilled_def)

lemma refilled_fields:
  assumes "refilled v u"
  shows "forest u = forest v" "objs u = objs v" "requests u = requests v" "url_ok u = url_ok v"
    "clipboard u = clipboard v" "console u = console v"
proof -
  have u: "u = v\<lparr>nodes := nodes u\<rparr>" using assms by (simp add: refilled_def)
  show "forest u = forest v" "objs u = objs v" "requests u = requests v" "url_ok u = url_ok v"
    "clipboard u = clipboard v" "console u = console v"
    by (subst u, simp)+
qed

lemma refilled_trans:
  assumes "refilled v u" "refilled u t"
  shows "refilled v t"
proof -
  have "t = (v\<lparr>nodes := nodes u\<rparr>)\<lparr>nodes := nodes t\<rparr>" using assms by (simp add: refilled_def)
  then have "t = v\<lparr>nodes := nodes t\<rparr>" by simp
  then show ?thesis using assms by (simp add: refilled_def)
qed

lemma refilled_ids: "refilled v u \<Longrightarrow> element_by_id u k = element_by_id v k"
  by (rule element_by_id_cong) (simp_all add: refilled_fields, simp add: refilled_def)

lemma refilled_tree: "refilled v u \<Longrightarrow> tree_ok u = tree_ok v"
  by (simp add: tree_ok_def refilled_fields) (simp add: refilled_def)

lemma setValue_effect:
  assumes tree: "tree_ok v" and el: "element_by_id v k = Some el" and role: "role (node_at v el) \<noteq> FileInput"
    and x: "val_ok (length (objs v)) x"
  shows "\<exists>u. setValue k x v = (Inr (), u) \<and> refilled v u \<and> (typed v \<longrightarrow> typed u) \<and>
     node_value (objs v) (node_at u el) = shown_value (objs v) (role (node_at v el)) x \<and>
     (\<forall>a. a \<noteq> el \<longrightarrow> node_at u a = node_at v a)"
proof -
  obtain m where m: "put_value (objs v) x (node_at v el) = Inr m" "ident m = ident (node_at v el)"
      "role m = role (node_at v el)" "node_value (objs v) m = shown_value (objs v) (role (node_at v el)) x"
    using put_value_ok [OF role x] by blast
  have lt: "el < length (nodes v)" using element_by_id_lt [OF tree el] .
  have "refilled v (set_node el (\<lambda>_. m) v)"
    using m(2,3) by (simp add: refilled_def node_at_set_node) (simp add: set_node_def)
  then show ?thesis using m lt set_typed [OF tree _ x, of k] by (simp add: setValue_put [OF el])
qed

text \<open>Several fields, each from a value; the fields are different elements.\<close>

lemma set_fields:
  assumes "tree_ok v" "distinct ks"
    and "\<forall>k \<in> set ks. val_ok (length (objs v)) (f k) \<and> (\<exists>el. element_by_id v k = Some el \<and> role (node_at v el) \<noteq> FileInput)"
    and "\<And>k u. k \<in> set ks \<Longrightarrow> refilled v u \<Longrightarrow> step k u = setValue k (f k) u"
  shows "\<exists>u. for_each ks step v = (Inr (), u) \<and> refilled v u \<and> (typed v \<longrightarrow> typed u) \<and>
     (\<forall>k \<in> set ks. \<forall>el. element_by_id v k = Some el \<longrightarrow>
        node_value (objs v) (node_at u el) = shown_value (objs v) (role (node_at v el)) (f k)) \<and>
     (\<forall>a. (\<forall>k \<in> set ks. element_by_id v k \<noteq> Some a) \<longrightarrow> node_at u a = node_at v a)"
  using assms
proof (induction ks arbitrary: v)
  case Nil
  then show ?case using refilled_refl by (simp add: ret_def)
next
  case (Cons k ks)
  obtain el where el: "element_by_id v k = Some el" "role (node_at v el) \<noteq> FileInput" using Cons.prems(3) by auto
  have x: "val_ok (length (objs v)) (f k)" using Cons.prems(3) by simp
  obtain u where u: "setValue k (f k) v = (Inr (), u)" "refilled v u" "typed v \<longrightarrow> typed u"
      "node_value (objs v) (node_at u el) = shown_value (objs v) (role (node_at v el)) (f k)"
      "\<forall>a. a \<noteq> el \<longrightarrow> node_at u a = node_at v a"
    using setValue_effect [OF Cons.prems(1) el x] by blast
  note same = refilled_ids [OF u(2)] refilled_fields(2) [OF u(2)]
  have roles: "role (node_at u a) = role (node_at v a)" for a using u(2) by (simp add: refilled_def)
  have "\<exists>t. for_each ks step u = (Inr (), t) \<and> refilled u t \<and> (typed u \<longrightarrow> typed t) \<and>
     (\<forall>k \<in> set ks. \<forall>el. element_by_id u k = Some el \<longrightarrow>
        node_value (objs u) (node_at t el) = shown_value (objs u) (role (node_at u el)) (f k)) \<and>
     (\<forall>a. (\<forall>k \<in> set ks. element_by_id u k \<noteq> Some a) \<longrightarrow> node_at t a = node_at u a)"
  proof (rule Cons.IH)
    show "step k' t = setValue k' (f k') t" if "k' \<in> set ks" "refilled u t" for k' t
      using Cons.prems(4) that refilled_trans [OF u(2)] by simp
  qed (use Cons.prems(1-3) refilled_tree [OF u(2)] in \<open>simp_all add: same roles\<close>)
  then obtain t where t: "for_each ks step u = (Inr (), t)" "refilled u t" "typed u \<longrightarrow> typed t"
      "\<forall>k \<in> set ks. \<forall>el. element_by_id v k = Some el \<longrightarrow>
        node_value (objs v) (node_at t el) = shown_value (objs v) (role (node_at v el)) (f k)"
      "\<forall>a. (\<forall>k \<in> set ks. element_by_id v k \<noteq> Some a) \<longrightarrow> node_at t a = node_at u a"
    unfolding same roles by blast
  have "step k v = (Inr (), u)" using Cons.prems(4) [of k v] u(1) refilled_refl by simp
  then have "for_each (k # ks) step v = (Inr (), t)" using t(1) by (simp add: seq_Inr)
  moreover have "refilled v t" "typed v \<longrightarrow> typed t" using refilled_trans [OF u(2) t(2)] u(3) t(3) by blast+
  moreover have "node_at t el = node_at u el"
    using t(5) element_by_id_inj [OF el(1)] Cons.prems(2) by fastforce
  moreover from this have "\<forall>k' \<in> set (k # ks). \<forall>a. element_by_id v k' = Some a \<longrightarrow>
        node_value (objs v) (node_at t a) = shown_value (objs v) (role (node_at v a)) (f k')"
    using t(4) u(4) el(1) by auto
  moreover have "\<forall>a. (\<forall>k' \<in> set (k # ks). element_by_id v k' \<noteq> Some a) \<longrightarrow> node_at t a = node_at v a"
    using t(5) u(5) el(1) by auto
  ultimately show ?case by blast
qed

subsection \<open>Pasting a record\<close>

text \<open>The value of a leaf, and the members of a parsed object.\<close>

fun leaf_val :: "json \<Rightarrow> val option" where
  "leaf_val JNull = Some Null"
| "leaf_val (JBool b) = Some (Bool b)"
| "leaf_val (JNum x) = Some (Num x)"
| "leaf_val (JStr s) = Some (Str s)"
| "leaf_val _ = None"

lemma build_leaf: "build j h = (v, h') \<Longrightarrow> leaf_val j = Some x \<Longrightarrow> v = x"
  by (cases j) auto

lemma build_props_member:
  assumes "build_props ts h = (qs, h')"
  shows "case map_of ts k of
      None \<Rightarrow> map_of qs k = None
    | Some j \<Rightarrow> \<exists>x. map_of qs k = Some x \<and> (\<forall>ext. tree (h' @ ext) [] x = Inr (Some j)) \<and>
        (\<forall>y. leaf_val j = Some y \<longrightarrow> x = y)"
  using assms
proof (induction ts arbitrary: h qs h')
  case (Cons t ts)
  obtain k0 j where t: "t = (k0, j)" by (cases t)
  obtain v h1 where v: "build j h = (v, h1)" by fastforce
  obtain qs1 h2 where q: "build_props ts h1 = (qs1, h2)" by fastforce
  obtain n where n: "h2 = h1 @ n" using build_extends(3) [OF q] by blast
  have qs: "qs = (k0, v) # qs1" "h' = h2" using Cons.prems by (simp_all add: t v q)
  show ?case
  proof (cases "k = k0")
    case True
    then show ?thesis using tree_build(1) [OF v, of "[]"] build_leaf [OF v] by (simp add: t qs n)
  next
    case False
    then show ?thesis using Cons.IH [OF q] by (simp add: t qs cong: option.case_cong)
  qed
qed simp

definition member_of :: "(jstr \<times> val) list \<Rightarrow> jstr \<Rightarrow> val" where
  "member_of qs k = (case map_of qs k of None \<Rightarrow> Undefined | Some x \<Rightarrow> x)"

lemma get_member: "objs u ! r = Obj qs \<Longrightarrow> get_prop (Ref r) k u = (Inr (member_of qs k), u)"
  by (simp add: get_prop_def read_prop_def member_of_def)

lemma member_ok: "\<forall>(k, x) \<in> set qs. val_ok n x \<Longrightarrow> val_ok n (member_of qs k)"
  by (auto simp: member_of_def dest: map_of_SomeD split: option.split)

text \<open>The elements that are pasted into.\<close>

definition mock_form :: "world \<Rightarrow> bool" where
  "mock_form v \<longleftrightarrow>
     (\<forall>k \<in> set pasted_keys. \<exists>el. element_by_id v k = Some el \<and> role (node_at v el) \<noteq> FileInput) \<and>
     (\<forall>k \<in> {js ''output'', js ''input''}. \<exists>el. element_by_id v k = Some el \<and> role (node_at v el) = TextArea)"

lemma pasted_distinct: "distinct (pasted_keys @ [js ''output'', js ''input''])"
  by code_simp

lemma for_each_two: "for_each [a, b] step = seq (step a) (step b)"
  by (auto simp: fun_eq_iff seq_def bnd_def ret_def split: prod.split sum.split)

lemma normalise_text [simp]: "wf_json j \<Longrightarrow> normalise_newlines (json_text j) = json_text j"
  unfolding json_text_def by (intro normalise_no_cr ser_no_cr) auto

text \<open>What \<open>JSON.stringify(obj[k])\<close> is, by the tree of the object.\<close>

definition member_text :: "(jstr \<times> json) list \<Rightarrow> jstr \<Rightarrow> val" where
  "member_text ts k = (case map_of ts k of None \<Rightarrow> Undefined | Some j \<Rightarrow> Str (json_text j))"

definition member_json :: "(jstr \<times> json) list \<Rightarrow> jstr \<Rightarrow> json" where
  "member_json ts k = (case map_of ts k of None \<Rightarrow> JObj [] | Some j \<Rightarrow> via_text j)"

lemma field_after_paste:
  assumes wf: "\<forall>(k, j) \<in> set ts. wf_json j" and el: "element_by_id u k = Some el"
    and area: "role (node_at u el) = TextArea"
    and shown: "node_value h (node_at u el) = shown_value h TextArea (member_text ts k)"
  shows "field_json u k = member_json ts k"
proof (cases "map_of ts k")
  case None
  have "json_parse (js ''undefined'') = None" "normalise_newlines (js ''undefined'') = js ''undefined''" by code_simp+
  then have "stored (node_at u el) = Str (js ''undefined'') \<and> json_parse (js ''undefined'') = None"
    using shown area None
    by (simp add: node_value_def get_value_def shown_value_def member_text_def legacy_text_def to_string_def)
  then show ?thesis using None by (simp add: field_json_def el member_json_def)
next
  case (Some j)
  then have "wf_json j" using wf by (auto dest: map_of_SomeD)
  moreover from this have "stored (node_at u el) = Str (json_text j)"
    using shown area Some
    by (simp add: node_value_def get_value_def shown_value_def member_text_def legacy_text_def)
  ultimately show ?thesis using Some by (simp add: field_json_def el member_json_def)
qed

lemma paste_values:
  assumes form: "mock_form v" and tree: "tree_ok v" and typed: "typed v"
    and obj: "objs v ! r = Obj qs" and ok: "\<And>k. val_ok (length (objs v)) (member_of qs k)"
  shows "\<exists>u. for_each pasted_keys (paste_value (Ref r)) v = (Inr (), u) \<and> refilled v u \<and> typed u \<and>
     (\<forall>k \<in> set pasted_keys. \<forall>el. element_by_id v k = Some el \<longrightarrow>
        node_value (objs v) (node_at u el) = shown_value (objs v) (role (node_at v el)) (member_of qs k)) \<and>
     (\<forall>a. (\<forall>k \<in> set pasted_keys. element_by_id v k \<noteq> Some a) \<longrightarrow> node_at u a = node_at v a)"
proof -
  have step: "paste_value (Ref r) k u = setValue k (member_of qs k) u" if "refilled v u" for k u
    using get_member [of u r qs] refilled_fields(2) [OF that] obj by (simp add: paste_value_def bnd_Inr)
  have fields: "\<forall>k \<in> set pasted_keys. val_ok (length (objs v)) (member_of qs k) \<and>
      (\<exists>el. element_by_id v k = Some el \<and> role (node_at v el) \<noteq> FileInput)"
    using form ok by (simp add: mock_form_def)
  have "distinct pasted_keys" using pasted_distinct by simp
  from set_fields [OF tree this fields step] typed show ?thesis by blast
qed

lemma paste_texts:
  assumes form: "mock_form v" and tree: "tree_ok v" and typed: "typed v"
    and obj: "objs v ! r = Obj qs" and txts: "\<And>k. stringify (objs v) (member_of qs k) = Inr (member_text ts k)"
    and wf: "\<forall>(k, j) \<in> set ts. wf_json j"
  shows "\<exists>u. seq (paste_json (Ref r) (js ''output'')) (paste_json (Ref r) (js ''input'')) v = (Inr (), u) \<and>
     refilled v u \<and> typed u \<and>
     (\<forall>k \<in> {js ''output'', js ''input''}. field_json u k = member_json ts k) \<and>
     (\<forall>a. (\<forall>k \<in> {js ''output'', js ''input''}. element_by_id v k \<noteq> Some a) \<longrightarrow> node_at u a = node_at v a)"
proof -
  let ?two = "[js ''output'', js ''input'']"
  have step: "paste_json (Ref r) k u = setValue k (member_text ts k) u" if "refilled v u" for k u
    using get_member [of u r qs] refilled_fields(2) [OF that] obj txts
    by (simp add: paste_json_def bnd_Inr json_stringify_def)
  have "val_ok n (member_text ts k)" for n k by (cases "map_of ts k") (simp_all add: member_text_def)
  then have fields: "\<forall>k \<in> set ?two. val_ok (length (objs v)) (member_text ts k) \<and>
      (\<exists>el. element_by_id v k = Some el \<and> role (node_at v el) \<noteq> FileInput)"
    using form by (force simp: mock_form_def)
  have "distinct ?two" by simp
  from set_fields [OF tree this fields step] obtain u where
    u: "for_each ?two (paste_json (Ref r)) v = (Inr (), u)" "refilled v u" "typed v \<longrightarrow> typed u"
      "\<forall>k \<in> set ?two. \<forall>el. element_by_id v k = Some el \<longrightarrow>
        node_value (objs v) (node_at u el) = shown_value (objs v) (role (node_at v el)) (member_text ts k)"
      "\<forall>a. (\<forall>k \<in> set ?two. element_by_id v k \<noteq> Some a) \<longrightarrow> node_at u a = node_at v a"
    by blast
  have "field_json u k = member_json ts k" if k: "k \<in> set ?two" for k
  proof -
    obtain el where el: "element_by_id v k = Some el" "role (node_at v el) = TextArea"
      using form k by (auto simp: mock_form_def)
    moreover have "role (node_at u el) = role (node_at v el)" using u(2) by (simp add: refilled_def)
    moreover have "node_value (objs v) (node_at u el) = shown_value (objs v) (role (node_at v el)) (member_text ts k)"
      using u(4) k el(1) by blast
    ultimately show ?thesis using field_after_paste [OF wf, of u k el "objs v"] refilled_ids [OF u(2)] by simp
  qed
  then show ?thesis using u(1,2,3,5) typed unfolding for_each_two by (intro exI [of _ u]) simp
qed

lemma paste_effect:
  assumes tree: "tree_ok v" and typed: "typed v" and form: "mock_form v" and parse: "json_parse T = Some (JObj ts)"
  shows "\<exists>u h. pasteData e T v = (Inr (), u) \<and> refilled (v\<lparr>objs := h\<rparr>) u \<and> typed u \<and>
     (\<forall>k \<in> set pasted_keys. \<forall>el. element_by_id v k = Some el \<longrightarrow>
        (\<exists>x. node_value h (node_at u el) = shown_value h (role (node_at v el)) x \<and>
           (case map_of ts k of None \<Rightarrow> x = Undefined | Some j \<Rightarrow> \<forall>y. leaf_val j = Some y \<longrightarrow> x = y))) \<and>
     (\<forall>k \<in> {js ''output'', js ''input''}. field_json u k = member_json ts k) \<and>
     (\<forall>a. (\<forall>k \<in> set pasted_keys \<union> {js ''output'', js ''input''}. element_by_id v k \<noteq> Some a) \<longrightarrow>
        node_at u a = node_at v a)"
proof -
  obtain qs h1 where b: "build_props ts (objs v) = (qs, h1)" by fastforce
  define r h where "r = length h1" and "h = h1 @ [Obj qs]"
  let ?v = "v\<lparr>objs := h\<rparr>"
  have p: "json_parse_val (Str T) v = (Inr (Ref r), ?v)"
    by (simp add: json_parse_val_def parse_json_text [OF parse] b r_def h_def)
  have wf: "\<forall>(k, j) \<in> set ts. wf_json j" "wf_json_props ts"
    using wf_json_parse [OF parse] by (simp_all add: wf_json_props_all)
  have hr: "h ! r = Obj qs" by (simp add: h_def r_def)
  have "\<forall>(k, x) \<in> set qs. val_ok (length h1) x" using build_ok(3) [OF _ wf(2) b] typed by (simp add: typed_def)
  then have ok: "val_ok (length h) (member_of qs k)" for k
    by (rule val_ok_mono [OF member_ok]) (simp add: h_def)
  have txts: "stringify h (member_of qs k) = Inr (member_text ts k)" for k
    using build_props_member [OF b, of k]
    by (cases "map_of ts k") (auto simp: stringify_def member_of_def member_text_def h_def)
  have ids: "element_by_id ?v k = element_by_id v k" and nodes: "node_at ?v a = node_at v a" for k a
    by (simp_all add: element_by_id_def document_def node_at_def)
  have v: "tree_ok ?v" "mock_form ?v" "typed ?v" "objs ?v = h"
    using tree form parse_typed(1) [OF typed p] by (simp_all add: tree_ok_def mock_form_def ids nodes)
  obtain u1 where u1: "for_each pasted_keys (paste_value (Ref r)) ?v = (Inr (), u1)" "refilled ?v u1" "typed u1"
      "\<forall>k \<in> set pasted_keys. \<forall>el. element_by_id v k = Some el \<longrightarrow>
         node_value h (node_at u1 el) = shown_value h (role (node_at v el)) (member_of qs k)"
      "\<forall>a. (\<forall>k \<in> set pasted_keys. element_by_id v k \<noteq> Some a) \<longrightarrow> node_at u1 a = node_at v a"
    using paste_values [OF v(2,1,3), of r qs] ok hr unfolding ids nodes v(4) by blast
  have roles: "role (node_at u1 a) = role (node_at v a)" for a using u1(2) by (simp add: refilled_def nodes)
  have id1: "element_by_id u1 k = element_by_id v k" for k using refilled_ids [OF u1(2)] ids by simp
  have f1: "mock_form u1" "tree_ok u1" "objs u1 = h"
    using form refilled_tree [OF u1(2)] v(1) refilled_fields(2) [OF u1(2)] by (simp_all add: mock_form_def id1 roles)
  obtain u where u: "seq (paste_json (Ref r) (js ''output'')) (paste_json (Ref r) (js ''input'')) u1 = (Inr (), u)"
      "refilled u1 u" "typed u" "\<forall>k \<in> {js ''output'', js ''input''}. field_json u k = member_json ts k"
      "\<forall>a. (\<forall>k \<in> {js ''output'', js ''input''}. element_by_id v k \<noteq> Some a) \<longrightarrow> node_at u a = node_at u1 a"
    using paste_texts [OF f1(1,2) u1(3), of r qs ts] hr txts wf(1) unfolding id1 f1(3) by blast
  have keep: "node_at u el = node_at u1 el" if k: "k \<in> set pasted_keys" "element_by_id v k = Some el" for k el
  proof -
    have "k \<noteq> js ''output''" "k \<noteq> js ''input''" using pasted_distinct k(1) by auto
    then show ?thesis using u(5) element_by_id_inj [OF k(2)] by blast
  qed
  have "\<exists>x. node_value h (node_at u el) = shown_value h (role (node_at v el)) x \<and>
      (case map_of ts k of None \<Rightarrow> x = Undefined | Some j \<Rightarrow> \<forall>y. leaf_val j = Some y \<longrightarrow> x = y)"
    if k: "k \<in> set pasted_keys" "element_by_id v k = Some el" for k el
    using u1(4) k keep [OF k] build_props_member [OF b, of k]
    by (intro exI [of _ "member_of qs k"]) (auto simp: member_of_def split: option.splits)
  moreover have "pasteData e T v = (Inr (), u)"
    using u1(1) u(1) by (simp add: pasteData_def try_catch_def bnd_Inr p seq_Inr)
  moreover have "refilled ?v u" using refilled_trans [OF u1(2) u(2)] .
  ultimately show ?thesis using u(3-5) u1(5) by (intro exI [of _ u] exI [of _ h]) auto
qed

subsection \<open>From a record to a mock\<close>

lemma copy_step:
  assumes "tree_ok w" "typed w" "record_fields w copied_fields"
  shows "\<exists>w'. copyData w = (Inr (), w') \<and> clipboard w' = clipboard w @ [json_text (record_json w copied_fields)] \<and>
     nodes w' = nodes w \<and> forest w' = forest w"
proof -
  obtain h where h: "collect_record copied_fields w = (Inr (length (objs w)), w\<lparr>objs := h,
       console := console w @ warned_lines w copied_fields @
         [(''log'', [Str (js ''Copying record'')]), (''log'', [Ref (length (objs w))])]\<rparr>)"
      "tree h [] (Ref (length (objs w))) = Inr (Some (record_json w copied_fields))"
    using collect_record_effect [OF assms] by blast
  then show ?thesis
    by (simp add: copyData_def bnd_Inr json_stringify_def stringify_def bnd_def write_clipboard_def modify_def
        del: tree.simps(6))
qed

lemma save_step:
  assumes "tree_ok w" "typed w" "record_fields w mock_fields"
    and name: "element_by_id w (js ''fileName'') = Some f" "role (node_at w f) = TextInput" "stored (node_at w f) = Str s"
    and url: "url_ok w (plugin_path i (js ''mock-plugin'') ''/mocks/'' @ s)"
  shows "\<exists>w'. mock_saveContentFile i w = (Inr (), w') \<and> requests w' = requests w @
     [issued (js ''POST'') (plugin_path i (js ''mock-plugin'') ''/mocks/'' @ s) [(js ''Content-Type'', json_type)]
        (TextBody (json_text (record_json w mock_fields)))
        (OnSend (plugin_path i (js ''mock-plugin'') ''/mocks/'' @ s) json_type (js ''POST'') (Function 2 0))]"
proof -
  let ?r = "length (objs w)" and ?path = "plugin_path i (js ''mock-plugin'') ''/mocks/'' @ s"
  obtain h where h: "collect_record mock_fields w = (Inr ?r, w\<lparr>objs := h,
       console := console w @ warned_lines w mock_fields @
         [(''log'', [Str (js ''Copying record'')]), (''log'', [Ref ?r])]\<rparr>)"
      "tree h [] (Ref ?r) = Inr (Some (record_json w mock_fields))"
    using collect_record_effect [OF assms(1-3)] by blast
  define u where "u = w\<lparr>objs := h, console := console w @ warned_lines w mock_fields @
         [(''log'', [Str (js ''Copying record'')]), (''log'', [Ref ?r])]\<rparr>"
  have "element_by_id u (js ''fileName'') = Some f"
    using name(1) element_by_id_cong [of u w "js ''fileName''"] by (simp add: u_def node_at_def)
  moreover have "node_at u f = node_at w f" by (simp add: u_def node_at_def)
  ultimately have v: "retrieveValue (js ''fileName'') u = (Inr (Str s), u)"
    using retrieveValue_found [of u "js ''fileName''" f] name(2,3) by (simp add: node_value_def get_value_def)
  have j: "json_stringify (Ref ?r) u = (Inr (Str (json_text (record_json w mock_fields))), u)"
    using h(2) by (simp add: json_stringify_def stringify_def u_def del: tree.simps(6))
  have "collect_record mock_fields w = (Inr ?r, u)" using h(1) by (simp add: u_def)
  then have "mock_saveContentFile i w =
      sendData ?path (js ''POST'') (Str (json_text (record_json w mock_fields))) json_type (Function 2 0) u"
    by (simp add: mock_saveContentFile_def bnd_Inr v j)
  moreover have "url_ok u ?path" using url by (simp add: u_def)
  ultimately show ?thesis
    using sendData_ok [OF post_method _ json_header, of u ?path] by (simp add: body_of_def nullish_def u_def)
qed

text \<open>The members of the records.\<close>

lemma form_json_value:
  assumes "form_fields w ps" "(k, v) \<in> set ps" "element_by_id w k = Some el"
  shows "map_of (form_json w ps @ qs) k = Some (scalar_json (node_value (objs w) (node_at w el)))"
proof -
  have "distinct (map fst (form_json w ps))" using assms(1) by (simp add: fst_form_json form_fields_def props_ok_def)
  moreover have "collected w (k, v) = (k, node_value (objs w) (node_at w el))"
    using assms(3) by (simp add: collected_def)
  then have "(k, scalar_json (node_value (objs w) (node_at w el))) \<in> set (form_json w ps)"
    using assms(2) by (force simp: form_json_def)
  ultimately show ?thesis by simp
qed

lemma form_json_member:
  assumes "form_fields w ps" "(k, v) \<in> set ps" "text_at w k = Some s"
  shows "map_of (form_json w ps @ qs) k = Some (JStr s)"
proof -
  obtain el where el: "element_by_id w k = Some el" "role (node_at w el) = TextInput" "stored (node_at w el) = Str s"
    using text_atD [OF assms(3)] .
  then show ?thesis using form_json_value [OF assms(1,2) el(1)] by (simp add: node_value_def get_value_def)
qed

text \<open>The keys whose texts a record carries.\<close>

definition text_keys :: "jstr set" where
  "text_keys = js ` {''type'', ''caller'', ''inputType'', ''outputType''}"

lemma text_keys_in:
  assumes "k \<in> text_keys"
  shows "(k, Null) \<in> set copied_fields" "(k, Null) \<in> set mock_fields" "k \<in> set pasted_keys"
  using assms by (auto simp: text_keys_def copied_fields_def mock_fields_def pasted_keys_def)

lemma record_fields_refilled:
  assumes "refilled (v\<lparr>objs := h\<rparr>) u" "record_fields v ps"
  shows "record_fields u ps" "element_by_id u k = element_by_id v k" "role (node_at u a) = role (node_at v a)"
proof -
  have ids: "element_by_id u k = element_by_id v k" for k
    using refilled_ids [OF assms(1)] by (simp add: element_by_id_def document_def node_at_def)
  have roles: "role (node_at u a) = role (node_at v a)" for a
    using assms(1) by (simp add: refilled_def node_at_def)
  show "element_by_id u k = element_by_id v k" "role (node_at u a) = role (node_at v a)" by (rule ids, rule roles)
  show "record_fields u ps"
    using assms(2) by (simp add: record_fields_def form_fields_def area_def ids roles cong: option.case_cong)
qed

text \<open>A text of the recording, after copying and pasting.\<close>

lemma pasted_text:
  assumes paste: "\<forall>k \<in> set pasted_keys. \<forall>el. element_by_id v k = Some el \<longrightarrow>
        (\<exists>x. node_value h (node_at u el) = shown_value h (role (node_at v el)) x \<and>
           (case map_of ts k of None \<Rightarrow> x = Undefined | Some j \<Rightarrow> \<forall>y. leaf_val j = Some y \<longrightarrow> x = y))"
    and ts: "map_of ts k = Some (JStr s)" and k: "k \<in> set pasted_keys" and v: "text_at v k = Some s0"
    and same: "\<And>k. element_by_id u k = element_by_id v k" "\<And>a. role (node_at u a) = role (node_at v a)"
  shows "text_at u k = Some (filter (\<lambda>c. c \<noteq> 10 \<and> c \<noteq> 13) s)"
proof -
  obtain el where el: "element_by_id v k = Some el" "role (node_at v el) = TextInput" using text_atD [OF v] .
  then obtain x where x: "node_value h (node_at u el) = shown_value h TextInput x" "\<forall>y. leaf_val (JStr s) = Some y \<longrightarrow> x = y"
    using paste [rule_format, OF k el(1)] ts by auto
  then have "stored (node_at u el) = Str (filter (\<lambda>c. c \<noteq> 10 \<and> c \<noteq> 13) s)"
    using el(2) same(2) by (simp add: node_value_def get_value_def shown_value_def legacy_text_def)
  then show ?thesis using el same by (simp add: text_at_def)
qed

text \<open>A number input whose key the record does not have holds 0 after pasting.\<close>

lemma pasted_nothing:
  assumes paste: "\<forall>k \<in> set pasted_keys. \<forall>el. element_by_id v k = Some el \<longrightarrow>
        (\<exists>x. node_value h (node_at u el) = shown_value h (role (node_at v el)) x \<and>
           (case map_of ts k of None \<Rightarrow> x = Undefined | Some j \<Rightarrow> \<forall>y. leaf_val j = Some y \<longrightarrow> x = y))"
    and k: "map_of ts k = None" "k \<in> set pasted_keys" and el: "element_by_id v k = Some el" "role (node_at v el) = NumberInput"
    and node: "node_ok (node_at u el)"
  shows "node_value h' (node_at u el) = Num zero"
proof -
  have "node_value h (node_at u el) = shown_value h NumberInput Undefined"
    using paste [rule_format, OF k(2) el(1)] k(1) el(2) by auto
  then show ?thesis using node_value_heap [OF node, of h' h] by (simp add: shown_value_def to_number_def)
qed

text \<open>A number becomes its text in a text input.\<close>

lemma pasted_number:
  assumes paste: "\<forall>k \<in> set pasted_keys. \<forall>el. element_by_id v k = Some el \<longrightarrow>
        (\<exists>x. node_value h (node_at u el) = shown_value h (role (node_at v el)) x \<and>
           (case map_of ts k of None \<Rightarrow> x = Undefined | Some j \<Rightarrow> \<forall>y. leaf_val j = Some y \<longrightarrow> x = y))"
    and ts: "map_of ts k = Some (JNum y)" "wf_num y" and k: "k \<in> set pasted_keys" and v: "text_at v k = Some s0"
    and same: "\<And>k. element_by_id u k = element_by_id v k" "\<And>a. role (node_at u a) = role (node_at v a)"
  shows "text_at u k = Some (num_to_string y)"
proof -
  obtain el where el: "element_by_id v k = Some el" "role (node_at v el) = TextInput" using text_atD [OF v] .
  then obtain x where x: "node_value h (node_at u el) = shown_value h TextInput x" "\<forall>z. leaf_val (JNum y) = Some z \<longrightarrow> x = z"
    using paste [rule_format, OF k el(1)] ts by auto
  have "filter (\<lambda>c. c \<noteq> 10 \<and> c \<noteq> 13) (num_to_string y) = num_to_string y"
    by (rule filter_True) (use quiet_number(1) [OF ts(2)] in \<open>auto simp: quiet_def query_escaped_def\<close>)
  then have "stored (node_at u el) = Str (num_to_string y)"
    using x el(2) same(2) by (simp add: node_value_def get_value_def shown_value_def legacy_text_def)
  then show ?thesis using el same by (simp add: text_at_def)
qed

text \<open>A member whose element is not pasted into is the one of the page before.\<close>

lemma map_of_form_json:
  "map_of (form_json w ps) k = map_option (\<lambda>v. scalar_json (snd (collected w (k, v)))) (map_of ps k)"
  by (induction ps) (auto simp: form_json_def collected_def split: option.split)

lemma own_member:
  assumes same: "\<And>k. element_by_id u k = element_by_id v k"
    and v: "\<And>el. element_by_id v k = Some el \<Longrightarrow> node_at u el = node_at v el \<and> node_ok (node_at v el)"
  shows "map_of (form_json u ps) k = map_of (form_json v ps) k"
proof (cases "element_by_id v k")
  case (Some el)
  then have "node_value (objs u) (node_at u el) = node_value (objs v) (node_at v el)"
    using v node_value_heap [of "node_at v el" "objs u" "objs v"] by simp
  then show ?thesis using Some by (simp add: map_of_form_json collected_def same)
qed (simp add: map_of_form_json collected_def same)

definition own_keys :: "jstr set" where
  "own_keys = js ` {''connectionId'', ''durationMs'', ''timestamp'', ''constant''}"

lemma own_keys_not: "k \<in> own_keys \<Longrightarrow> k \<notin> set pasted_keys \<union> {js ''output'', js ''input''}"
  by (auto simp: own_keys_def pasted_keys_def)

lemma record_members:
  assumes "record_fields w ps"
  shows "map_of (form_json w ps @ [(js ''input'', a), (js ''output'', b)]) (js ''input'') = Some a"
    "map_of (form_json w ps @ [(js ''input'', a), (js ''output'', b)]) (js ''output'') = Some b"
proof -
  have "map_of (form_json w ps) (js ''input'') = None" "map_of (form_json w ps) (js ''output'') = None"
    using assms by (simp_all add: map_of_eq_None_iff record_fields_def form_json_keys)
  then show "map_of (form_json w ps @ [(js ''input'', a), (js ''output'', b)]) (js ''input'') = Some a"
    "map_of (form_json w ps @ [(js ''input'', a), (js ''output'', b)]) (js ''output'') = Some b"
    by (simp_all add: map_add_def)
qed

text \<open>The text of a record, once parsed.\<close>

definition record_props :: "world \<Rightarrow> (jstr \<times> val) list \<Rightarrow> (jstr \<times> json) list" where
  "record_props w ps = via_text_props (form_json w ps @
     [(js ''input'', field_json w (js ''input'')), (js ''output'', field_json w (js ''output''))])"

lemma record_props_parse:
  assumes "tree_ok w" "typed w" "record_fields w ps"
  shows "json_parse (json_text (record_json w ps)) = Some (JObj (record_props w ps))"
  using record_json_wf [OF assms] by (simp add: record_props_def record_json_def)

lemma record_props_members:
  assumes "record_fields w ps"
  shows "k \<in> {js ''input'', js ''output''} \<Longrightarrow> map_of (record_props w ps) k = Some (via_text (field_json w k))"
    "k \<notin> {js ''input'', js ''output''} \<Longrightarrow> map_of (record_props w ps) k = map_option via_text (map_of (form_json w ps) k)"
proof -
  show "map_of (record_props w ps) k = Some (via_text (field_json w k))" if "k \<in> {js ''input'', js ''output''}"
    using that record_members [OF assms] by (auto simp: record_props_def map_of_via_text simp del: map_of_append)
  show "map_of (record_props w ps) k = map_option via_text (map_of (form_json w ps) k)" if "k \<notin> {js ''input'', js ''output''}"
    using that by (simp add: record_props_def map_of_via_text map_add_def split: option.split)
qed

lemma record_props_scalars:
  assumes "record_fields w ps" "(k, d) \<in> set ps"
  shows "text_at w k = Some s \<Longrightarrow> map_of (record_props w ps) k = Some (JStr s)"
    "element_by_id w k = Some el \<Longrightarrow> node_value (objs w) (node_at w el) = Num x \<Longrightarrow>
       map_of (record_props w ps) k = Some (via_text (JNum x))"
proof -
  have f: "form_fields w ps" "k \<notin> {js ''input'', js ''output''}"
    using assms by (auto simp: record_fields_def form_json_keys image_iff)
  note m = record_props_members(2) [OF assms(1) f(2)]
  show "map_of (record_props w ps) k = Some (JStr s)" if "text_at w k = Some s"
    using form_json_member [OF f(1) assms(2) that, of "[]"] by (simp add: m)
  show "map_of (record_props w ps) k = Some (via_text (JNum x))"
    if "element_by_id w k = Some el" "node_value (objs w) (node_at w el) = Num x"
    using form_json_value [OF f(1) assms(2) that(1), of "[]"] that(2) by (simp add: m)
qed

text \<open>The keys of the record, and whose elements pasting leaves alone.\<close>

lemma record_keys_in:
  "(js ''index'', Null) \<in> set copied_fields" "(js ''index'', negative_one) \<in> set mock_fields" "js ''index'' \<in> set pasted_keys"
  by (simp_all add: pasted_keys_def mock_fields_def copied_fields_def)

lemma counter_keys:
  assumes "k \<in> {js ''nthRequest'', js ''count''}"
  shows "k \<in> set pasted_keys" "(k, negative_one) \<in> set mock_fields" "k \<notin> fst ` set copied_fields"
    "k \<notin> {js ''input'', js ''output''}"
  using assms by (auto simp: pasted_keys_def mock_fields_def copied_fields_def)

lemma own_kept:
  assumes "tree_ok v" "typed v" "k \<in> own_keys" "element_by_id v k = Some el"
    and "\<forall>a. (\<forall>k \<in> set pasted_keys \<union> {js ''output'', js ''input''}. element_by_id v k \<noteq> Some a) \<longrightarrow> node_at u a = node_at v a"
  shows "node_at u el = node_at v el \<and> node_ok (node_at v el)"
proof -
  have "node_at u el = node_at v el" using assms(5) own_keys_not [OF assms(3)] element_by_id_inj [OF assms(4)] by blast
  then show ?thesis using typed_node [OF assms(2)] element_by_id_lt [OF assms(1,4)] by simp
qed

text \<open>What the form of the mock holds after pasting, member by member.\<close>

lemma filled_members:
  assumes w: "tree_ok w" "typed w" "record_fields w copied_fields"
    and v: "tree_ok v" "typed v" "record_fields v mock_fields"
    and same: "\<And>k. element_by_id u k = element_by_id v k" "\<And>a. role (node_at u a) = role (node_at v a)"
    and u: "tree_ok u" "typed u" "record_fields u mock_fields"
    and filled: "\<forall>k \<in> set pasted_keys. \<forall>el. element_by_id v k = Some el \<longrightarrow>
        (\<exists>x. node_value h (node_at u el) = shown_value h (role (node_at v el)) x \<and>
           (case map_of (record_props w copied_fields) k of
              None \<Rightarrow> x = Undefined | Some j \<Rightarrow> \<forall>y. leaf_val j = Some y \<longrightarrow> x = y))"
    and kept: "\<forall>a. (\<forall>k \<in> set pasted_keys \<union> {js ''output'', js ''input''}. element_by_id v k \<noteq> Some a) \<longrightarrow>
        node_at u a = node_at v a"
  shows "\<forall>k \<in> text_keys. \<forall>a b. text_at w k = Some a \<longrightarrow> text_at v k = Some b \<longrightarrow>
        map_of (record_props u mock_fields) k = Some (JStr (filter (\<lambda>c. c \<noteq> 10 \<and> c \<noteq> 13) a))"
    "\<forall>el b neg m e. element_by_id w (js ''index'') = Some el \<longrightarrow> node_value (objs w) (node_at w el) = Num (Fin neg m e) \<longrightarrow>
        text_at v (js ''index'') = Some b \<longrightarrow>
        map_of (record_props u mock_fields) (js ''index'') = Some (JStr (num_to_string (Fin neg m e)))"
    "\<forall>k \<in> own_keys. map_of (record_props u mock_fields) k = map_option via_text (map_of (form_json v mock_fields) k)"
    "\<forall>k \<in> {js ''nthRequest'', js ''count''}. \<forall>el. element_by_id v k = Some el \<longrightarrow> role (node_at v el) = NumberInput \<longrightarrow>
        map_of (record_props u mock_fields) k = Some (JNum zero)"
proof -
  let ?ts = "record_props w copied_fields" and ?ps = "record_props u mock_fields"
  have texts: "map_of ?ps k = Some (JStr (filter (\<lambda>c. c \<noteq> 10 \<and> c \<noteq> 13) a))"
    if k: "k \<in> text_keys" "text_at w k = Some a" "text_at v k = Some b" for k a b
    by (rule record_props_scalars(1) [OF u(3) text_keys_in(2) [OF k(1)]
        pasted_text [OF filled record_props_scalars(1) [OF w(3) text_keys_in(1) [OF k(1)] k(2)] text_keys_in(3) [OF k(1)] k(3) same]])
  note keys = record_keys_in
  have index: "map_of ?ps (js ''index'') = Some (JStr (num_to_string (Fin neg m e)))"
    if k: "element_by_id w (js ''index'') = Some el" "node_value (objs w) (node_at w el) = Num (Fin neg m e)"
      "text_at v (js ''index'') = Some b" for el b neg m e
  proof -
    have "map_of ?ts (js ''index'') = Some (JNum (unsigned_zero (Fin neg m e)))"
      using record_props_scalars(2) [OF w(3) keys(1) k(1,2)] by simp
    moreover have "wf_num (unsigned_zero (Fin neg m e))"
      using typed_node [OF w(2) element_by_id_lt [OF w(1) k(1)]] node_value_typed [of _ _ "objs w"] k(2)
        wf_unsigned_zero by fastforce
    ultimately have "text_at u (js ''index'') = Some (num_to_string (Fin neg m e))"
      using pasted_number [OF filled _ _ keys(3) k(3) same] num_to_string_unsigned_zero by metis
    then show ?thesis using record_props_scalars(1) [OF u(3) keys(2)] by simp
  qed
  have own: "map_of ?ps k = map_option via_text (map_of (form_json v mock_fields) k)" if k: "k \<in> own_keys" for k
    using own_member [OF same(1) own_kept [OF v(1,2) k _ kept]] record_props_members(2) [OF u(3), of k] own_keys_not [OF k]
    by simp
  have counters: "map_of ?ps k = Some (JNum zero)"
    if k: "k \<in> {js ''nthRequest'', js ''count''}" "element_by_id v k = Some el" "role (node_at v el) = NumberInput" for k el
  proof -
    have "map_of ?ts k = None" using record_props_members(2) [OF w(3), of k] counter_keys(3,4) [OF k(1)]
      by (simp add: map_of_eq_None_iff form_json_keys)
    moreover have "node_ok (node_at u el)"
      using typed_node [OF u(2)] element_by_id_lt [OF u(1)] k(2) same(1) by auto
    ultimately have "node_value (objs u) (node_at u el) = Num zero"
      using pasted_nothing [OF filled _ counter_keys(1) [OF k(1)] k(2,3)] by blast
    then show ?thesis
      using record_props_scalars(2) [OF u(3) counter_keys(2) [OF k(1)]] k(2) same(1) by (simp add: zero_def)
  qed
  show "\<forall>k \<in> text_keys. \<forall>a b. text_at w k = Some a \<longrightarrow> text_at v k = Some b \<longrightarrow>
        map_of ?ps k = Some (JStr (filter (\<lambda>c. c \<noteq> 10 \<and> c \<noteq> 13) a))"
    "\<forall>el b neg m e. element_by_id w (js ''index'') = Some el \<longrightarrow> node_value (objs w) (node_at w el) = Num (Fin neg m e) \<longrightarrow>
        text_at v (js ''index'') = Some b \<longrightarrow> map_of ?ps (js ''index'') = Some (JStr (num_to_string (Fin neg m e)))"
    "\<forall>k \<in> own_keys. map_of ?ps k = map_option via_text (map_of (form_json v mock_fields) k)"
    "\<forall>k \<in> {js ''nthRequest'', js ''count''}. \<forall>el. element_by_id v k = Some el \<longrightarrow> role (node_at v el) = NumberInput \<longrightarrow>
        map_of ?ps k = Some (JNum zero)"
    using texts index own counters by blast+
qed

text \<open>C6: A record copied on the page of the recording, pasted into the form of a mock and saved: the
  server gets the input and the output that parse, the texts of its type, caller and types less
  their line breaks, its index as a text, and the connection, the duration, the time and the
  constant of the mock's own page. The counters nthRequest and count, which no record has, become
  0.\<close>

theorem record_travels:
  assumes w: "tree_ok w" "typed w" "record_fields w copied_fields"
    and v: "tree_ok v" "typed v" "record_fields v mock_fields" "mock_form v"
    and name: "text_at v (js ''fileName'') = Some s" "url_ok v (plugin_path i (js ''mock-plugin'') ''/mocks/'' @ s)"
  shows "\<exists>w' T u u' t ps. copyData w = (Inr (), w') \<and> clipboard w' = clipboard w @ [T] \<and>
     pasteData e T v = (Inr (), u) \<and> mock_saveContentFile i u = (Inr (), u') \<and>
     requests u' = requests v @
       [issued (js ''POST'') (plugin_path i (js ''mock-plugin'') ''/mocks/'' @ s) [(js ''Content-Type'', json_type)]
          (TextBody t) (OnSend (plugin_path i (js ''mock-plugin'') ''/mocks/'' @ s) json_type (js ''POST'') (Function 2 0))] \<and>
     json_parse t = Some (JObj ps) \<and>
     map_of ps (js ''input'') = Some (via_text (field_json w (js ''input''))) \<and>
     map_of ps (js ''output'') = Some (via_text (field_json w (js ''output''))) \<and>
     (\<forall>k \<in> text_keys. \<forall>a b. text_at w k = Some a \<longrightarrow> text_at v k = Some b \<longrightarrow>
        map_of ps k = Some (JStr (filter (\<lambda>c. c \<noteq> 10 \<and> c \<noteq> 13) a))) \<and>
     (\<forall>el b neg m e. element_by_id w (js ''index'') = Some el \<longrightarrow> node_value (objs w) (node_at w el) = Num (Fin neg m e) \<longrightarrow>
        text_at v (js ''index'') = Some b \<longrightarrow> map_of ps (js ''index'') = Some (JStr (num_to_string (Fin neg m e)))) \<and>
     (\<forall>k \<in> own_keys. map_of ps k = map_option via_text (map_of (form_json v mock_fields) k)) \<and>
     (\<forall>k \<in> {js ''nthRequest'', js ''count''}. \<forall>el. element_by_id v k = Some el \<longrightarrow> role (node_at v el) = NumberInput \<longrightarrow>
        map_of ps k = Some (JNum zero))"
proof -
  let ?ts = "record_props w copied_fields"
  let ?path = "plugin_path i (js ''mock-plugin'') ''/mocks/'' @ s"
  define T where "T = json_text (record_json w copied_fields)"
  obtain w' where w': "copyData w = (Inr (), w')" "clipboard w' = clipboard w @ [T]"
    using copy_step [OF w] unfolding T_def by blast
  have parse: "json_parse T = Some (JObj ?ts)" unfolding T_def by (rule record_props_parse [OF w])
  obtain u h where u: "pasteData e T v = (Inr (), u)" "refilled (v\<lparr>objs := h\<rparr>) u" "typed u"
      "\<forall>k \<in> set pasted_keys. \<forall>el. element_by_id v k = Some el \<longrightarrow>
        (\<exists>x. node_value h (node_at u el) = shown_value h (role (node_at v el)) x \<and>
           (case map_of ?ts k of None \<Rightarrow> x = Undefined | Some j \<Rightarrow> \<forall>y. leaf_val j = Some y \<longrightarrow> x = y))"
      "\<forall>k \<in> {js ''output'', js ''input''}. field_json u k = member_json ?ts k"
      "\<forall>a. (\<forall>k \<in> set pasted_keys \<union> {js ''output'', js ''input''}. element_by_id v k \<noteq> Some a) \<longrightarrow> node_at u a = node_at v a"
    using paste_effect [OF v(1,2,4) parse] by blast
  note same = record_fields_refilled [OF u(2) v(3)]
  have tree: "tree_ok u" using refilled_tree [OF u(2)] v(1) by (simp add: tree_ok_def)
  have req: "requests u = requests v" "url_ok u = url_ok v" using refilled_fields(3,4) [OF u(2)] by simp_all
  obtain f where f: "element_by_id v (js ''fileName'') = Some f" "role (node_at v f) = TextInput" "stored (node_at v f) = Str s"
    using text_atD [OF name(1)] .
  have "js ''fileName'' \<notin> set pasted_keys \<union> {js ''output'', js ''input''}" by (auto simp: pasted_keys_def)
  then have "node_at u f = node_at v f" using u(6) element_by_id_inj [OF f(1)] by blast
  then obtain u' where u': "mock_saveContentFile i u = (Inr (), u')" "requests u' = requests v @
       [issued (js ''POST'') ?path [(js ''Content-Type'', json_type)] (TextBody (json_text (record_json u mock_fields)))
          (OnSend ?path json_type (js ''POST'') (Function 2 0))]"
    using save_step [OF tree u(3) same(1), of f s i] f name(2) by (auto simp: same(2) req)
  define ps where "ps = record_props u mock_fields"
  have t: "json_parse (json_text (record_json u mock_fields)) = Some (JObj ps)"
    unfolding ps_def by (rule record_props_parse [OF tree u(3) same(1)])
  have io: "map_of ps (js ''input'') = Some (via_text (field_json w (js ''input'')))"
    "map_of ps (js ''output'') = Some (via_text (field_json w (js ''output'')))"
    using u(5) record_props_members(1) [OF w(3)] record_props_members(1) [OF same(1)]
    by (simp_all add: ps_def member_json_def)
  have "element_by_id u k = element_by_id v k" "role (node_at u a) = role (node_at v a)" for k a by (rule same)+
  note members = filled_members [OF w v(1-3) this tree u(3) same(1) u(4,6), folded ps_def]
  show ?thesis using w' u(1) u' t io members by blast
qed

text \<open>A recording with a type and an input, and the page of an empty mock.\<close>

definition copied_page :: world where
  "copied_page = sample_page\<lparr>
     nodes := [blank, blank, blank\<lparr>role := TextInput, ident := js ''type'', stored := Str (js ''QUERY'')\<rparr>,
       blank\<lparr>role := TextArea, ident := js ''input'', stored := Str (js ''[1,true]'')\<rparr>, blank]\<rparr>"

definition mock_page :: world where
  "mock_page = sample_page\<lparr>
     nodes := [blank, blank] @
       map (\<lambda>k. blank\<lparr>role := TextInput, ident := js k, stored := Str []\<rparr>)
         [''type'', ''index'', ''caller'', ''inputType'', ''outputType''] @
       map (\<lambda>k. blank\<lparr>role := NumberInput, ident := js k, stored := Str []\<rparr>) [''nthRequest'', ''count''] @
       map (\<lambda>k. blank\<lparr>role := TextArea, ident := js k, stored := Str []\<rparr>) [''output'', ''input''] @
       [blank\<lparr>role := TextInput, ident := js ''fileName'', stored := Str (js ''m.json'')\<rparr>],
     forest := [Node 0 [Node 1 (map (\<lambda>a. Node a []) [2, 3, 4, 5, 6, 7, 8, 9, 10, 11])]]\<rparr>"

lemma copied_page_ids:
  "element_by_id copied_page (js ''type'') = Some 2" "element_by_id copied_page (js ''input'') = Some 3"
  "k \<in> {''connectionId'', ''index'', ''durationMs'', ''caller'', ''inputType'', ''outputType'', ''timestamp'', ''constant'', ''output''} \<Longrightarrow>
     element_by_id copied_page (js k) = None"
  by (auto simp: copied_page_def sample_page_def element_by_id_def document_def node_at_def blank_def)

lemma mock_page_ids:
  "element_by_id mock_page (js ''type'') = Some 2" "element_by_id mock_page (js ''index'') = Some 3"
  "element_by_id mock_page (js ''caller'') = Some 4" "element_by_id mock_page (js ''inputType'') = Some 5"
  "element_by_id mock_page (js ''outputType'') = Some 6" "element_by_id mock_page (js ''nthRequest'') = Some 7"
  "element_by_id mock_page (js ''count'') = Some 8" "element_by_id mock_page (js ''output'') = Some 9"
  "element_by_id mock_page (js ''input'') = Some 10" "element_by_id mock_page (js ''fileName'') = Some 11"
  "k \<in> {''connectionId'', ''durationMs'', ''timestamp'', ''constant''} \<Longrightarrow> element_by_id mock_page (js k) = None"
proof -
  have n: "addrs (document mock_page) = [0, 1, 2, 3, 4, 5, 6, 7, 8, 9, 10, 11]"
    "ident (node_at mock_page 0) = []" "ident (node_at mock_page 1) = []"
    "ident (node_at mock_page (Suc 0)) = []"
    "ident (node_at mock_page 2) = js ''type''" "ident (node_at mock_page 3) = js ''index''"
    "ident (node_at mock_page 4) = js ''caller''" "ident (node_at mock_page 5) = js ''inputType''"
    "ident (node_at mock_page 6) = js ''outputType''" "ident (node_at mock_page 7) = js ''nthRequest''"
    "ident (node_at mock_page 8) = js ''count''" "ident (node_at mock_page 9) = js ''output''"
    "ident (node_at mock_page 10) = js ''input''" "ident (node_at mock_page 11) = js ''fileName''"
    by (simp_all add: mock_page_def sample_page_def document_def node_at_def blank_def)
  show "element_by_id mock_page (js ''type'') = Some 2" "element_by_id mock_page (js ''index'') = Some 3"
    "element_by_id mock_page (js ''caller'') = Some 4" "element_by_id mock_page (js ''inputType'') = Some 5"
    "element_by_id mock_page (js ''outputType'') = Some 6" "element_by_id mock_page (js ''nthRequest'') = Some 7"
    "element_by_id mock_page (js ''count'') = Some 8" "element_by_id mock_page (js ''output'') = Some 9"
    "element_by_id mock_page (js ''input'') = Some 10" "element_by_id mock_page (js ''fileName'') = Some 11"
    by (simp_all add: element_by_id_def n)
  show "k \<in> {''connectionId'', ''durationMs'', ''timestamp'', ''constant''} \<Longrightarrow> element_by_id mock_page (js k) = None"
    by (elim insertE emptyE) (simp_all add: element_by_id_def n)
qed

lemma copied_page_ok: "tree_ok copied_page" "typed copied_page" "record_fields copied_page copied_fields"
proof -
  show "tree_ok copied_page" using sample_tree by (simp add: tree_ok_def copied_page_def) (simp add: sample_page_def)
  show "typed copied_page" by (simp add: typed_def copied_page_def sample_page_def heap_ok_def node_ok_def blank_def)
  have "props_ok copied_fields" by code_simp
  moreover have "role (node_at copied_page 2) = TextInput" "role (node_at copied_page 3) = TextArea"
    by (simp_all add: copied_page_def node_at_def)
  ultimately show "record_fields copied_page copied_fields"
    by (simp add: record_fields_def form_fields_def copied_fields_def area_def copied_page_ids)
qed

lemma mock_page_ok: "tree_ok mock_page" "typed mock_page" "record_fields mock_page mock_fields" "mock_form mock_page"
proof -
  have "set [0, 1, 2, 3, 4, 5, 6, 7, 8, 9, 10, 11] = {..<12 :: nat}" by code_simp
  then show "tree_ok mock_page" by (simp add: tree_ok_def mock_page_def sample_page_def)
  show "typed mock_page" by (simp add: typed_def mock_page_def sample_page_def heap_ok_def node_ok_def blank_def)
  have roles: "a \<in> {2, 3, 4, 5, 6} \<Longrightarrow> role (node_at mock_page a) = TextInput"
    "a \<in> {7, 8} \<Longrightarrow> role (node_at mock_page a) = NumberInput"
    "a \<in> {9, 10} \<Longrightarrow> role (node_at mock_page a) = TextArea" for a
    by (auto simp: mock_page_def node_at_def)
  have "props_ok mock_fields" by code_simp
  moreover have "wf_num (round_num True 1 1)" "wf_num zero" by code_simp+
  ultimately show "record_fields mock_page mock_fields"
    by (simp add: record_fields_def form_fields_def mock_fields_def negative_one_def area_def mock_page_ids roles)
  show "mock_form mock_page" by (simp add: mock_form_def pasted_keys_def mock_page_ids roles)
qed

lemma record_travels_witness:
  "\<exists>w' T u u' t ps. copyData copied_page = (Inr (), w') \<and> clipboard w' = [T] \<and>
     pasteData (\<lambda>_. []) T mock_page = (Inr (), u) \<and> mock_saveContentFile (js ''pg'') u = (Inr (), u') \<and>
     map req_body (requests u') = [TextBody t] \<and> json_parse t = Some (JObj ps) \<and>
     map_of ps (js ''input'') = Some (JArr [JNum (round_num False 1 1), JBool True]) \<and>
     map_of ps (js ''type'') = Some (JStr (js ''QUERY'')) \<and> map_of ps (js ''count'') = Some (JNum zero)"
proof -
  have "field_json copied_page (js ''input'') = JArr [JNum (round_num False 1 1), JBool True]"
    using sample_area_text by (simp add: field_json_def copied_page_ids) (simp add: copied_page_def node_at_def)
  moreover have "via_text (JNum (round_num False 1 1)) = JNum (round_num False 1 1)" by code_simp
  moreover have "filter (\<lambda>c. c \<noteq> 10 \<and> c \<noteq> 13) (js ''QUERY'') = js ''QUERY''" by code_simp
  moreover have "text_at copied_page (js ''type'') = Some (js ''QUERY'')" "text_at mock_page (js ''type'') = Some []"
    "text_at mock_page (js ''fileName'') = Some (js ''m.json'')"
    by (simp_all add: text_at_def copied_page_ids mock_page_ids) (simp_all add: copied_page_def mock_page_def node_at_def)
  moreover have "url_ok mock_page p" "requests mock_page = []" "clipboard copied_page = []" for p
    by (simp_all add: mock_page_def copied_page_def sample_page_def)
  moreover have "js ''type'' \<in> text_keys" by (simp add: text_keys_def)
  moreover have "role (node_at mock_page 8) = NumberInput" by (simp add: mock_page_def node_at_def)
  note mock_page_ids(7) this
  ultimately show ?thesis
    using record_travels [OF copied_page_ok mock_page_ok, of "js ''m.json''" "js ''pg''" "\<lambda>_. []"]
    by (auto simp: issued_def simp del: via_text.simps(1))
qed

subsection \<open>A clipboard that holds no record\<close>

lemma show_error_effect:
  assumes ok: "ns_ok w"
  shows "\<exists>w' n. showError title w = (Inr (), w') \<and> ns_ok w' \<and> on_screen w' = on_screen w @ [n] \<and>
     take (length (nodes w)) (nodes w') = nodes w \<and> rest_of w' = rest_of w"
proof -
  obtain c where c: "c < length (nodes w)" "container w = Some c" using ok by (auto simp: ns_ok_def)
  have tree: "tree_ok w" using ok by (simp add: ns_ok_def)
  have s: "showError title = showNotification (js ''error'') (Str (js ''ERROR'')) title"
    by (simp add: showError_def showNotification_def)
  then have "showError title w = (Inr (), with_notification w c (js ''error'') (Str (js ''ERROR'')) title Undefined)"
    using ns_show_container [OF tree c(2,1)] by (simp add: showNotification_def bnd_Inr ret_def)
  moreover have "take (length (nodes w)) (nodes (with_notification w c ty ti me Undefined)) = nodes w" for ty ti me
    by (simp add: with_notification_def Let_def)
  ultimately show ?thesis using showNotification_step [OF ok, of "js ''error''" "Str (js ''ERROR'')" title] unfolding s by auto
qed

text \<open>C31: A clipboard that is no JSON, or null, is reported in one notification and one line of the
  log: every element of the page keeps what it has, and nothing is sent or stored.\<close>

theorem paste_rejected:
  assumes ok: "ns_ok w" and T: "json_parse T = None \<or> json_parse T = Some JNull"
  shows "\<exists>w' n. pasteData exn_text T w = (Inr (), w') \<and> ns_ok w' \<and> on_screen w' = on_screen w @ [n] \<and>
     take (length (nodes w)) (nodes w') = nodes w \<and> length (console w') = length (console w) + 1 \<and>
     objs w' = objs w \<and> requests w' = requests w \<and> store w' = store w"
proof -
  let ?line = "(''error'', [Str (js ''Failed to read clipboard contents: ''), Str (js ''[object Error]'')])"
  let ?u = "w\<lparr>console := console w @ [?line]\<rparr>"
  have first: "pasted_keys = js ''type'' # tl pasted_keys" by (simp add: pasted_keys_def)
  have "\<exists>e. bnd (json_parse_val (Str T)) (\<lambda>obj. seq (for_each pasted_keys (paste_value obj))
       (seq (paste_json obj (js ''output'')) (paste_json obj (js ''input'')))) w = (Inl e, w)"
    using T
  proof
    assume "json_parse T = None"
    then show ?thesis by (simp add: bnd_Inl json_parse_val_def parse_json_def)
  next
    assume "json_parse T = Some JNull"
    then have "json_parse_val (Str T) w = (Inr Null, w)" by (simp add: json_parse_val_def parse_json_text)
    moreover have "paste_value Null k w = (Inl TypeError, w)" for k
      by (simp add: paste_value_def bnd_Inl get_prop_def read_prop_def)
    then have "for_each pasted_keys (paste_value Null) w = (Inl TypeError, w)"
      by (subst first) (simp add: seq_def bnd_Inl)
    ultimately show ?thesis by (simp add: bnd_Inr seq_def bnd_Inl)
  qed
  then obtain e where "pasteData exn_text T w = showError (Str (js ''Invalid content! '' @ exn_text e)) ?u"
    by (auto simp: pasteData_def try_catch_def seq_Inr log_at_step)
  moreover have "ns_ok ?u" "on_screen ?u = on_screen w" using ok by simp_all
  ultimately show ?thesis
    using show_error_effect [of ?u "Str (js ''Invalid content! '' @ exn_text e)"] by (auto simp: rest_of_def)
qed

lemma paste_rejected_witness:
  "\<exists>w' n. pasteData (\<lambda>_. js ''SyntaxError'') (js ''{'') sample_ready = (Inr (), w') \<and>
     on_screen w' = on_screen sample_ready @ [n] \<and> requests w' = []"
proof -
  have "json_parse (js ''{'') = None" by code_simp
  moreover have "requests sample_ready = []" by (simp add: sample_ready_def sample_page_def)
  ultimately show ?thesis
    using paste_rejected [OF sample_ready_ok(1), of "js ''{''" "\<lambda>_. js ''SyntaxError''"] by auto
qed

end
