(* ===== verification/Storage.thy ===== *)
theory Storage
  imports Plugins
begin

section \<open>Browsing the storage\<close>

text \<open>
  The script of \<open>jte/storage.jte\<close>: a tree of folders, the files of a folder and the content of a file
  are fragments that \<open>htmx.ajax\<close> asks for (recorded in \<open>ajax\<close>); the script keeps the folder that is
  selected.  What runs after a fragment was put in place (the functions passed to \<open>then\<close>) is
  \<open>tree_loaded\<close>.  Whether two texts compare equal with \<open>localeCompare\<close> is the locale's matter and a
  parameter (\<open>same\<close>), and so is the answer to \<open>confirm\<close>.
\<close>

subsection \<open>htmx and \<open>classList\<close>\<close>

text \<open>\<open>htmx.find(s)\<close> is \<open>document.querySelector(s)\<close>; \<open>htmx.remove(e)\<close> removes a child from its parent.\<close>

definition htmx_find :: "jstr \<Rightarrow> nat option js_prog" where
  "htmx_find s = bnd (gets (\<lambda>w. root (document w))) (\<lambda>d. query_selector d s)"

definition htmx_remove :: "nat \<Rightarrow> unit js_prog" where
  "htmx_remove a = bnd (parent_node a) (\<lambda>p. bnd (non_null p) (\<lambda>p. remove_child p a))"

definition toggle_class :: "jstr \<Rightarrow> node \<Rightarrow> node" where
  "toggle_class c n = (if c \<in> set (classes n) then class_remove c n else class_add c n)"

text \<open>\<open>htmx.ajax\<close> with a path, a target and a swap; no swap is the one of the target.\<close>

definition htmx_ajax :: "jstr \<Rightarrow> jstr \<Rightarrow> string \<Rightarrow> unit js_prog" where
  "htmx_ajax path target swap = modify (\<lambda>w. w\<lparr>ajax := ajax w @ [(js ''GET'', path, target, js swap)]\<rparr>)"

subsection \<open>The code\<close>

definition cleanStorage :: "bool \<Rightarrow> unit js_prog" where
  "cleanStorage yes =
     (if yes then getData (js ''/api/global/storage'') (js ''DELETE'') (Function 0 0) else ret ())"

definition toggle_selected :: "jstr \<Rightarrow> unit js_prog" where
  "toggle_selected s =
     bnd (htmx_find s) (\<lambda>m. bnd (non_null m) (\<lambda>m. modify (set_node m (toggle_class (js ''selectedClass'')))))"

definition toggle :: "jstr \<Rightarrow> unit js_prog" where
  "toggle target =
     (let newElement = target @ js ''_name''
      in bnd (gets selected_element) (\<lambda>sel.
           case sel of
             Some s \<Rightarrow>
               if s \<noteq> newElement then
                 seq (toggle_selected s)
                (seq (modify (\<lambda>w. w\<lparr>selected_element := Some newElement\<rparr>))
                     (toggle_selected newElement))
               else ret ()
           | None \<Rightarrow>
               seq (modify (\<lambda>w. w\<lparr>selected_element := Some newElement\<rparr>))
                   (toggle_selected newElement)))"

definition resetFiles :: "(jstr \<Rightarrow> jstr \<Rightarrow> bool) \<Rightarrow> jstr \<Rightarrow> unit js_prog" where
  "resetFiles same path =
     bnd (gets selected_path) (\<lambda>p.
       if \<not> same path (case p of None \<Rightarrow> js ''null'' | Some q \<Rightarrow> q) then
         bnd (htmx_find (js ''#fileContainerData'')) (\<lambda>item.
           case item of None \<Rightarrow> ret () | Some a \<Rightarrow> htmx_remove a)
       else ret ())"

definition openFiles :: "(jstr \<Rightarrow> jstr \<Rightarrow> bool) \<Rightarrow> jstr \<Rightarrow> unit js_prog" where
  "openFiles same path =
     seq (resetFiles same path)
    (seq (modify (\<lambda>w. w\<lparr>selected_path := Some path\<rparr>))
         (htmx_ajax (js ''/storage/files?parent='' @ path) (js ''#resultsContainer'') ''''))"


definition closeTree :: "(jstr \<Rightarrow> jstr \<Rightarrow> bool) \<Rightarrow> jstr \<Rightarrow> jstr \<Rightarrow> unit js_prog" where
  "closeTree same target path =
     seq (resetFiles same path)
    (seq (modify (\<lambda>w. w\<lparr>selected_path := Some path\<rparr>))
         (htmx_ajax (js ''/storage/tree?close=true&parent='' @ path) target ''outerHTML''))"

text \<open>The two functions that follow a tree, opened or closed.\<close>

definition tree_loaded :: "(jstr \<Rightarrow> jstr \<Rightarrow> bool) \<Rightarrow> jstr \<Rightarrow> jstr \<Rightarrow> unit js_prog" where
  "tree_loaded same target path = seq (openFiles same path) (toggle target)"

text \<open>A file is opened by its folder's list, with its name, and by its own page, without.\<close>

definition openFile :: "jstr \<Rightarrow> val \<Rightarrow> unit js_prog" where
  "openFile path name =
     bnd (gets (\<lambda>w. to_string (objs w) name)) (\<lambda>n.
       htmx_ajax (js ''/storage/file?parent='' @ path @ js ''&name='' @ n) (js ''#resultsContainer'') ''outerHTML'')"

definition saveFile :: "jstr \<Rightarrow> val \<Rightarrow> callback \<Rightarrow> unit js_prog" where
  "saveFile path data callback =
     sendData (js ''/storage/file?parent='' @ path) (js ''POST'') data json_type callback"

definition deleteFile :: "bool \<Rightarrow> jstr \<Rightarrow> unit js_prog" where
  "deleteFile yes path =
     (if yes then getData (js ''/storage/file?parent='' @ path) (js ''delete'') (Function 0 1) else ret ())"

definition parent_dir :: "jstr \<Rightarrow> jstr" where
  "parent_dir path = 47 # join_with [47] (butlast (split_at 47 path))"

text \<open>
  The callbacks of the page: of \<open>cleanStorage\<close>, of \<open>deleteFile\<close>, and the two the fragments pass to
  \<open>saveFile\<close>, for a new file and for one that is open.
\<close>

definition storage_callback :: "(jstr \<Rightarrow> jstr \<Rightarrow> bool) \<Rightarrow> jstr \<Rightarrow> nat \<Rightarrow> nat \<Rightarrow> jstr \<Rightarrow> unit js_prog" where
  "storage_callback same path f status response =
     (if f = 0 then showAlert (Str (js ''All data deleted''))
      else if f = 1 then openFiles same (parent_dir path)
      else if f = 2 then openFiles same path
      else openFile path Undefined)"

subsection \<open>Finding\<close>

definition found :: "world \<Rightarrow> jstr \<Rightarrow> nat option" where
  "found w s =
     (case parse_selector s of
        None \<Rightarrow> None
      | Some sel \<Rightarrow> find (selector_matches w sel) (descendants w (root (document w))))"

lemma htmx_find_step: "parse_selector s \<noteq> None \<Longrightarrow> htmx_find s w = (Inr (found w s), w)"
  by (auto simp: htmx_find_def query_selector_def found_def bnd_def gets_def)

text \<open>A selector of one id does not look at classes.\<close>

definition names_id :: "jstr \<Rightarrow> bool" where
  "names_id s \<longleftrightarrow> (case parse_selector s of Some [IdSel _] \<Rightarrow> True | _ \<Rightarrow> False)"

lemma names_idE: "names_id s \<Longrightarrow> \<exists>i. parse_selector s = Some [IdSel i]"
  by (auto simp: names_id_def split: option.splits list.splits simple_selector.splits)

lemma classes_toggle [simp]: "ident (toggle_class c n) = ident n"
  by (simp add: toggle_class_def class_add_def class_remove_def)

lemma found_frame:
  assumes "names_id s" "forest v = forest w" "quirks v = quirks w" "\<And>a. ident (node_at v a) = ident (node_at w a)"
  shows "found v s = found w s"
proof -
  obtain i where "parse_selector s = Some [IdSel i]" using names_idE [OF assms(1)] by blast
  moreover have "selector_matches v [IdSel i] = selector_matches w [IdSel i]"
    by (simp add: selector_matches_def fun_eq_iff assms)
  ultimately show ?thesis by (simp add: found_def descendants_def document_def assms(2))
qed

lemma found_same:
  assumes "forest v = forest w" "nodes v = nodes w" "quirks v = quirks w"
  shows "found v s = found w s"
proof -
  have "selector_matches v = selector_matches w"
    using assms by (simp add: selector_matches_def fun_eq_iff node_at_def)
  then show ?thesis by (simp add: found_def descendants_def document_def assms(1) cong: option.case_cong)
qed

lemma found_toggled [simp]: "names_id s \<Longrightarrow> found (set_node a (toggle_class c) w) s = found w s"
  by (rule found_frame) (simp_all add: node_at_set_node)

lemma found_selected [simp]: "names_id s \<Longrightarrow> found (w\<lparr>selected_element := x\<rparr>) s = found w s"
  by (rule found_frame) (simp_all add: node_at_def)

lemma set_tl_addrs: "distinct (addrs t) \<Longrightarrow> set (tl (addrs t)) = set (addrs t) - {root t}"
  by (cases t) auto

lemma found_in_document:
  assumes "tree_ok w" "found w s = Some a"
  shows "a \<in> set (addrs (document w))" "a \<noteq> root (document w)" "a < length (nodes w)"
proof -
  have "a \<in> set (tl (addrs (document w)))"
    using assms document_descendants [OF assms(1)]
    by (auto simp: found_def split: option.splits dest!: find_Some_first)
  then show "a \<in> set (addrs (document w))" "a \<noteq> root (document w)"
    using set_tl_addrs [OF document_addrs(2) [OF assms(1)]] by auto
  then show "a < length (nodes w)" using document_addrs(1) [OF assms(1)] by auto
qed

subsection \<open>Closing the file\<close>

text \<open>A node that is no root has a parent; removing it takes its subtree out of the document.\<close>

lemma has_parent:
  "a \<in> set (addrs t) \<Longrightarrow> a \<noteq> root t \<Longrightarrow> \<exists>p. a \<in> set (children p t)"
  "a \<in> set (all_addrs ts) \<Longrightarrow> a \<notin> root ` set ts \<Longrightarrow> \<exists>p. a \<in> set (all_children p ts)"
proof (induction t and ts rule: ntree_forest_induct)
  case (Node b ts)
  then show ?case by (cases "a \<in> root ` set ts") (auto simp: node_simps simp del: addrs.simps children.simps)
qed auto

lemma htmx_remove_step:
  assumes tree: "tree_ok w" and a: "a \<in> set (addrs (document w))" "a \<noteq> root (document w)"
  shows "htmx_remove a w = (Inr (), w\<lparr>forest := detach a (forest w)\<rparr>)"
proof -
  obtain ts where f: "forest w = document w # ts" using document_forest [OF tree] by blast
  obtain p where "a \<in> set (children p (document w))" using has_parent(1) [OF a] by blast
  then have "a \<in> set (all_children p (forest w))" by (subst f) simp
  then have "parent_of a (forest w) = Some p" using parent_of_child tree by (simp add: tree_ok_def)
  then show ?thesis by (simp add: htmx_remove_def parent_node_def bnd_def gets_def non_null_def ret_def remove_child_def)
qed

lemma detached_document:
  assumes tree: "tree_ok w" and a: "a \<in> set (addrs (document w))" "a \<noteq> root (document w)"
  defines "v \<equiv> w\<lparr>forest := detach a (forest w)\<rparr>"
  shows "root (document v) = root (document w)" "addrs (document v) = filter (\<lambda>b. b \<notin> set (below a (forest w))) (addrs (document w))"
    "a \<notin> set (addrs (document v))" "tree_ok v"
proof -
  obtain ts where f: "forest w = document w # ts" using document_forest [OF tree] by blast
  obtain u where u: "subtree a (document w) = Some u" using a(1) subtree_absent(1) by fastforce
  then have s: "subtree_in a (forest w) = Some u" by (subst f) simp
  have "forest v = prune_all a (forest w) @ [u]" by (simp add: v_def detach_def s)
  moreover have "prune_all a (forest w) = prune a (document w) # prune_all a ts"
    using a(2) by (subst f) simp
  ultimately have d: "document v = prune a (document w)" by (simp add: document_def)
  then show "root (document v) = root (document w)" by simp
  show "addrs (document v) = filter (\<lambda>b. b \<notin> set (below a (forest w))) (addrs (document w))"
    using filter_prune(1) [OF document_addrs(2) [OF tree] a(2) u] by (simp add: d below_def s)
  moreover have "a \<in> set (below a (forest w))" using root_subtree(1) [OF u] by (auto simp: below_def s)
  ultimately show "a \<notin> set (addrs (document v))" by simp
  show "tree_ok v" unfolding v_def by (rule tree_ok_detach [OF tree])
qed

text \<open>The file that is shown, and whether opening a folder closes it.\<close>

definition file_form :: "world \<Rightarrow> nat option" where
  "file_form w = found w (js ''#fileContainerData'')"

definition leaves :: "(jstr \<Rightarrow> jstr \<Rightarrow> bool) \<Rightarrow> jstr \<Rightarrow> world \<Rightarrow> bool" where
  "leaves same path w \<longleftrightarrow> \<not> same path (case selected_path w of None \<Rightarrow> js ''null'' | Some q \<Rightarrow> q)"

definition after_reset :: "(jstr \<Rightarrow> jstr \<Rightarrow> bool) \<Rightarrow> jstr \<Rightarrow> world \<Rightarrow> world" where
  "after_reset same path w =
     (case file_form w of
        Some a \<Rightarrow> if leaves same path w then w\<lparr>forest := detach a (forest w)\<rparr> else w
      | None \<Rightarrow> w)"

lemma form_selector: "parse_selector (js ''#fileContainerData'') = Some [IdSel (js ''fileContainerData'')]"
  by (simp add: parse_selector_def js_def is_identifier_def is_name_unit_def is_name_start_def is_digit_def)

lemma resetFiles_step:
  assumes "tree_ok w"
  shows "resetFiles same path w = (Inr (), after_reset same path w)" "tree_ok (after_reset same path w)"
proof -
  have h: "htmx_find (js ''#fileContainerData'') w = (Inr (file_form w), w)"
    by (simp add: htmx_find_step form_selector file_form_def)
  have "htmx_remove a w = (Inr (), w\<lparr>forest := detach a (forest w)\<rparr>)" if "file_form w = Some a" for a
    using htmx_remove_step [OF assms] found_in_document [OF assms] that by (simp add: file_form_def)
  then show "resetFiles same path w = (Inr (), after_reset same path w)"
    by (auto simp: resetFiles_def after_reset_def leaves_def bnd_def gets_def h ret_def split: option.split)
  show "tree_ok (after_reset same path w)"
    using tree_ok_detach [OF assms] assms by (simp add: after_reset_def split: option.split)
qed

lemma after_reset_frame [simp]:
  "nodes (after_reset same path w) = nodes w" "node_at (after_reset same path w) a = node_at w a"
  "ajax (after_reset same path w) = ajax w" "selected_element (after_reset same path w) = selected_element w"
  "requests (after_reset same path w) = requests w" "quirks (after_reset same path w) = quirks w"
  by (simp_all add: after_reset_def node_at_def split: option.split)


text \<open>What is no longer found stays so.\<close>

lemma after_reset_found:
  assumes tree: "tree_ok w" and none: "found w s = None"
  shows "found (after_reset same path w) s = None"
proof (cases "file_form w")
  case None
  then show ?thesis using none by (simp add: after_reset_def)
next
  case (Some a)
  let ?v = "w\<lparr>forest := detach a (forest w)\<rparr>"
  note a = found_in_document(1,2) [OF tree Some [unfolded file_form_def]]
  note d = detached_document [OF tree a]
  have "set (descendants ?v (root (document ?v))) \<subseteq> set (descendants w (root (document w)))"
    unfolding document_descendants [OF tree] document_descendants [OF d(4)]
      set_tl_addrs [OF document_addrs(2) [OF tree]] set_tl_addrs [OF document_addrs(2) [OF d(4)]]
    using d(1,2) by auto
  moreover have "selector_matches ?v = selector_matches w" by (simp add: selector_matches_def fun_eq_iff node_at_def)
  ultimately have "found ?v s = None"
    using none by (auto simp: found_def find_None_iff split: option.splits)
  then show ?thesis using none by (simp add: after_reset_def Some)
qed

subsection \<open>Properties\<close>

text \<open>A page with two folders, of which \<open>a\<close> is selected, and a file.\<close>

definition folders :: world where
  "folders = sample_page\<lparr>
     nodes := [blank, blank, blank\<lparr>ident := js ''a_name'', classes := [js ''selectedClass'']\<rparr>,
       blank\<lparr>ident := js ''b_name''\<rparr>,
       blank\<lparr>ident := js ''fileContainerData''\<rparr>],
     selected_element := Some (js ''#a_name''), selected_path := Some (js ''a'')\<rparr>"

lemma folder_selectors:
  "parse_selector (js ''#a_name'') = Some [IdSel (js ''a_name'')]"
  "parse_selector (js ''#b_name'') = Some [IdSel (js ''b_name'')]"
  "parse_selector (js ''#c_name'') = Some [IdSel (js ''c_name'')]"
  by (simp_all add: parse_selector_def js_def is_identifier_def is_name_unit_def is_name_start_def is_digit_def)

lemma folders_ok: "tree_ok folders" "found folders (js ''#a_name'') = Some 2" "found folders (js ''#b_name'') = Some 3"
  "found folders (js ''#c_name'') = None" "file_form folders = Some 4"
proof -
  show t: "tree_ok folders" using sample_tree by (simp add: tree_ok_def folders_def) (simp add: sample_page_def)
  have d: "tl (addrs (document folders)) = [1, 2, 3, 4]" by (simp add: folders_def sample_page_def document_def)
  have n: "node_at folders 1 = blank" "node_at folders 2 = blank\<lparr>ident := js ''a_name'', classes := [js ''selectedClass'']\<rparr>"
    "node_at folders 3 = blank\<lparr>ident := js ''b_name''\<rparr>"
    "node_at folders 4 = blank\<lparr>ident := js ''fileContainerData''\<rparr>" "node_at folders (Suc 0) = blank"
    by (simp_all add: folders_def node_at_def)
  note f = found_def document_descendants [OF t] d selector_matches_def n same_name_def lower_def js_def blank_def
  show "found folders (js ''#a_name'') = Some 2" using folder_selectors(1) by (simp add: f)
  show "found folders (js ''#b_name'') = Some 3" using folder_selectors(2) by (simp add: f)
  show "found folders (js ''#c_name'') = None" using folder_selectors(3) by (simp add: f)
  show "file_form folders = Some 4" using form_selector by (simp add: file_form_def f)
qed

text \<open>A folder whose name is shown as selected.\<close>

definition highlighted :: "world \<Rightarrow> jstr \<Rightarrow> bool" where
  "highlighted w s \<longleftrightarrow> (\<exists>a. found w s = Some a \<and> js ''selectedClass'' \<in> set (classes (node_at w a)))"

lemma class_toggled: "c \<in> set (classes (toggle_class c n)) \<longleftrightarrow> c \<notin> set (classes n)"
  by (simp add: toggle_class_def class_add_def class_remove_def)

lemma toggle_selected_step:
  assumes "tree_ok w" "names_id s" "found w s = Some a"
  defines "v \<equiv> set_node a (toggle_class (js ''selectedClass'')) w"
  shows "toggle_selected s w = (Inr (), v)" "tree_ok v" "\<And>t. names_id t \<Longrightarrow> found v t = found w t"
    "\<And>t. names_id t \<Longrightarrow> highlighted v t = (if found w t = Some a then \<not> highlighted w t else highlighted w t)"
proof -
  have "parse_selector s \<noteq> None" using names_idE [OF assms(2)] by auto
  then show "toggle_selected s w = (Inr (), v)"
    by (simp add: toggle_selected_def bnd_Inr htmx_find_step assms(3) non_null_def ret_def modify_def v_def)
  show "tree_ok v" using assms(1) by (simp add: v_def)
  show f: "found v t = found w t" if "names_id t" for t using that by (simp add: v_def)
  have "a < length (nodes w)" using found_in_document(3) [OF assms(1,3)] .
  then show "highlighted v t = (if found w t = Some a then \<not> highlighted w t else highlighted w t)" if "names_id t" for t
    using f [OF that] by (auto simp: highlighted_def v_def node_at_set_node class_toggled)
qed

text \<open>The new folder and the old one are elements of the page, not the same.\<close>

definition selectable :: "world \<Rightarrow> jstr \<Rightarrow> bool" where
  "selectable w n \<longleftrightarrow> names_id n \<and> found w n \<noteq> None \<and>
     (case selected_element w of None \<Rightarrow> True
      | Some s \<Rightarrow> names_id s \<and> found w s \<noteq> None \<and> found w s \<noteq> found w n)"

text \<open>The highlights of the old one and of the new one, and no others, are flipped.\<close>

definition flipped :: "jstr \<Rightarrow> world \<Rightarrow> world \<Rightarrow> bool" where
  "flipped n w w' \<longleftrightarrow>
     (\<forall>t. names_id t \<longrightarrow> found w' t = found w t \<and>
        (if found w t \<in> insert (found w n) (found w ` set_option (selected_element w))
         then highlighted w' t = (\<not> highlighted w t) else highlighted w' t = highlighted w t))"

lemma flippedI:
  assumes "\<And>t. names_id t \<Longrightarrow> found w' t = found w t"
    and "\<And>t. names_id t \<Longrightarrow> highlighted w' t =
      (if found w t \<in> insert (found w n) (found w ` set_option (selected_element w)) then \<not> highlighted w t else highlighted w t)"
  shows "flipped n w w'"
  using assms by (simp add: flipped_def)

lemma toggle_again: "selected_element w = Some (target @ js ''_name'') \<Longrightarrow> toggle target w = (Inr (), w)"
  by (simp add: toggle_def Let_def bnd_def gets_def ret_def)

lemma toggle_effect:
  assumes tree: "tree_ok w" and sel: "selectable w (target @ js ''_name'')"
  shows "\<exists>w'. toggle target w = (Inr (), w') \<and> tree_ok w' \<and> selected_element w' = Some (target @ js ''_name'') \<and>
     ajax w' = ajax w \<and> forest w' = forest w \<and> flipped (target @ js ''_name'') w w'"
proof -
  let ?n = "target @ js ''_name''" and ?c = "toggle_class (js ''selectedClass'')"
  have new: "names_id ?n" using sel by (simp add: selectable_def)
  obtain b where b: "found w ?n = Some b" using sel by (auto simp: selectable_def)
  have frame: "highlighted (v\<lparr>selected_element := x\<rparr>) t = highlighted v t" if "names_id t" for v x t
    using that by (simp add: highlighted_def node_at_def)
  show ?thesis
  proof (cases "selected_element w")
    case None
    let ?u = "w\<lparr>selected_element := Some ?n\<rparr>"
    have u: "tree_ok ?u" "found ?u ?n = Some b" using tree new b by (simp_all add: tree_ok_def)
    note t = toggle_selected_step [OF u(1) new u(2)]
    have run: "toggle target w = (Inr (), set_node b ?c ?u)"
      by (simp add: toggle_def Let_def bnd_def gets_def None seq_def modify_def t(1))
    have "flipped ?n w (set_node b ?c ?u)"
      by (rule flippedI) (auto simp: None t(3,4) frame b)
    then show ?thesis using run t(2) by (intro exI [of _ "set_node b ?c ?u"]) (simp add: set_node_def)
  next
    case (Some s)
    then have s: "names_id s" "found w s \<noteq> Some b" "s \<noteq> ?n" "found w s \<noteq> None"
      using sel b by (auto simp: selectable_def)
    then obtain a where a: "found w s = Some a" "a \<noteq> b" by auto
    note t1 = toggle_selected_step [OF tree s(1) a(1)]
    let ?u = "(set_node a ?c w)\<lparr>selected_element := Some ?n\<rparr>"
    have u: "tree_ok ?u" "found ?u ?n = Some b" using t1(2) t1(3) [OF new] new b by (simp_all add: tree_ok_def)
    note t2 = toggle_selected_step [OF u(1) new u(2)]
    have run: "toggle target w = (Inr (), set_node b ?c ?u)"
      using s(3) by (simp add: toggle_def Let_def bnd_def gets_def Some seq_Inr t1(1) seq_def modify_def t2(1))
    have "flipped ?n w (set_node b ?c ?u)"
      by (rule flippedI) (use a in \<open>auto simp: Some t1(3,4) t2(3,4) frame b\<close>)
    then show ?thesis using run t2(2) by (intro exI [of _ "set_node b ?c ?u"]) (simp add: set_node_def)
  qed
qed



text \<open>C19: Toggling another folder flips the highlight of the old one and of the new one and of
  nothing else, remembers the new one, and toggling it again does nothing.\<close>

theorem toggle_moves:
  assumes tree: "tree_ok w" and new: "names_id (target @ js ''_name'')" "found w (target @ js ''_name'') \<noteq> None"
    and old: "case selected_element w of None \<Rightarrow> True
      | Some s \<Rightarrow> names_id s \<and> found w s \<noteq> None \<and> found w s \<noteq> found w (target @ js ''_name'')"
  shows "\<exists>w'. toggle target w = (Inr (), w') \<and> selected_element w' = Some (target @ js ''_name'') \<and>
     toggle target w' = (Inr (), w') \<and>
     (\<forall>t. names_id t \<longrightarrow> found w' t = found w t \<and>
        (if found w t \<in> insert (found w (target @ js ''_name'')) (found w ` set_option (selected_element w))
         then highlighted w' t = (\<not> highlighted w t) else highlighted w' t = highlighted w t))"
proof -
  have "selectable w (target @ js ''_name'')" using new old by (simp add: selectable_def)
  from toggle_effect [OF tree this] show ?thesis using toggle_again by (auto simp: flipped_def)
qed

lemma toggle_moves_witness:
  "\<exists>w'. toggle (js ''#b'') folders = (Inr (), w') \<and> highlighted w' (js ''#b_name'') \<and> \<not> highlighted w' (js ''#a_name'')"
proof -
  have n: "js ''#b'' @ js ''_name'' = js ''#b_name''" by (simp add: js_def)
  have i: "names_id (js ''#a_name'')" "names_id (js ''#b_name'')" by (simp_all add: names_id_def folder_selectors)
  moreover have "\<not> highlighted folders (js ''#b_name'')" "highlighted folders (js ''#a_name'')"
    by (simp_all add: highlighted_def folders_ok) (simp_all add: folders_def node_at_def blank_def)
  moreover have "selected_element folders = Some (js ''#a_name'')" by (simp add: folders_def)
  ultimately show ?thesis
    using toggle_moves [OF folders_ok(1), of "js ''#b''"] by (auto simp: n folders_ok) 
qed

text \<open>The folder of a file.\<close>

lemma split_at_nonempty [simp]: "split_at x xs \<noteq> []"
  by (induction xs) (auto split: list.split)

lemma split_at_two: "split_at x (xs @ x # ys) = split_at x xs @ split_at x ys"
proof (induction xs)
  case (Cons z zs)
  then show ?case by (cases "split_at x zs") auto
qed simp

lemma join_split: "join_with [x] (split_at x xs) = xs"
proof (induction xs)
  case (Cons y ys)
  then show ?case by (cases "split_at x ys"; cases "tl (split_at x ys)") auto
qed simp

lemma parent_dir_append: "47 \<notin> set name \<Longrightarrow> parent_dir (d @ 47 # name) = 47 # d"
  by (simp add: parent_dir_def split_at_two split_at_none join_split)

text \<open>The element of the selected folder is no longer on the page.\<close>

definition lost :: "world \<Rightarrow> jstr \<Rightarrow> bool" where
  "lost w s \<longleftrightarrow> tree_ok w \<and> selected_element w = Some s \<and> parse_selector s \<noteq> None \<and> found w s = None"

text \<open>C30: When the element of the selected folder is no longer on the page, opening another folder
  still asks for its files but ends in a TypeError with the old folder selected, so every later
  folder fails the same way.\<close>

theorem selection_lost:
  assumes "lost w s" "target @ js ''_name'' \<noteq> s"
  shows "\<exists>w'. tree_loaded same target path w = (Inl TypeError, w') \<and> lost w' s \<and>
     ajax w' = ajax w @ [(js ''GET'', js ''/storage/files?parent='' @ path, js ''#resultsContainer'', [])]"
proof -
  have w: "tree_ok w" "selected_element w = Some s" "parse_selector s \<noteq> None" "found w s = None"
    using assms(1) by (simp_all add: lost_def)
  define w' where "w' = (after_reset same path w)\<lparr>selected_path := Some path,
    ajax := ajax w @ [(js ''GET'', js ''/storage/files?parent='' @ path, js ''#resultsContainer'', [])]\<rparr>"
  note r = resetFiles_step [OF w(1), of same path]
  have "found w' s = found (after_reset same path w) s"
    by (rule found_same) (simp_all add: w'_def)
  then have l: "lost w' s" using after_reset_found [OF w(1,4)] r(2) w by (simp add: lost_def tree_ok_def w'_def)
  have "openFiles same path w = (Inr (), w')"
    by (simp add: openFiles_def seq_Inr r modify_def htmx_ajax_def w'_def seq_def bnd_def js_def)
  moreover have "toggle_selected s w' = (Inl TypeError, w')"
    using l by (simp add: lost_def toggle_selected_def bnd_def htmx_find_step non_null_def throw_def)
  then have "toggle target w' = (Inl TypeError, w')"
    using l assms(2) by (auto simp: lost_def toggle_def Let_def bnd_def gets_def seq_def)
  ultimately show ?thesis using l by (intro exI [of _ w']) (simp add: tree_loaded_def seq_Inr w'_def)
qed

lemma selection_lost_witness:
  "\<exists>w'. tree_loaded (=) (js ''#b'') (js ''b'') (folders\<lparr>selected_element := Some (js ''#c_name'')\<rparr>) = (Inl TypeError, w') \<and>
     lost w' (js ''#c_name'')"
proof -
  let ?w = "folders\<lparr>selected_element := Some (js ''#c_name'')\<rparr>"
  have "tree_ok ?w" "found ?w (js ''#c_name'') = None"
    using folders_ok(1,4) by (simp_all add: tree_ok_def names_id_def folder_selectors)
  then have "lost ?w (js ''#c_name'')" by (simp add: lost_def folder_selectors)
  moreover have "js ''#b'' @ js ''_name'' \<noteq> js ''#c_name''" by (simp add: js_def)
  ultimately show ?thesis using selection_lost by blast
qed

text \<open>C24: Deleting a file asks first; with the consent one DELETE request is made, and on its answer
  200 the files of the folder of the file are asked for again.\<close>

theorem file_deleted:
  assumes url: "url_ok w (js ''/storage/file?parent='' @ path)"
    and steps: "net_steps (storage_callback same path) x v (es @ [e]) v'" "\<forall>e \<in> set es. \<not> final e" "final e"
    and change: "on_change (requests v ! x) = Some (OnGet p (js ''delete'') (Function 0 1))"
    and status: "req_status (after_events (es @ [e]) (requests v ! x)) = 200" and path: "path = d @ 47 # name" "47 \<notin> set name"
    and tree: "tree_ok v"
  shows "deleteFile False path w = (Inr (), w) \<and>
     deleteFile True path w = (Inr (), w\<lparr>requests := requests w @
       [issued (js ''DELETE'') (js ''/storage/file?parent='' @ path) [] NoBody
          (OnGet (js ''/storage/file?parent='' @ path) (js ''delete'') (Function 0 1))]\<rparr>) \<and>
     ajax v' = ajax v @ [(js ''GET'', js ''/storage/files?parent=/'' @ d, js ''#resultsContainer'', [])]"
proof -
  let ?url = "js ''/storage/file?parent='' @ path"
  have m: "method_of (js ''delete'') = Inr (js ''DELETE'')"
    by (simp add: method_of_def js_def is_token_unit_def upper_def standard_methods_def forbidden_methods_def)
  define r where "r = after_events (es @ [e]) (requests v ! x)"
  let ?u = "set_request x (\<lambda>_. r) v"
  have u: "tree_ok ?u" "ajax ?u = ajax v" using tree by (simp_all add: set_request_def tree_ok_def)
  have "v' = snd (get_change (storage_callback same path) p (js ''delete'') (Function 0 1) DONE 200 (req_response r) ?u)"
    using request_done [OF steps(1) change steps(2,3)] status by (simp add: change_of_def r_def Let_def)
  then have v': "v' = snd (openFiles same (47 # d) ?u)"
    using path by (simp add: successful_request storage_callback_def parent_dir_append)
  have "ajax v' = ajax v @ [(js ''GET'', js ''/storage/files?parent='' @ 47 # d, js ''#resultsContainer'', [])]"
    using resetFiles_step(1) [OF u(1), of same "47 # d"] u(2) unfolding v'
    by (simp add: openFiles_def seq_def bnd_def modify_def htmx_ajax_def js_def)
  then have "ajax v' = ajax v @ [(js ''GET'', js ''/storage/files?parent=/'' @ d, js ''#resultsContainer'', [])]"
    by (simp add: js_def)
  then show ?thesis using getData_ok [OF m url] by (simp add: deleteFile_def ret_def)
qed

text \<open>The file \<open>a/f\<close> was asked to be deleted.\<close>

definition deleting :: world where
  "deleting = folders\<lparr>requests :=
     [issued (js ''DELETE'') (js ''/x'') [] NoBody (OnGet (js ''/x'') (js ''delete'') (Function 0 1))]\<rparr>"

lemma file_deleted_witness:
  "\<exists>v'. net_steps (storage_callback (=) (js ''a/f'')) 0 deleting [Headers 200, Loaded []] v' \<and>
     ajax v' = [(js ''GET'', js ''/storage/files?parent=/a'', js ''#resultsContainer'', [])]"
proof -
  let ?run = "storage_callback (=) (js ''a/f'')" and ?k = "OnGet (js ''/x'') (js ''delete'') (Function 0 1)"
  let ?es = "[Headers 200, Loaded []]"
  define v' where "v' = foldl (\<lambda>w e. deliver (change_of ?run ?k) 0 e w) deleting ?es"
  have steps: "net_steps ?run 0 deleting ([Headers 200] @ [Loaded []]) v'"
    unfolding v'_def foldl.simps append.simps
    by (rule net_steps_Cons [OF net_stepI [where k = ?k] net_steps_Cons [OF net_stepI [where k = ?k] net_steps_Nil]])
      (simp_all add: deleting_def issued_def deliver_def Let_def set_request_def change_of_def get_change_def
        DONE_def ret_def)
  have "tree_ok deleting" using folders_ok(1) by (simp add: tree_ok_def deleting_def)
  moreover have "js ''a/f'' = js ''a'' @ 47 # js ''f''" "47 \<notin> set (js ''f'')" by (simp_all add: js_def)
  moreover have "on_change (requests deleting ! 0) = Some (OnGet (js ''/x'') (js ''delete'') (Function 0 1))"
    "req_status (after_events ([Headers 200] @ [Loaded []]) (requests deleting ! 0)) = 200"
    "url_ok deleting (js ''/storage/file?parent='' @ js ''a/f'')"
    by (simp_all add: deleting_def issued_def after_events_def folders_def sample_page_def)
  moreover have "ajax deleting = []" "js ''/storage/files?parent=/'' @ js ''a'' = js ''/storage/files?parent=/a''"
    by (simp_all add: deleting_def folders_def sample_page_def js_def)
  ultimately show ?thesis
    using file_deleted [of deleting "js ''a/f''" "(=)" 0 deleting "[Headers 200]" "Loaded []" v' "js ''/x''" "js ''a''" "js ''f''"]
      steps by auto
qed

end
