(* ===== verification/Reload.thy ===== *)
theory Reload
  imports Storage
begin

section \<open>The overview and the list of plugins\<close>

text \<open>
  The scripts of \<open>jte/index.jte\<close>, \<open>jte/plugins.jte\<close>, the fragments under \<open>jte/plugins\<close> and
  \<open>jte/generic/protocol.jte\<close>.  A start or stop of a plugin reloads the panels of the list: the first
  panel's fragment is asked for at once, and all others when it has been put in place, each on its
  own; a panel that was open is opened again.  The answer to \<open>confirm\<close> is a parameter.
\<close>

subsection \<open>The overview\<close>

definition cleanAccordionStatus :: "unit js_prog" where
  "cleanAccordionStatus = set_item status_item (js ''{}'')"

definition terminate :: "bool \<Rightarrow> unit js_prog" where
  "terminate yes = (if yes then getData (js ''/api/global/terminate'') (js ''GET'') (Function 0 0) else ret ())"

definition restart :: "bool \<Rightarrow> unit js_prog" where
  "restart yes = (if yes then getData (js ''/api/global/restart'') (js ''GET'') (Function 0 1) else ret ())"

definition overview_callback :: "nat \<Rightarrow> nat \<Rightarrow> jstr \<Rightarrow> unit js_prog" where
  "overview_callback f status response =
     showAlert (Str (if f = 0 then js ''Application terminated'' else js ''Application restarted''))"

subsection \<open>The port of a protocol\<close>

definition protocol_updateData :: "bool \<Rightarrow> jstr \<Rightarrow> jstr \<Rightarrow> unit js_prog" where
  "protocol_updateData yes safeId instanceId =
     (if yes then
        bnd (retrieveValue (js ''port'' @ safeId)) (\<lambda>port.
        bnd (new_object [(js ''port'', port)]) (\<lambda>data.
        seq (log_at ''log'' [data])
       (bnd (json_stringify data) (\<lambda>s.
          sendData (js ''/api/protocols/'' @ instanceId) (js ''POST'') s json_type (Function 2 0)))))
      else ret ())"

subsection \<open>The panels of the list\<close>

text \<open>The functions that reload one panel each; a protocol has the id of its instance and a safe one.\<close>

datatype reloader = ReloadActive | ReloadWildcard | ReloadProtocol jstr jstr

fun reload_name :: "reloader \<Rightarrow> jstr" where
  "reload_name ReloadActive = js ''reloadActive''"
| "reload_name ReloadWildcard = js ''reloadWildcard''"
| "reload_name (ReloadProtocol instanceId safeId) = js ''reload'' @ instanceId"

fun reload_panel :: "reloader \<Rightarrow> jstr" where
  "reload_panel ReloadActive = js ''collapseActive''"
| "reload_panel ReloadWildcard = js ''collapseWildcard''"
| "reload_panel (ReloadProtocol instanceId safeId) = js ''collapse'' @ safeId"

fun reload_path :: "reloader \<Rightarrow> jstr" where
  "reload_path ReloadActive = js ''/plugins/active?avoidScript=true''"
| "reload_path ReloadWildcard = js ''/plugins/wildcard?avoidScript=true''"
| "reload_path (ReloadProtocol instanceId safeId) =
     js ''/plugins/protocols?protocolId='' @ instanceId @ js ''&avoidScript=true''"

fun reload_target :: "reloader \<Rightarrow> jstr" where
  "reload_target ReloadActive = js ''#activePanel''"
| "reload_target ReloadWildcard = js ''#wildcardPanel''"
| "reload_target (ReloadProtocol instanceId safeId) = js ''#'' @ safeId @ js ''panel''"

text \<open>The value is the variable the function passed to \<open>then\<close> closes over; \<open>reopen\<close> is that function.\<close>

definition reload_one :: "reloader \<Rightarrow> bool js_prog" where
  "reload_one r =
     seq (log_at ''log'' [Str (reload_name r)])
    (bnd (isAccordionOpen (reload_panel r)) (\<lambda>isOpen.
     seq (htmx_ajax (reload_path r) (reload_target r) '''')
         (ret isOpen)))"

definition reopen :: "reloader \<Rightarrow> bool \<Rightarrow> unit js_prog" where
  "reopen r isOpen = (if isOpen then openAccordion (reload_panel r) else ret ())"

text \<open>The functions a page has, in the order \<open>reloadAllPlugins\<close> looks for them.\<close>

definition reloaders :: "bool \<Rightarrow> bool \<Rightarrow> (jstr \<times> jstr) list \<Rightarrow> reloader list" where
  "reloaders active wildcard protocols =
     (if active then [ReloadActive] else []) @ (if wildcard then [ReloadWildcard] else []) @
     map (\<lambda>(i, s). ReloadProtocol i s) protocols"

text \<open>
  The first one gives the promise; the others wait for it, not for each other.  When it is fulfilled
  they run one after the other, and an exception ends only the one that throws it.
\<close>

definition reloadAllPlugins :: "reloader list \<Rightarrow> bool option js_prog" where
  "reloadAllPlugins rs = (case rs of [] \<Rightarrow> ret None | r # _ \<Rightarrow> bnd (reload_one r) (\<lambda>isOpen. ret (Some isOpen)))"

definition reload_others :: "reloader list \<Rightarrow> world \<Rightarrow> world" where
  "reload_others rs w = foldl (\<lambda>w r. snd (reload_one r w)) w rs"

definition first_loaded :: "reloader list \<Rightarrow> bool \<Rightarrow> world \<Rightarrow> world" where
  "first_loaded rs isOpen w =
     (case rs of
        [] \<Rightarrow> w
      | r # others \<Rightarrow>
          (case reopen r isOpen w of (Inl _, u) \<Rightarrow> u | (Inr _, u) \<Rightarrow> reload_others others u))"

subsection \<open>Reloading\<close>

definition fragment :: "reloader \<Rightarrow> jstr \<times> jstr \<times> jstr \<times> jstr" where
  "fragment r = (js ''GET'', reload_path r, reload_target r, [])"

definition present :: "world \<Rightarrow> reloader \<Rightarrow> bool" where
  "present w r \<longleftrightarrow> element_by_id w (reload_panel r) \<noteq> None"

definition was_open :: "world \<Rightarrow> reloader \<Rightarrow> bool" where
  "was_open w r \<longleftrightarrow> (\<exists>el. element_by_id w (reload_panel r) = Some el \<and> panel_open w el)"

lemma reload_one_step:
  "reload_one r w =
     (if present w r
      then (Inr (was_open w r), w\<lparr>console := console w @ [(''log'', [Str (reload_name r)])], ajax := ajax w @ [fragment r]\<rparr>)
      else (Inl TypeError, w\<lparr>console := console w @ [(''log'', [Str (reload_name r)])]\<rparr>))"
proof -
  have i: "element_by_id (w\<lparr>console := c\<rparr>) k = element_by_id w k" for c k
    by (rule element_by_id_cong) (simp_all add: node_at_def)
  show ?thesis
    by (auto simp: reload_one_def seq_Inr log_at_step isAccordionOpen_def get_element_def bnd_def gets_def i present_def
        was_open_def non_null_def throw_def ret_def panel_open_def htmx_ajax_def seq_def modify_def fragment_def js_def
        node_at_def split: option.split)
qed

lemma reload_others_effect:
  "\<exists>c. reload_others rs w = w\<lparr>console := c, ajax := ajax w @ map fragment (filter (present w) rs)\<rparr>"
proof (induction rs arbitrary: w)
  case Nil
  show ?case by (rule exI [of _ "console w"]) (simp add: reload_others_def)
next
  case (Cons r rs)
  define u where "u = snd (reload_one r w)"
  have "element_by_id u k = element_by_id w k" for k
    by (rule element_by_id_cong) (simp_all add: u_def reload_one_step node_at_def)
  then have p: "present u = present w" by (simp add: present_def fun_eq_iff)
  obtain c where "reload_others rs u = u\<lparr>console := c, ajax := ajax u @ map fragment (filter (present w) rs)\<rparr>"
    using Cons.IH [of u] unfolding p by blast
  then have "reload_others (r # rs) w = w\<lparr>console := c, ajax := ajax w @ map fragment (filter (present w) (r # rs))\<rparr>"
    by (simp add: reload_others_def u_def reload_one_step)
  then show ?case by blast
qed

text \<open>C16: Reloading the plugin list asks for the first panel only; when it is in place it is opened
  again if it was open, and all other panels that are on the page are asked for in order, a
  missing one stopping none of them.\<close>

theorem plugins_reloaded:
  assumes rs: "reloaders active wildcard protocols = r # others" and first: "present w r"
  shows "\<exists>w'. reloadAllPlugins (reloaders active wildcard protocols) w = (Inr (Some (was_open w r)), w') \<and>
     ajax w' = ajax w @ [fragment r] \<and>
     (\<forall>v. let v' = first_loaded (reloaders active wildcard protocols) (was_open w r) v
          in ajax v' = ajax v @ map fragment (filter (present v) others) \<and>
             map task (timers v') = map task (timers v) @ (if was_open w r then [OpenPanel (reload_panel r)] else []) \<and>
             nodes v' = nodes v \<and> forest v' = forest v \<and> store v' = store v)"
proof -
  have loaded: "\<exists>u. reopen r o' v = (Inr (), u) \<and> ajax u = ajax v \<and> nodes u = nodes v \<and> forest u = forest v \<and> store u = store v \<and>
     map task (timers u) = map task (timers v) @ (if o' then [OpenPanel (reload_panel r)] else [])" for o' v
    by (simp add: reopen_def openAccordion_def seq_Inr log_at_step set_timeout_def bnd_def ret_def)
  have "let v' = first_loaded (r # others) (was_open w r) v
          in ajax v' = ajax v @ map fragment (filter (present v) others) \<and>
             map task (timers v') = map task (timers v) @ (if was_open w r then [OpenPanel (reload_panel r)] else []) \<and>
             nodes v' = nodes v \<and> forest v' = forest v \<and> store v' = store v" for v
  proof -
    obtain u where u: "reopen r (was_open w r) v = (Inr (), u)" "ajax u = ajax v" "nodes u = nodes v" "forest u = forest v"
        "store u = store v"
        "map task (timers u) = map task (timers v) @ (if was_open w r then [OpenPanel (reload_panel r)] else [])"
      using loaded by blast
    have "present u = present v"
      using element_by_id_cong [of u v] u(3,4) by (simp add: present_def fun_eq_iff node_at_def)
    then show ?thesis
      using reload_others_effect [of others u] u by (auto simp: first_loaded_def Let_def)
  qed
  then show ?thesis unfolding rs by (simp add: reloadAllPlugins_def bnd_def reload_one_step first ret_def)
qed

text \<open>A page with the active plugins, open, and one of its two protocols.\<close>

definition plugin_list :: world where
  "plugin_list = sample_page\<lparr>
     nodes := [blank, blank, blank\<lparr>ident := js ''collapseActive'', classes := [js ''in'']\<rparr>,
       blank\<lparr>ident := js ''collapsehttp_01''\<rparr>, blank]\<rparr>"

lemma plugins_reloaded_witness:
  "\<exists>w'. reloadAllPlugins (reloaders True False [(js ''pg-01'', js ''pg_01''), (js ''http-01'', js ''http_01'')]) plugin_list =
       (Inr (Some True), w') \<and>
     ajax (first_loaded (reloaders True False [(js ''pg-01'', js ''pg_01''), (js ''http-01'', js ''http_01'')]) True plugin_list) =
       [(js ''GET'', js ''/plugins/protocols?protocolId=http-01&avoidScript=true'', js ''#http_01panel'', [])]"
proof -
  let ?ps = "[(js ''pg-01'', js ''pg_01''), (js ''http-01'', js ''http_01'')]"
  let ?others = "[ReloadProtocol (js ''pg-01'') (js ''pg_01''), ReloadProtocol (js ''http-01'') (js ''http_01'')]"
  have ids: "element_by_id plugin_list (js ''collapseActive'') = Some 2" "element_by_id plugin_list (js ''collapsehttp_01'') = Some 3"
    "element_by_id plugin_list (js ''collapsepg_01'') = None" "panel_open plugin_list 2" "ajax plugin_list = []"
    by (simp_all add: plugin_list_def sample_page_def element_by_id_def document_def node_at_def blank_def panel_open_def)
  have j: "js ''collapse'' @ js t = js (''collapse'' @ t)" for t by (simp add: js_def)
  have rs: "reloaders True False ?ps = ReloadActive # ?others" by (simp add: reloaders_def)
  have p: "present plugin_list ReloadActive" "was_open plugin_list ReloadActive = True"
    "filter (present plugin_list) ?others = [ReloadProtocol (js ''http-01'') (js ''http_01'')]"
    by (simp_all add: present_def was_open_def ids j)
  have f: "fragment (ReloadProtocol (js ''http-01'') (js ''http_01'')) =
      (js ''GET'', js ''/plugins/protocols?protocolId=http-01&avoidScript=true'', js ''#http_01panel'', [])"
    by (simp add: fragment_def js_def)
  obtain w' where w': "reloadAllPlugins (reloaders True False ?ps) plugin_list = (Inr (Some True), w')"
      "\<forall>v. ajax (first_loaded (reloaders True False ?ps) True v) = ajax v @ map fragment (filter (present v) ?others)"
    using plugins_reloaded [OF rs p(1)] unfolding p(2) Let_def by blast
  show ?thesis using w'(1) w'(2) [rule_format, of plugin_list] unfolding p(3) by (simp add: f ids(5))
qed

subsection \<open>A corrupted status, cleaned\<close>

text \<open>Cleaning leaves a text the panels can read, whatever was stored.\<close>

lemma status_cleaned:
  assumes "room w (js ''{}'')"
  shows "\<exists>w'. cleanAccordionStatus w = (Inr (), w') \<and> statuses w' = Some [] \<and> nodes w' = nodes w"
proof -
  have "cleanAccordionStatus w = (Inr (), w\<lparr>store := put_item status_item (js ''{}'') (store w)\<rparr>)"
    using assms by (simp add: cleanAccordionStatus_def set_item_def room_def)
  moreover have "statuses (w\<lparr>store := put_item status_item (js ''{}'') (store w)\<rparr>) = Some []"
    using sample_status(2) by (simp add: statuses_def status_text_def local.lookup_same)
  ultimately show ?thesis by simp
qed

end
