(* ===== verification/Spec2Isabelle.thy ===== *)
theory Spec2Isabelle
  imports Prelude Numbers Json Values Dom Browser Forms Notifications Requests Accordion
    Params Queries Upload Modal Pages Swagger Plugins Records Storage Reload
begin

section \<open>The browser code of the protocol master\<close>

text \<open>
  The protocol master is a proxy for many protocols, written in Java, with a web interface.  Its
  JavaScript is \<open>web/lib/utils.js\<close> under \<open>src/protocol-runner/src/main/resources\<close>, the scripts
  inside the templates of \<open>jte/\<close>, and \<open>web/swagger-ui/swagger-initializer.js\<close>; the other
  JavaScript files there are minified libraries.  This development models all of \<open>utils.js\<close>, the
  script \<open>jte/footer.jte\<close> that every page ends with, the scripts of the single pages, and the
  initializer.

  \<^bold>\<open>How the parts interact.\<close>  \<open>utils.js\<close> is read in the head of every page.  Its form functions copy
  values between elements and objects; the page scripts send these objects with \<open>sendData\<close> and
  \<open>getData\<close>, whose closures report failures through \<open>showNotification\<close>; files go through the upload
  functions and \<open>send_file\<close>.  The panels of a page keep their status in \<open>localStorage\<close>.  Half a
  second after the page, the timer of \<open>footer.jte\<close> makes the container of the notifications,
  restores the panels, which sets one timer for each panel to open, and installs the listener that
  turns failed htmx requests into notifications.  All of them share the document, the heap of
  objects, the timers and the console, so the model has one state, \<open>Browser.world\<close>, and every
  function is a program on it: it ends with a value or an exception, and the state it leaves is kept
  either way (\<open>Prelude.prog\<close>).

  \<^bold>\<open>The language and the browser.\<close>
  \<^item> \<open>Prelude\<close>: strings as lists of 16-bit code units, exceptions, programs, loops.
  \<^item> \<open>Numbers\<close>: the numbers of the language, IEEE doubles, with the exact rounding of a decimal text
    to the nearest double, the shortest text that reads back as the same double, and the lemma that
    printing and reading a number round-trips.
  \<^item> \<open>Json\<close>: the grammar, the parser and both printers of JSON, with the round trip
    \<open>json_parse (json_text j) = Some (via_text j)\<close>, where \<open>via_text\<close> is what a text cannot carry (the
    sign of zero, numbers that are not finite).
  \<^item> \<open>Values\<close>: values, the heap of objects and arrays, \<open>JSON.stringify\<close> with its failure on cycles
    (\<open>tree\<close>), \<open>JSON.parse\<close> with its fresh objects (\<open>build\<close>), the well-formed heaps (\<open>heap_ok\<close>).
  \<^item> \<open>Dom\<close>: forests of nodes with attaching, detaching and their lemmas.
  \<^item> \<open>Browser\<close>: the world and the browser interfaces the code calls, each with its errors:
    \<open>getElementById\<close>, \<open>querySelector\<close> on ids and classes, the \<open>value\<close> property by kind of element,
    \<open>classList\<close>, timers, \<open>localStorage\<close> with a quota, \<open>XMLHttpRequest\<close>.
  \<^item> \<open>Params\<close>: \<open>URLSearchParams\<close>, from the code units of the address through UTF-8 and escapes to
    the list of pairs, and \<open>encodeURI\<close>; its encodings are interpretations of the locales \<open>codec\<close> and \<open>two_codecs\<close>.

  \<^item> \<open>Queries\<close>: what becomes of the query of an address on its way to the server, which the search of the
    recording depends on: \<open>sent_query\<close> is what the browser sends (nothing from \<open>#\<close> on), \<open>url_decode\<close> is
    \<open>URLDecoder\<close>, and \<open>queryToMap\<close> the parser of the server, in
    \<open>src/protocol-common/src/main/java/org/kendar/apis/converters/RequestUtils.java\<close>; \<open>search_sent\<close> is what
    that parser makes of the query of the search.  \<open>Character.digit\<close> is read on the digits of an address,
    which are ASCII.

  \<^bold>\<open>The components\<close>, in the order of \<open>utils.js\<close>; every function of the source is a definition with
  its name, and a closure the code hands to the browser is a definition of its own.
  \<^item> \<open>Forms\<close>: \<open>retrieveValue\<close>, \<open>setValue\<close>, \<open>retrieveValues\<close>, \<open>deepClone\<close>, \<open>prettifyJson\<close>.  The lemmas
    show what an element gives back after it was set, what a form collects, that a clone is a fresh
    copy of the tree, that pretty printing keeps the tree, and that all of it keeps the world well
    formed (\<open>typed\<close>).
  \<^item> \<open>Requests\<close>: \<open>sendData\<close>, \<open>getData\<close>, \<open>send_file\<close> and their closures \<open>send_change\<close>, \<open>get_change\<close>,
    \<open>file_change\<close>.  The events of the network are the step relation \<open>net_step\<close>; the locale
    \<open>request_handler\<close> says that a closure acts at the end of the request only, and its
    interpretations give that each request is handled once.  What the callback of a caller does is
    the parameter \<open>run\<close>.
  \<^item> \<open>Params\<close>, \<open>Upload\<close>: the proxies over the address, \<open>downloadURI\<close>, the extension \<open>json-enc\<close>,
    \<open>async_file_clean\<close>, \<open>async_file_send\<close>, \<open>find_child_within_tree\<close>, \<open>handle_file_select\<close>.  The
    variable \<open>currentFileData\<close> is \<open>current_file\<close>: the code reads only the target of the event.  The
    closed instances run on the part of \<open>jte/storage.jte\<close> around its input.
  \<^item> \<open>Accordion\<close>: the panels and the item \<open>accordionStatus\<close>.  The locale \<open>keyed_store\<close> is the contract
    of a store with keys; it is interpreted on the property lists of objects, on \<open>localStorage\<close>, and
    on the JSON text itself, whose update is what \<open>setAccordionStatus\<close> computes.
  \<^item> \<open>Modal\<close>: \<open>openModal\<close>, \<open>closeModal\<close>, the click on the background, \<open>locationReload\<close>.  The abstract
    specification is \<open>shows_modal w m\<close>: at most one modal is open and the body says whether one is.
  \<^item> \<open>Notifications\<close>: \<open>NotificationSystem\<close>, the shorthands, \<open>handleHtmxResults\<close>.  \<open>ns_step\<close> is its step
    relation (shown, closed by a click, a timer fires), \<open>ns_ok\<close> its invariant; the locale \<open>notifier\<close>
    is what the requests rely on.
  \<^item> \<open>Pages\<close>: \<open>footer.jte\<close>, and the timers of all components in one order (\<open>page_tick\<close>).  The lemmas
    compose \<open>Accordion\<close> and \<open>Notifications\<close>: what a toggle stores, the next page shows.
  \<^item> \<open>Swagger\<close>: \<open>swagger-initializer.js\<close>, with the bundle as a parameter.

  \<^bold>\<open>The pages.\<close>  What the server puts into a script (the ids of an instance and of a plugin) is an
  argument; so are the answer to \<open>confirm\<close>, the text in the clipboard, the text of an exception and
  the comparison of the locale.  The functions a script passes to \<open>sendData\<close> or \<open>getData\<close> are the
  \<open>..._callback\<close> of its page, numbered by their first argument, and a function passed to \<open>then\<close> is a
  definition of its own.  \<open>htmx.ajax\<close> is recorded with its method, path, target and swap.
  \<^item> \<open>Plugins\<close>: \<open>jte/generic\<close>, the settings of the plugins (\<open>updateData\<close>) and the rewrite rules, and the
    search of \<open>jte/recording.jte\<close>.  \<open>collect_literal\<close> and \<open>tree_form\<close> say what text a form becomes,
    \<open>settings_saved\<close> and \<open>settings_answered\<close> compose it with \<open>Requests\<close> and \<open>Notifications\<close>; the
    search rests on \<open>encodeURI\<close> of \<open>Params\<close> and on \<open>Queries\<close>.
  \<^item> \<open>Records\<close>: a record goes from \<open>recording.jte\<close> over the clipboard to \<open>mock_plugin/index.jte\<close> and to
    the server.  \<open>collect_record_effect\<close>, \<open>set_fields\<close> and \<open>paste_effect\<close> are the steps of
    \<open>record_travels\<close>.
  \<^item> \<open>Storage\<close>: \<open>jte/storage.jte\<close>.  The variables of the script are \<open>selected_element\<close> and
    \<open>selected_path\<close>; \<open>found\<close> is \<open>htmx.find\<close>, \<open>after_reset\<close> the page after \<open>resetFiles\<close>.
  \<^item> \<open>Reload\<close>: \<open>jte/index.jte\<close>, \<open>jte/plugins.jte\<close> and \<open>jte/plugins\<close>, \<open>jte/generic/protocol.jte\<close>.  A panel
    of the list is a \<open>reloader\<close>; \<open>reload_one\<close> asks for it, \<open>reopen\<close> and \<open>first_loaded\<close> run when its
    fragment is in place.  \<open>status_cleaned\<close> shows that cleaning repairs the statuses of \<open>Accordion\<close>.

  \<^bold>\<open>Bounds and termination.\<close>  Every definition is total.  The loop of \<open>find_child_within_tree\<close> has the
  ten iterations of the source as its counter.  \<open>Pages.page_restores_panels\<close> says how many timers
  make a page quiet, one and one for each panel to open; \<open>Notifications.notifications_drain\<close> uses
  the number of closings still to come.  \<open>Accordion.first_status_fits\<close> gives a quota that is enough
  for a first status.

  \<^bold>\<open>Choices of the model.\<close>  The numbers of a text of any length are read exactly, with no bound on
  digits.  Selectors are compound selectors of ids and classes, the only ones the code builds;
  others are refused like invalid ones.  Markup assigned to \<open>innerHTML\<close> is kept as a text.  The texts of
  objects in the console are their names (\<open>[object Error]\<close>).  \<open>URL\<close> parsing by \<open>open\<close> is the
  parameter \<open>url_ok\<close>.  Objects with own members \<open>toJSON\<close>, \<open>toString\<close> or \<open>__proto__\<close> are outside the
  heap.  In \<open>load_panel\<close> the id of an entry is made a string before it is passed on.

  \<^bold>\<open>Not modelled.\<close>  The Java modules (protocols, proxy, plugins, web server, storage) and the test
  sources, but for \<open>queryToMap\<close>; htmx and the bundles of Swagger UI, minified libraries, of which the code uses a
  registration, \<open>htmx.ajax\<close> (recorded in \<open>ajax\<close>), \<open>htmx.find\<close> and \<open>htmx.remove\<close> (which do what the DOM does) and the
  bundle's function (a parameter); the styles
  and the markup of the templates with its inline handlers, calls of the functions above with literal
  arguments; the scripts inside the templates of the protocol modules (\<open>jte/\<close> under
  \<open>src/protocol-http\<close>, \<open>protocol-redis\<close>, \<open>protocol-mysql\<close>, \<open>protocol-postgres\<close>, \<open>protocol-mqtt\<close>,
  \<open>protocol-amqp-091\<close>, \<open>protocol-dns-plugin\<close> and \<open>protocol-common-jdbc\<close>), which repeat those of
  \<open>jte/generic\<close> for one protocol or call \<open>sendData\<close> and \<open>getData\<close> for its publishing, hosts and targets;
  the script of \<open>jte/global/report_plugin/index.jte\<close>, which has a syntax error, so that none
  of its functions exists.
\<close>

end
